(* ===== verification/Ganeti_Prelude.thy ===== *)
theory Ganeti_Prelude
  imports Main
begin

text \<open>
  Shared vocabulary of the development: the exceptions the Python code raises, the result
  type of code that may raise (as a value, and threaded through a state), JSON values as
  the job queue stores them, the decimal rendering of integers and Python's reading of it,
  splitting and joining of strings, and two small contracts (locales) that several components use:
  an operation interface whose steps keep an invariant, and a transition relation with an
  inductive invariant.
\<close>

section \<open>Collections of facts\<close>

named_theorems res_simps \<open>equations of the result combinators\<close>
named_theorems inv_intros \<open>introduction rules of the components' invariants\<close>

section \<open>Exceptions and results\<close>

text \<open>
  The exceptions of the modelled code: the language's own, and the classes of
  \<^verbatim>\<open>lib/errors.py\<close>. A constructor carries a text where the model keeps the message;
  \<open>AddressValueError\<close> and \<open>NetmaskValueError\<close> are the subclasses of \<^verbatim>\<open>ValueError\<close> that the
  \<^verbatim>\<open>ipaddress\<close> module raises, and \<open>OpPrereqTempNores\<close> is an \<^verbatim>\<open>OpPrereqError\<close> with the error code \<^verbatim>\<open>ECODE_TEMP_NORES\<close>.
\<close>

datatype exn =
    AssertionError
  | KeyError
  | IndexError
  | TypeError
  | ValueError
  | RuntimeError
  | NotImplementedError
  | EnvironmentError
  | AttributeError
  | OverflowError
  | AddressValueError
  | NetmaskValueError
  | GenericError string
  | ProgrammerError string
  | LockError string
  | AddressPoolError string
  | ReservationError string
  | ConfigurationError string
  | OpPrereqError string
  | OpPrereqTempNores string
  | OpRetryNotSupportedError
  | OpExecError string
  | OpResultError
  | OpCodeUnknown
  | ParameterError string
  | JobLost string
  | JobFileCorrupted
  | NoSuchTask
  | CancelJob
  | LockAcquireTimeout
  | RetryTimeout
  | OtherError string

type_synonym 'a res = "exn + 'a"

definition res_bind :: "'a res \<Rightarrow> ('a \<Rightarrow> 'b res) \<Rightarrow> 'b res" where
  "res_bind m f = (case m of Inl e \<Rightarrow> Inl e | Inr x \<Rightarrow> f x)"

definition check :: "bool \<Rightarrow> exn \<Rightarrow> unit res" where
  "check b e = (if b then Inr () else Inl e)"

lemma res_bind_Inl [simp, res_simps]: "res_bind (Inl e) f = Inl e"
  by (simp add: res_bind_def)

lemma res_bind_Inr [simp, res_simps]: "res_bind (Inr x) f = f x"
  by (simp add: res_bind_def)

lemma res_bind_eq_Inr [res_simps]:
  "res_bind m f = Inr y \<longleftrightarrow> (\<exists>x. m = Inr x \<and> f x = Inr y)"
  by (cases m) auto

lemma res_bind_eq_Inl [res_simps]:
  "res_bind m f = Inl e \<longleftrightarrow> m = Inl e \<or> (\<exists>x. m = Inr x \<and> f x = Inl e)"
  by (cases m) auto

lemma res_bind_cong [fundef_cong]:
  "m = m' \<Longrightarrow> (\<And>x. m' = Inr x \<Longrightarrow> f x = g x) \<Longrightarrow> res_bind m f = res_bind m' g"
  by (cases m') auto

lemma check_True [simp, res_simps]: "check True e = Inr ()"
  by (simp add: check_def)

lemma check_False [simp, res_simps]: "check False e = Inl e"
  by (simp add: check_def)

lemma check_eq_Inr [simp, res_simps]: "check b e = Inr u \<longleftrightarrow> b"
  by (simp add: check_def)

section \<open>Stateful code that may raise\<close>

text \<open>
  A method of an object is a function of the object's state that gives a result and the
  state it leaves, also when it raises: \<open>st_bind\<close> is the sequencing of statements,
  \<open>st_do\<close> an assignment, \<open>st_assert\<close> a condition without which an exception is raised,
  and \<open>st_finally\<close> a \<^verbatim>\<open>try ... finally\<close> block, whose second part runs in either case and
  whose own exception replaces the first.
\<close>

type_synonym ('s, 'a) meth = "'s \<Rightarrow> 'a res \<times> 's"

definition st_return :: "'a \<Rightarrow> ('s, 'a) meth" where
  "st_return x s = (Inr x, s)"

definition st_raise :: "exn \<Rightarrow> ('s, 'a) meth" where
  "st_raise e s = (Inl e, s)"

definition st_bind :: "('s, 'a) meth \<Rightarrow> ('a \<Rightarrow> ('s, 'b) meth) \<Rightarrow> ('s, 'b) meth" where
  "st_bind m f s = (case m s of (Inl e, s') \<Rightarrow> (Inl e, s') | (Inr x, s') \<Rightarrow> f x s')"

definition st_do :: "('s \<Rightarrow> 's) \<Rightarrow> ('s, unit) meth" where
  "st_do f s = (Inr (), f s)"

definition st_get :: "('s \<Rightarrow> 'a) \<Rightarrow> ('s, 'a) meth" where
  "st_get f s = (Inr (f s), s)"

definition st_assert :: "('s \<Rightarrow> bool) \<Rightarrow> exn \<Rightarrow> ('s, unit) meth" where
  "st_assert P e s = (if P s then (Inr (), s) else (Inl e, s))"

definition st_finally :: "('s, 'a) meth \<Rightarrow> ('s, unit) meth \<Rightarrow> ('s, 'a) meth" where
  "st_finally m f s =
     (case m s of (r, s') \<Rightarrow> (case f s' of (Inl e, s'') \<Rightarrow> (Inl e, s'') | (Inr _, s'') \<Rightarrow> (r, s'')))"

lemmas st_defs = st_return_def st_raise_def st_bind_def st_do_def st_get_def st_assert_def
  st_finally_def

lemma st_bind_cong [fundef_cong]:
  "m s = m' s' \<Longrightarrow> (\<And>x t. m' s' = (Inr x, t) \<Longrightarrow> f x t = g x t) \<Longrightarrow> st_bind m f s = st_bind m' g s'"
  by (auto simp: st_bind_def split: prod.splits sum.splits)

section \<open>JSON values\<close>

datatype json =
    JNull
  | JBool bool
  | JInt int
  | JStr string
  | JList "json list"
  | JObj "(string \<times> json) list"

section \<open>Decimal rendering\<close>

definition digit_char :: "nat \<Rightarrow> char" where
  "digit_char d = char_of (48 + d)"

fun nat_str :: "nat \<Rightarrow> string" where
  "nat_str n = (if n < 10 then [digit_char n] else nat_str (n div 10) @ [digit_char (n mod 10)])"

declare nat_str.simps [simp del]

definition int_str :: "int \<Rightarrow> string" where
  "int_str i = (if i < 0 then CHR ''-'' # nat_str (nat (- i)) else nat_str (nat i))"

definition is_digit_char :: "char \<Rightarrow> bool" where
  "is_digit_char c \<longleftrightarrow> 48 \<le> (of_char c :: nat) \<and> (of_char c :: nat) \<le> 57"

definition digit_value :: "char \<Rightarrow> nat" where
  "digit_value c = of_char c - 48"

lemma of_char_digit_char: "d < 10 \<Longrightarrow> (of_char (digit_char d) :: nat) = 48 + d"
  by (simp add: digit_char_def)

lemma is_digit_digit_char [simp]: "d < 10 \<Longrightarrow> is_digit_char (digit_char d)"
  by (simp add: is_digit_char_def of_char_digit_char)

lemma digit_value_digit_char [simp]: "d < 10 \<Longrightarrow> digit_value (digit_char d) = d"
  by (simp add: digit_value_def of_char_digit_char)

lemma nat_str_nonempty [simp]: "nat_str n \<noteq> []"
  by (subst nat_str.simps) simp

lemma nat_str_digits: "c \<in> set (nat_str n) \<Longrightarrow> is_digit_char c"
proof (induction n rule: nat_str.induct)
  case (1 n)
  show ?case
  proof (cases "n < 10")
    case True
    with "1.prems" show ?thesis by (simp add: nat_str.simps [of n])
  next
    case False
    with "1" show ?thesis by (auto simp: nat_str.simps [of n])
  qed
qed

definition digits_value :: "string \<Rightarrow> nat" where
  "digits_value cs = foldl (\<lambda>acc c. 10 * acc + digit_value c) 0 cs"

lemma digits_value_snoc [simp]: "digits_value (cs @ [c]) = 10 * digits_value cs + digit_value c"
  by (simp add: digits_value_def)

lemma digits_value_nat_str [simp]: "digits_value (nat_str n) = n"
proof (induction n rule: nat_str.induct)
  case (1 n)
  show ?case
  proof (cases "n < 10")
    case True
    then show ?thesis by (simp add: nat_str.simps [of n] digits_value_def)
  next
    case False
    with "1.IH" have "digits_value (nat_str (n div 10)) = n div 10" by simp
    with False show ?thesis by (simp add: nat_str.simps [of n])
  qed
qed

section \<open>Strings\<close>

definition is_lower :: "char \<Rightarrow> bool" where
  "is_lower c \<longleftrightarrow> 97 \<le> (of_char c :: nat) \<and> (of_char c :: nat) \<le> 122"

definition is_upper :: "char \<Rightarrow> bool" where
  "is_upper c \<longleftrightarrow> 65 \<le> (of_char c :: nat) \<and> (of_char c :: nat) \<le> 90"

definition to_lower :: "char \<Rightarrow> char" where
  "to_lower c = (if is_upper c then char_of ((of_char c :: nat) + 32) else c)"

definition to_upper :: "char \<Rightarrow> char" where
  "to_upper c = (if is_lower c then char_of ((of_char c :: nat) - 32) else c)"

text \<open>\<^verbatim>\<open>s.split(sep)\<close> for a one-character separator.\<close>

fun split_char :: "char \<Rightarrow> string \<Rightarrow> string list" where
  "split_char sep [] = [[]]"
| "split_char sep (c # cs) =
     (if c = sep then [] # split_char sep cs
      else (case split_char sep cs of [] \<Rightarrow> [[c]] | w # ws \<Rightarrow> (c # w) # ws))"

fun join_str :: "string \<Rightarrow> string list \<Rightarrow> string" where
  "join_str sep [] = []"
| "join_str sep [w] = w"
| "join_str sep (w # v # ws) = w @ sep @ join_str sep (v # ws)"

lemma split_char_nonempty [simp]: "split_char sep cs \<noteq> []"
  by (induction cs) (auto split: list.splits)

lemma split_char_no_sep: "sep \<notin> set w \<Longrightarrow> split_char sep w = [w]"
  by (induction w) auto

lemma split_char_append:
  "sep \<notin> set w \<Longrightarrow> split_char sep (w @ sep # cs) = w # split_char sep cs"
  by (induction w) auto

text \<open>Splitting at the separator undoes joining, for words that do not contain it.\<close>

lemma split_join:
  "ws \<noteq> [] \<Longrightarrow> (\<And>w. w \<in> set ws \<Longrightarrow> sep \<notin> set w) \<Longrightarrow> split_char sep (join_str [sep] ws) = ws"
proof (induction ws)
  case (Cons w ws)
  then show ?case
    by (cases ws) (auto simp: split_char_no_sep split_char_append)
qed simp

section \<open>Python's int() on strings\<close>

text \<open>
  Surrounding white space is ignored, a sign is allowed, and single underscores may stand
  between digits. \<open>None\<close> is a \<^verbatim>\<open>ValueError\<close>.
\<close>

definition is_space_char :: "char \<Rightarrow> bool" where
  "is_space_char c \<longleftrightarrow> (let n = (of_char c :: nat) in (9 \<le> n \<and> n \<le> 13) \<or> (28 \<le> n \<and> n \<le> 32) \<or> n = 133 \<or> n = 160)"

definition strip_space :: "string \<Rightarrow> string" where
  "strip_space cs = rev (dropWhile is_space_char (rev (dropWhile is_space_char cs)))"

fun digits_ok :: "string \<Rightarrow> bool" where
  "digits_ok [] = False"
| "digits_ok [c] = is_digit_char c"
| "digits_ok (c # d # cs) = (is_digit_char c \<and> (if d = CHR ''_'' then digits_ok cs else digits_ok (d # cs)))"

definition py_nat :: "string \<Rightarrow> int option" where
  "py_nat cs = (if digits_ok cs then Some (int (digits_value (filter (\<lambda>c. c \<noteq> CHR ''_'') cs))) else None)"

definition py_int :: "string \<Rightarrow> int option" where
  "py_int cs =
     (case strip_space cs of
        [] \<Rightarrow> None
      | c # ds \<Rightarrow>
          if c = CHR ''-'' then map_option uminus (py_nat ds)
          else if c = CHR ''+'' then py_nat ds
          else py_nat (c # ds))"

lemma digit_not_space [simp]: "is_digit_char c \<Longrightarrow> \<not> is_space_char c"
  by (auto simp: is_digit_char_def is_space_char_def Let_def)

lemma digit_not_underscore: "is_digit_char c \<Longrightarrow> c \<noteq> CHR ''_''"
  by (auto simp: is_digit_char_def)

lemma digits_ok_digits: "cs \<noteq> [] \<Longrightarrow> (\<And>c. c \<in> set cs \<Longrightarrow> is_digit_char c) \<Longrightarrow> digits_ok cs"
  by (induction cs rule: digits_ok.induct) (auto dest: digit_not_underscore)

lemma py_nat_nat_str [simp]: "py_nat (nat_str n) = Some (int n)"
proof -
  have "filter (\<lambda>c. c \<noteq> CHR ''_'') (nat_str n) = nat_str n"
    using nat_str_digits digit_not_underscore by (intro filter_True) blast
  then show ?thesis by (simp add: py_nat_def digits_ok_digits nat_str_digits)
qed

lemma strip_space_id:
  assumes "cs \<noteq> []" "\<not> is_space_char (hd cs)" "\<not> is_space_char (last cs)"
  shows "strip_space cs = cs"
proof -
  have "dropWhile is_space_char cs = cs" using assms(1,2) by (cases cs) auto
  moreover have "dropWhile is_space_char (rev cs) = rev cs" using assms(1,3) by (cases cs rule: rev_cases) auto
  ultimately show ?thesis by (simp add: strip_space_def)
qed

lemma strip_space_lead: "is_space_char c \<Longrightarrow> strip_space (c # cs) = strip_space cs"
  by (simp add: strip_space_def)

lemma py_int_space [simp]: "py_int (CHR '' '' # cs) = py_int cs"
  by (simp add: py_int_def strip_space_lead is_space_char_def)

lemma py_int_nat_str [simp]: "py_int (nat_str n) = Some (int n)"
proof -
  have d: "\<And>c. c \<in> set (nat_str n) \<Longrightarrow> is_digit_char c" by (rule nat_str_digits)
  then have "strip_space (nat_str n) = nat_str n"
    by (intro strip_space_id) (auto simp: digit_not_space)
  moreover obtain c ds where cs: "nat_str n = c # ds" using nat_str_nonempty [of n] by (cases "nat_str n") auto
  moreover have "c \<noteq> CHR ''-''" "c \<noteq> CHR ''+''" using d [of c] cs by (auto simp: is_digit_char_def)
  moreover have "py_nat (c # ds) = Some (int n)" using py_nat_nat_str [of n] cs by simp
  ultimately show ?thesis by (simp add: py_int_def)
qed

section \<open>Contracts\<close>

text \<open>
  A component whose operations may raise: \<open>exec o s\<close> is the state after the operation
  \<open>o\<close>. The only law is that a successful operation keeps the invariant; a run of
  operations in which every failing one is skipped (the caller catches the error) keeps it
  too.
\<close>

fun run_ops :: "('o \<Rightarrow> 's \<Rightarrow> 's res) \<Rightarrow> 'o list \<Rightarrow> 's \<Rightarrow> 's" where
  "run_ops exec [] s = s"
| "run_ops exec (x # xs) s = run_ops exec xs (case exec x s of Inl e \<Rightarrow> s | Inr s' \<Rightarrow> s')"

locale guarded_ops =
  fixes exec :: "'o \<Rightarrow> 's \<Rightarrow> 's res"
    and inv :: "'s \<Rightarrow> bool"
  assumes exec_inv: "inv s \<Longrightarrow> exec opr s = Inr s' \<Longrightarrow> inv s'"
begin

lemma run_ops_inv: "inv s \<Longrightarrow> inv (run_ops exec os s)"
  by (induction os arbitrary: s) (auto split: sum.splits intro: exec_inv)

end

text \<open>A transition relation with an inductive invariant.\<close>

locale inductive_invariant =
  fixes init :: "'s \<Rightarrow> bool"
    and step :: "'s \<Rightarrow> 's \<Rightarrow> bool"
    and inv :: "'s \<Rightarrow> bool"
  assumes inv_init: "init s \<Longrightarrow> inv s"
    and inv_step: "inv s \<Longrightarrow> step s t \<Longrightarrow> inv t"
begin

lemma inv_steps: "step\<^sup>*\<^sup>* s t \<Longrightarrow> inv s \<Longrightarrow> inv t"
  by (induction rule: rtranclp_induct) (auto intro: inv_step)

lemma inv_reachable: "init s \<Longrightarrow> step\<^sup>*\<^sup>* s t \<Longrightarrow> inv t"
  by (rule inv_steps) (auto intro: inv_init)

end

end
