(* ===== verification/Job_Data.thy ===== *)
theory Job_Data
  imports Complex_Main Ganeti_Prelude
begin

text \<open>
  The job queue's data (\<^verbatim>\<open>lib/jqueue/__init__.py\<close>): queued opcodes and jobs, the
  dictionaries they are stored as, the job status computed from the opcodes' statuses, and
  the operations that change a job: marking, cancelling, changing priorities, setting the
  process id. \<^verbatim>\<open>lib/opcodes_base.py\<close> supplies the names in the reason trail.

  Opcode classes are generated by the build, so an opcode is the typed view that the queue
  has of a validated one, and its dictionary form is reached through two parameters
  \<open>getstate\<close> and \<open>load\<close>. Times are \<^verbatim>\<open>(seconds, microseconds)\<close> pairs and are
  arguments of the operations that read the clock. A failed assertion or a raise is an
  \<open>Inl\<close>; what it leaves of a half-updated object is not tracked.
\<close>

section \<open>Constants\<close>

text \<open>
  Job and opcode statuses are the same strings, and \<^verbatim>\<open>CalcStatus\<close> relies on it, so one
  type serves both.
\<close>

datatype op_status =
    OP_STATUS_QUEUED
  | OP_STATUS_WAITING
  | OP_STATUS_CANCELING
  | OP_STATUS_RUNNING
  | OP_STATUS_CANCELED
  | OP_STATUS_SUCCESS
  | OP_STATUS_ERROR

abbreviation (input) "JOB_STATUS_QUEUED \<equiv> OP_STATUS_QUEUED"
abbreviation (input) "JOB_STATUS_WAITING \<equiv> OP_STATUS_WAITING"
abbreviation (input) "JOB_STATUS_CANCELING \<equiv> OP_STATUS_CANCELING"
abbreviation (input) "JOB_STATUS_RUNNING \<equiv> OP_STATUS_RUNNING"
abbreviation (input) "JOB_STATUS_CANCELED \<equiv> OP_STATUS_CANCELED"
abbreviation (input) "JOB_STATUS_SUCCESS \<equiv> OP_STATUS_SUCCESS"
abbreviation (input) "JOB_STATUS_ERROR \<equiv> OP_STATUS_ERROR"

definition status_text :: "op_status \<Rightarrow> string" where
  "status_text s = (case s of
     OP_STATUS_QUEUED \<Rightarrow> ''queued'' | OP_STATUS_WAITING \<Rightarrow> ''waiting''
   | OP_STATUS_CANCELING \<Rightarrow> ''canceling'' | OP_STATUS_RUNNING \<Rightarrow> ''running''
   | OP_STATUS_CANCELED \<Rightarrow> ''canceled'' | OP_STATUS_SUCCESS \<Rightarrow> ''success''
   | OP_STATUS_ERROR \<Rightarrow> ''error'')"

definition OPS_FINALIZED :: "op_status set" where
  "OPS_FINALIZED = {OP_STATUS_CANCELED, OP_STATUS_SUCCESS, OP_STATUS_ERROR}"

definition JOBS_FINALIZED :: "op_status set" where
  "JOBS_FINALIZED = {JOB_STATUS_CANCELED, JOB_STATUS_SUCCESS, JOB_STATUS_ERROR}"

lemmas finalized_defs = OPS_FINALIZED_def JOBS_FINALIZED_def

definition OP_PRIO_LOWEST :: int where "OP_PRIO_LOWEST = 19"
definition OP_PRIO_HIGHEST :: int where "OP_PRIO_HIGHEST = -20"
definition OP_PRIO_DEFAULT :: int where "OP_PRIO_DEFAULT = 0"

definition OP_PRIO_SUBMIT_VALID :: "int set" where
  "OP_PRIO_SUBMIT_VALID = {10, 0, -10}"

lemmas prio_defs = OP_PRIO_LOWEST_def OP_PRIO_HIGHEST_def OP_PRIO_DEFAULT_def
  OP_PRIO_SUBMIT_VALID_def

definition ELOG_MESSAGE :: json where "ELOG_MESSAGE = JStr ''message''"
definition ELOG_MESSAGE_LIST :: json where "ELOG_MESSAGE_LIST = JStr ''message-list''"

section \<open>Opcode names\<close>

text \<open>\<^verbatim>\<open>re.sub("([a-z])([A-Z])", r"\1,\2", name)\<close>\<close>

fun opid_sub :: "string \<Rightarrow> string" where
  "opid_sub (a # b # cs) =
     (if is_lower a \<and> is_upper b then a # CHR '','' # b # opid_sub cs
      else a # opid_sub (b # cs))"
| "opid_sub cs = cs"

definition NameComponents :: "string \<Rightarrow> string list res" where
  "NameComponents name =
     res_bind (check (take 2 name = ''Op'') AssertionError)
       (\<lambda>_. Inr (split_char (CHR '','') (opid_sub name)))"

definition NameToId :: "string \<Rightarrow> string option res" where
  "NameToId name =
     (if take 2 name \<noteq> ''Op'' then Inr None
      else res_bind (NameComponents name) (\<lambda>ws. Inr (Some (join_str ''_'' (map (map to_upper) ws)))))"

definition NameToReasonSrc :: "string \<Rightarrow> string \<Rightarrow> string option res" where
  "NameToReasonSrc name prefix =
     (if take 2 name \<noteq> ''Op'' then Inr None
      else res_bind (NameComponents name)
        (\<lambda>ws. Inr (Some (prefix @ '':'' @ join_str ''_'' (map (map to_lower) ws)))))"

section \<open>Queued opcodes\<close>

type_synonym timestamp = "int \<times> int"
type_synonym job_dep = "int \<times> op_status list"
type_synonym reason = "string option \<times> string \<times> int"

record opcode =
  op_class :: string
  op_priority :: "int option"
  op_depends :: "job_dep list option"
  op_reason :: "reason list option"
  op_params :: "(string \<times> json) list"

type_synonym log_entry = "int \<times> timestamp \<times> json \<times> json"

record queued_op =
  qo_input :: opcode
  qo_status :: op_status
  qo_result :: json
  qo_log :: "log_entry list"
  qo_priority :: int
  qo_start_timestamp :: "timestamp option"
  qo_exec_timestamp :: "timestamp option"
  qo_end_timestamp :: "timestamp option"

definition QueuedOpCode :: "opcode \<Rightarrow> queued_op" where
  "QueuedOpCode op =
     \<lparr>qo_input = op, qo_status = OP_STATUS_QUEUED, qo_result = JNull, qo_log = [],
      qo_priority = (case op_priority op of None \<Rightarrow> OP_PRIO_DEFAULT | Some p \<Rightarrow> p),
      qo_start_timestamp = None, qo_exec_timestamp = None, qo_end_timestamp = None\<rparr>"

text \<open>
  The dictionary an opcode is stored as. A key read with \<^verbatim>\<open>state[k]\<close> may be missing
  (\<open>None\<close>); a key read with \<^verbatim>\<open>state.get(k, None)\<close> is \<open>None\<close> when missing or null.
\<close>

record op_state =
  os_input :: "json option"
  os_status :: "op_status option"
  os_result :: "json option"
  os_log :: "log_entry list option"
  os_start_timestamp :: "timestamp option"
  os_exec_timestamp :: "timestamp option"
  os_end_timestamp :: "timestamp option"
  os_priority :: "int option"

definition key :: "'a option \<Rightarrow> 'a res" where
  "key x = (case x of None \<Rightarrow> Inl KeyError | Some v \<Rightarrow> Inr v)"

lemma key_simps [simp]: "key (Some v) = Inr v" "key None = Inl KeyError"
  by (simp_all add: key_def)

definition QueuedOpCode_Restore :: "(json \<Rightarrow> opcode res) \<Rightarrow> op_state \<Rightarrow> queued_op res" where
  "QueuedOpCode_Restore load state =
     res_bind (res_bind (key (os_input state)) load) (\<lambda>inp.
     res_bind (key (os_status state)) (\<lambda>st.
     res_bind (key (os_result state)) (\<lambda>r.
     res_bind (key (os_log state)) (\<lambda>lg.
       Inr \<lparr>qo_input = inp, qo_status = st, qo_result = r, qo_log = lg,
            qo_priority = (case os_priority state of None \<Rightarrow> OP_PRIO_DEFAULT | Some p \<Rightarrow> p),
            qo_start_timestamp = os_start_timestamp state,
            qo_exec_timestamp = os_exec_timestamp state,
            qo_end_timestamp = os_end_timestamp state\<rparr>))))"

definition QueuedOpCode_Serialize :: "(opcode \<Rightarrow> json) \<Rightarrow> queued_op \<Rightarrow> op_state" where
  "QueuedOpCode_Serialize getstate op =
     \<lparr>os_input = Some (getstate (qo_input op)), os_status = Some (qo_status op),
      os_result = Some (qo_result op), os_log = Some (qo_log op),
      os_start_timestamp = qo_start_timestamp op, os_exec_timestamp = qo_exec_timestamp op,
      os_end_timestamp = qo_end_timestamp op, os_priority = Some (qo_priority op)\<rparr>"

section \<open>Execution contexts\<close>

text \<open>
  \<^verbatim>\<open>_TimeoutStrategyWrapper\<close> around the \<^verbatim>\<open>NextAttempt\<close> method of a timeout strategy: the
  strategy yields the timeouts of \<open>tw_fn\<close> in order and then \<^verbatim>\<open>None\<close> (blocking acquire).
  \<open>tw_next\<close> is the value fetched ahead; a fetched \<^verbatim>\<open>None\<close> is fetched again.
\<close>

type_synonym timeout = rat

record timeout_wrapper =
  tw_fn :: "timeout list"
  tw_next :: "timeout option"

definition tw_init :: "timeout list \<Rightarrow> timeout_wrapper" where
  "tw_init ts = \<lparr>tw_fn = ts, tw_next = None\<rparr>"

definition tw_Advance :: "timeout_wrapper \<Rightarrow> timeout_wrapper" where
  "tw_Advance w = (case tw_next w of
     Some t \<Rightarrow> w
   | None \<Rightarrow> (case tw_fn w of [] \<Rightarrow> w | t # ts \<Rightarrow> w\<lparr>tw_next := Some t, tw_fn := ts\<rparr>))"

definition tw_Peek :: "timeout_wrapper \<Rightarrow> timeout option \<times> timeout_wrapper" where
  "tw_Peek w = (let w' = tw_Advance w in (tw_next w', w'))"

definition tw_Next :: "timeout_wrapper \<Rightarrow> timeout option \<times> timeout_wrapper" where
  "tw_Next w = (let w' = tw_Advance w in (tw_next w', w'\<lparr>tw_next := None\<rparr>))"

text \<open>
  \<^verbatim>\<open>_OpExecContext\<close>: the opcode is \<open>job.ops[index]\<close>, so the context holds the index.
\<close>

record opctx =
  ctx_index :: nat
  ctx_jobdeps :: "job_dep list option"
  ctx_strategy :: timeout_wrapper

definition OpExecContext :: "queued_op \<Rightarrow> nat \<Rightarrow> timeout list \<Rightarrow> opctx" where
  "OpExecContext op idx strategy =
     \<lparr>ctx_index = idx,
      ctx_jobdeps = (case op_depends (qo_input op) of
         None \<Rightarrow> None | Some [] \<Rightarrow> None | Some deps \<Rightarrow> Some deps),
      ctx_strategy = tw_init strategy\<rparr>"

definition GetNextLockTimeout :: "opctx \<Rightarrow> timeout option \<times> opctx" where
  "GetNextLockTimeout c =
     (let (t, w) = tw_Next (ctx_strategy c) in (t, c\<lparr>ctx_strategy := w\<rparr>))"

text \<open>The context and the opcode it refers to are both updated.\<close>

definition CheckPriorityIncrease ::
  "timeout list \<Rightarrow> opctx \<Rightarrow> queued_op \<Rightarrow> bool \<times> opctx \<times> queued_op" where
  "CheckPriorityIncrease fresh c op =
     (let (t, w) = tw_Peek (ctx_strategy c) in
      if t = None \<and> qo_priority op > OP_PRIO_HIGHEST
      then (True, c\<lparr>ctx_strategy := tw_init fresh\<rparr>, op\<lparr>qo_priority := qo_priority op - 1\<rparr>)
      else (False, c\<lparr>ctx_strategy := w\<rparr>, op))"

section \<open>Jobs\<close>

record queued_job =
  qj_id :: int
  qj_ops :: "queued_op list"
  qj_log_serial :: int
  qj_ops_iter :: "nat option"
  qj_cur_opctx :: "opctx option"
  qj_received_timestamp :: "timestamp option"
  qj_start_timestamp :: "timestamp option"
  qj_end_timestamp :: "timestamp option"
  qj_writable :: bool
  qj_archived :: bool
  qj_livelock :: "string option"
  qj_process_id :: "int option"

definition add_reason :: "bool \<Rightarrow> int \<Rightarrow> int \<Rightarrow> nat \<Rightarrow> queued_op \<Rightarrow> queued_op res" where
  "add_reason pickup job_id nano count q =
     (let op = qo_input q;
          prefix = (if pickup then ''gnt:daemon:masterd:pickup'' else ''gnt:opcode'') in
      res_bind (NameToReasonSrc (op_class op) prefix) (\<lambda>src.
        (let text = ''job='' @ int_str job_id @ '';index='' @ int_str (int count);
             old = (case op_reason op of None \<Rightarrow> [] | Some rs \<Rightarrow> rs) in
         Inr (q\<lparr>qo_input := op\<lparr>op_reason := Some (old @ [(src, text, nano)])\<rparr>\<rparr>))))"

fun add_reasons :: "bool \<Rightarrow> int \<Rightarrow> int \<Rightarrow> nat \<Rightarrow> queued_op list \<Rightarrow> queued_op list res" where
  "add_reasons pickup job_id nano count [] = Inr []"
| "add_reasons pickup job_id nano count (q # qs) =
     res_bind (add_reason pickup job_id nano count q) (\<lambda>q'.
     res_bind (add_reasons pickup job_id nano (Suc count) qs) (\<lambda>qs'. Inr (q' # qs')))"

definition AddReasons :: "bool \<Rightarrow> int \<Rightarrow> queued_job \<Rightarrow> queued_job res" where
  "AddReasons pickup nano job =
     res_bind (add_reasons pickup (qj_id job) nano 0 (qj_ops job)) (\<lambda>ops.
       Inr (job\<lparr>qj_ops := ops\<rparr>))"

definition InitInMemory :: "bool \<Rightarrow> queued_job \<Rightarrow> queued_job" where
  "InitInMemory writable job =
     job\<lparr>qj_writable := writable, qj_ops_iter := None, qj_cur_opctx := None\<rparr>"

definition QueuedJob :: "timestamp \<Rightarrow> int \<Rightarrow> int \<Rightarrow> opcode list \<Rightarrow> bool \<Rightarrow> queued_job res" where
  "QueuedJob now nano job_id ops writable =
     (if ops = [] then Inl (GenericError ''A job needs at least one opcode'')
      else res_bind
        (AddReasons False nano
          \<lparr>qj_id = job_id, qj_ops = map QueuedOpCode ops, qj_log_serial = 0,
           qj_ops_iter = None, qj_cur_opctx = None, qj_received_timestamp = Some now,
           qj_start_timestamp = None, qj_end_timestamp = None, qj_writable = writable,
           qj_archived = False, qj_livelock = None, qj_process_id = None\<rparr>)
        (\<lambda>job. Inr (InitInMemory writable job)))"

record job_state =
  js_id :: "int option"
  js_ops :: "op_state list option"
  js_start_timestamp :: "timestamp option"
  js_end_timestamp :: "timestamp option"
  js_received_timestamp :: "timestamp option"
  js_livelock :: "string option"
  js_process_id :: "int option"

fun restore_ops ::
  "(json \<Rightarrow> opcode res) \<Rightarrow> int \<Rightarrow> op_state list \<Rightarrow> (int \<times> queued_op list) res" where
  "restore_ops load serial [] = Inr (serial, [])"
| "restore_ops load serial (s # ss) =
     res_bind (QueuedOpCode_Restore load s) (\<lambda>op.
     res_bind (restore_ops load (foldl (\<lambda>m e. max m (fst e)) serial (qo_log op)) ss)
       (\<lambda>(serial', ops). Inr (serial', op # ops)))"

definition QueuedJob_Restore ::
  "(json \<Rightarrow> opcode res) \<Rightarrow> job_state \<Rightarrow> bool \<Rightarrow> bool \<Rightarrow> queued_job res" where
  "QueuedJob_Restore load state writable archived =
     res_bind (key (js_id state)) (\<lambda>i.
     res_bind (key (js_ops state)) (\<lambda>ss.
     res_bind (restore_ops load 0 ss) (\<lambda>(serial, ops).
       Inr (InitInMemory writable
         \<lparr>qj_id = i, qj_ops = ops, qj_log_serial = serial, qj_ops_iter = None,
          qj_cur_opctx = None, qj_received_timestamp = js_received_timestamp state,
          qj_start_timestamp = js_start_timestamp state,
          qj_end_timestamp = js_end_timestamp state, qj_writable = writable,
          qj_archived = archived, qj_livelock = js_livelock state,
          qj_process_id = js_process_id state\<rparr>))))"

definition QueuedJob_Serialize :: "(opcode \<Rightarrow> json) \<Rightarrow> queued_job \<Rightarrow> job_state" where
  "QueuedJob_Serialize getstate job =
     \<lparr>js_id = Some (qj_id job), js_ops = Some (map (QueuedOpCode_Serialize getstate) (qj_ops job)),
      js_start_timestamp = qj_start_timestamp job, js_end_timestamp = qj_end_timestamp job,
      js_received_timestamp = qj_received_timestamp job, js_livelock = qj_livelock job,
      js_process_id = qj_process_id job\<rparr>"

section \<open>Job status\<close>

text \<open>
  The loop of \<^verbatim>\<open>CalcStatus\<close>; the result is the pair of the local variables
  \<^verbatim>\<open>status\<close> and \<^verbatim>\<open>all_success\<close> when the loop ends or breaks.
\<close>

fun calc_status_loop :: "op_status list \<Rightarrow> op_status \<Rightarrow> bool \<Rightarrow> op_status \<times> bool" where
  "calc_status_loop [] status all_success = (status, all_success)"
| "calc_status_loop (s # ss) status all_success = (case s of
     OP_STATUS_SUCCESS \<Rightarrow> calc_status_loop ss status all_success
   | OP_STATUS_QUEUED \<Rightarrow> calc_status_loop ss status False
   | OP_STATUS_WAITING \<Rightarrow> calc_status_loop ss JOB_STATUS_WAITING False
   | OP_STATUS_RUNNING \<Rightarrow> calc_status_loop ss JOB_STATUS_RUNNING False
   | OP_STATUS_CANCELING \<Rightarrow> (JOB_STATUS_CANCELING, False)
   | OP_STATUS_ERROR \<Rightarrow> (JOB_STATUS_ERROR, False)
   | OP_STATUS_CANCELED \<Rightarrow> (OP_STATUS_CANCELED, False))"

definition statuses_status :: "op_status list \<Rightarrow> op_status" where
  "statuses_status ss =
     (let (status, all_success) = calc_status_loop ss JOB_STATUS_QUEUED True in
      if all_success then JOB_STATUS_SUCCESS else status)"

definition CalcStatus :: "queued_job \<Rightarrow> op_status" where
  "CalcStatus job = statuses_status (map qo_status (qj_ops job))"

definition CalcPriority :: "queued_job \<Rightarrow> int" where
  "CalcPriority job =
     (let priorities = map qo_priority
        (filter (\<lambda>op. qo_status op \<notin> OPS_FINALIZED) (qj_ops job)) in
      case priorities of [] \<Rightarrow> OP_PRIO_DEFAULT | p # ps \<Rightarrow> foldl min p ps)"

definition GetLogEntries :: "queued_job \<Rightarrow> int option \<Rightarrow> log_entry list" where
  "GetLogEntries job newer_than =
     (let serial = (case newer_than of None \<Rightarrow> -1 | Some n \<Rightarrow> n) in
      concat (map (\<lambda>op. filter (\<lambda>e. fst e > serial) (qo_log op)) (qj_ops job)))"

section \<open>Changing a job\<close>

fun mark_unfinished :: "op_status \<Rightarrow> json \<Rightarrow> bool \<Rightarrow> queued_op list \<Rightarrow> queued_op list res" where
  "mark_unfinished status result not_marked [] = Inr []"
| "mark_unfinished status result not_marked (op # ops) =
     (if qo_status op \<in> OPS_FINALIZED then
        res_bind (check not_marked AssertionError) (\<lambda>_.
        res_bind (mark_unfinished status result not_marked ops) (\<lambda>ops'. Inr (op # ops')))
      else
        res_bind (mark_unfinished status result False ops) (\<lambda>ops'.
          Inr (op\<lparr>qo_status := status, qo_result := result\<rparr> # ops')))"

definition MarkUnfinishedOps :: "op_status \<Rightarrow> json \<Rightarrow> queued_job \<Rightarrow> queued_job res" where
  "MarkUnfinishedOps status result job =
     res_bind (mark_unfinished status result True (qj_ops job)) (\<lambda>ops.
       Inr (job\<lparr>qj_ops := ops\<rparr>))"

definition Finalize :: "timestamp \<Rightarrow> queued_job \<Rightarrow> queued_job" where
  "Finalize now job = job\<lparr>qj_end_timestamp := Some now\<rparr>"

definition job_msg :: "queued_job \<Rightarrow> string \<Rightarrow> string" where
  "job_msg job what = ''Job '' @ int_str (qj_id job) @ what"

definition Cancel :: "timestamp \<Rightarrow> queued_job \<Rightarrow> ((bool \<times> string) \<times> queued_job) res" where
  "Cancel now job = (case CalcStatus job of
     OP_STATUS_QUEUED \<Rightarrow>
       res_bind (MarkUnfinishedOps OP_STATUS_CANCELED (JStr ''Job canceled by request'') job)
         (\<lambda>job'. Inr ((True, job_msg job '' canceled''), Finalize now job'))
   | OP_STATUS_WAITING \<Rightarrow>
       res_bind (MarkUnfinishedOps OP_STATUS_CANCELING JNull job)
         (\<lambda>job'. Inr ((True, job_msg job '' will be canceled''), job'))
   | _ \<Rightarrow> Inr ((False, job_msg job '' is no longer waiting in the queue''), job))"

fun change_prio_loop :: "int \<Rightarrow> bool \<Rightarrow> queued_op list \<Rightarrow> (bool \<times> queued_op list) res" where
  "change_prio_loop prio changed [] = Inr (changed, [])"
| "change_prio_loop prio changed (op # ops) =
     (if qo_status op = OP_STATUS_RUNNING \<or> qo_status op \<in> OPS_FINALIZED then
        res_bind (check (\<not> changed) AssertionError) (\<lambda>_.
        res_bind (change_prio_loop prio changed ops) (\<lambda>(c, ops'). Inr (c, op # ops')))
      else
        res_bind (check (qo_status op \<in> {OP_STATUS_QUEUED, OP_STATUS_WAITING}) AssertionError) (\<lambda>_.
        res_bind (change_prio_loop prio True ops) (\<lambda>(c, ops').
          Inr (c, op\<lparr>qo_priority := prio\<rparr> # ops'))))"

definition ChangePriority :: "int \<Rightarrow> queued_job \<Rightarrow> ((bool \<times> string) \<times> queued_job) res" where
  "ChangePriority prio job =
     (let status = CalcStatus job in
      if status \<in> JOBS_FINALIZED then Inr ((False, job_msg job '' is finished''), job)
      else if status = JOB_STATUS_CANCELING then Inr ((False, job_msg job '' is cancelling''), job)
      else
        res_bind (check (status \<in> {JOB_STATUS_QUEUED, JOB_STATUS_WAITING, JOB_STATUS_RUNNING})
          AssertionError) (\<lambda>_.
        res_bind (change_prio_loop prio False (qj_ops job)) (\<lambda>(changed, ops).
          Inr (if changed
               then (True, ''Priorities of pending opcodes for job '' @ int_str (qj_id job)
                       @ '' have been changed to '' @ int_str prio)
               else (False, job_msg job '' had no pending opcodes''),
               job\<lparr>qj_ops := ops\<rparr>))))"

definition SetPid :: "int \<Rightarrow> queued_job \<Rightarrow> queued_job" where
  "SetPid pid job =
     (if CalcStatus job \<in> {JOB_STATUS_QUEUED, JOB_STATUS_WAITING}
      then job\<lparr>qj_process_id := Some pid\<rparr> else job)"

section \<open>Shapes of a job\<close>

definition tail_of :: "op_status \<Rightarrow> nat \<Rightarrow> op_status list" where
  "tail_of s m =
     (if s = OP_STATUS_WAITING \<or> s = OP_STATUS_RUNNING then s # replicate m OP_STATUS_QUEUED
      else if s = OP_STATUS_SUCCESS then [] else replicate (Suc m) s)"

definition done_count :: "op_status list \<Rightarrow> nat" where
  "done_count ss = length (takeWhile (\<lambda>s. s = OP_STATUS_SUCCESS) ss)"

definition ops_shape :: "op_status list \<Rightarrow> bool" where
  "ops_shape ss \<longleftrightarrow>
     ss = replicate (done_count ss) OP_STATUS_SUCCESS
            @ tail_of (statuses_status ss) (length ss - done_count ss - 1)"

lemma calc_status_loop_skip [simp]:
  "calc_status_loop (replicate n OP_STATUS_SUCCESS @ ss) st b = calc_status_loop ss st b"
  by (induction n) simp_all

lemma calc_status_loop_done [simp]:
  "calc_status_loop (replicate n OP_STATUS_SUCCESS) st b = (st, b)"
  by (induction n) simp_all

lemma calc_status_loop_queued [simp]:
  "calc_status_loop (replicate n OP_STATUS_QUEUED) st b = (st, b \<and> n = 0)"
  by (induction n arbitrary: b) auto

lemma statuses_status_shape [simp]:
  "statuses_status (replicate n OP_STATUS_SUCCESS @ tail_of s m) = s"
  by (cases s) (simp_all add: statuses_status_def tail_of_def)

lemma done_count_shape [simp]:
  "done_count (replicate n OP_STATUS_SUCCESS @ tail_of s m) = n"
  by (cases s) (simp_all add: done_count_def tail_of_def takeWhile_append)

lemma length_tail_of: "length (tail_of s m) = (if s = OP_STATUS_SUCCESS then 0 else Suc m)"
  by (simp add: tail_of_def)

lemma tail_of_SUCCESS: "tail_of OP_STATUS_SUCCESS m = []"
  by (simp add: tail_of_def)

lemma ops_shapeI:
  assumes "ss = replicate n OP_STATUS_SUCCESS @ tail_of s m"
  shows "ops_shape ss"
proof (cases "s = OP_STATUS_SUCCESS")
  case True
  with assms have "statuses_status ss = OP_STATUS_SUCCESS" "done_count ss = n"
    by (simp_all only: statuses_status_shape done_count_shape)
  with assms True show ?thesis by (simp only: ops_shape_def tail_of_SUCCESS)
next
  case False
  from assms have "statuses_status ss = s" "done_count ss = n"
    by (simp_all only: statuses_status_shape done_count_shape)
  moreover from assms False have "length ss - n - 1 = m" by (simp add: length_tail_of)
  ultimately show ?thesis using assms by (simp only: ops_shape_def)
qed

lemma ops_shapeE [elim?]:
  assumes "ops_shape ss"
  obtains n m where "ss = replicate n OP_STATUS_SUCCESS @ tail_of (statuses_status ss) m"
    and "n = done_count ss"
  using assms unfolding ops_shape_def by blast

definition first_stop :: "op_status list \<Rightarrow> op_status option" where
  "first_stop ss = List.find (\<lambda>s. s \<in> {OP_STATUS_CANCELING, OP_STATUS_ERROR, OP_STATUS_CANCELED}) ss"

definition status_spec :: "op_status list \<Rightarrow> op_status" where
  "status_spec ss =
     (case first_stop ss of
        Some s \<Rightarrow> s
      | None \<Rightarrow>
         (let active = filter (\<lambda>s. s = OP_STATUS_WAITING \<or> s = OP_STATUS_RUNNING) ss in
          if active \<noteq> [] then last active
          else if list_all (\<lambda>s. s = OP_STATUS_SUCCESS) ss then OP_STATUS_SUCCESS
          else OP_STATUS_QUEUED))"

lemma calc_status_loop_spec:
  "calc_status_loop ss st b =
     (case first_stop ss of
        Some s \<Rightarrow> (s, False)
      | None \<Rightarrow>
         (let active = filter (\<lambda>s. s = OP_STATUS_WAITING \<or> s = OP_STATUS_RUNNING) ss in
          (if active \<noteq> [] then last active else st,
           b \<and> list_all (\<lambda>s. s = OP_STATUS_SUCCESS) ss)))"
  by (induction ss st b rule: calc_status_loop.induct)
    (auto simp: first_stop_def Let_def split: op_status.splits option.splits)

lemma list_all_SUCCESS_no_active:
  "list_all (\<lambda>s. s = OP_STATUS_SUCCESS) ss \<Longrightarrow>
   first_stop ss = None \<and> filter (\<lambda>s. s = OP_STATUS_WAITING \<or> s = OP_STATUS_RUNNING) ss = []"
  by (induction ss) (auto simp: first_stop_def)

lemma statuses_status_eq_spec: "statuses_status ss = status_spec ss"
  using list_all_SUCCESS_no_active [of ss]
  by (auto simp: statuses_status_def status_spec_def calc_status_loop_spec Let_def
      split: option.splits)

lemma mark_unfinished_False:
  "mark_unfinished st r False ops =
     (if list_all (\<lambda>op. qo_status op \<notin> OPS_FINALIZED) ops
      then Inr (map (\<lambda>op. op\<lparr>qo_status := st, qo_result := r\<rparr>) ops) else Inl AssertionError)"
  by (induction ops) auto

lemma mark_unfinished_True:
  "mark_unfinished st r True ops =
     (let xs = takeWhile (\<lambda>op. qo_status op \<in> OPS_FINALIZED) ops;
          ys = dropWhile (\<lambda>op. qo_status op \<in> OPS_FINALIZED) ops in
      if list_all (\<lambda>op. qo_status op \<notin> OPS_FINALIZED) ys
      then Inr (xs @ map (\<lambda>op. op\<lparr>qo_status := st, qo_result := r\<rparr>) ys) else Inl AssertionError)"
  by (induction ops) (auto simp: mark_unfinished_False Let_def)


definition statuses :: "queued_job \<Rightarrow> op_status list" where
  "statuses job = map qo_status (qj_ops job)"

lemma CalcStatus_statuses: "CalcStatus job = statuses_status (statuses job)"
  by (simp add: CalcStatus_def statuses_def)

lemma statuses_update [simp]: "statuses (job\<lparr>qj_ops := ops\<rparr>) = map qo_status ops"
  by (simp add: statuses_def)

lemma takeWhile_finalized:
  "s \<notin> OPS_FINALIZED \<Longrightarrow>
   takeWhile (\<lambda>s. s \<in> OPS_FINALIZED) (replicate n OP_STATUS_SUCCESS @ tail_of s m)
     = replicate n OP_STATUS_SUCCESS"
  by (cases s) (simp_all add: tail_of_def finalized_defs takeWhile_append)

lemma tail_of_unfinished: "s \<notin> OPS_FINALIZED \<Longrightarrow> set (tail_of s m) \<inter> OPS_FINALIZED = {}"
  by (cases s) (auto simp: tail_of_def finalized_defs)

lemma mark_unfinished_shape:
  assumes sh: "map qo_status ops = replicate n OP_STATUS_SUCCESS @ tail_of s m"
    and s: "s \<notin> OPS_FINALIZED"
  shows "mark_unfinished st r True ops =
     Inr (take n ops @ map (\<lambda>op. op\<lparr>qo_status := st, qo_result := r\<rparr>) (drop n ops))"
proof -
  let ?P = "\<lambda>op. qo_status op \<in> OPS_FINALIZED"
  have "length (takeWhile ?P ops) = length (takeWhile (\<lambda>s. s \<in> OPS_FINALIZED) (map qo_status ops))"
    by (simp add: takeWhile_map comp_def)
  also have "\<dots> = n" by (simp add: sh takeWhile_finalized s)
  finally have len: "length (takeWhile ?P ops) = n" .
  have tw: "takeWhile ?P ops = take n ops" using len by (metis takeWhile_eq_take)
  have dw: "dropWhile ?P ops = drop n ops" using len by (metis dropWhile_eq_drop)
  have "map qo_status (drop n ops) = tail_of s m"
    using sh by (simp flip: drop_map)
  then have "list_all (\<lambda>op. qo_status op \<notin> OPS_FINALIZED) (drop n ops)"
    using tail_of_unfinished [OF s] by (auto simp: list_all_iff) (metis disjoint_iff image_eqI set_map)
  then show ?thesis by (simp add: mark_unfinished_True tw dw)
qed

lemma statuses_marked:
  assumes "map qo_status ops = replicate n OP_STATUS_SUCCESS @ tail_of s m"
    and "s \<noteq> OP_STATUS_SUCCESS" and "st \<in> {OP_STATUS_CANCELED, OP_STATUS_CANCELING, OP_STATUS_ERROR}"
  shows "map qo_status (take n ops @ map (\<lambda>op. op\<lparr>qo_status := st, qo_result := r\<rparr>) (drop n ops))
      = replicate n OP_STATUS_SUCCESS @ tail_of st m"
proof -
  have "map qo_status (take n ops) = replicate n OP_STATUS_SUCCESS"
    using assms(1) by (simp flip: take_map)
  moreover have "length (drop n ops) = Suc m"
    using arg_cong [OF assms(1), of length] assms(2) by (simp add: length_tail_of)
  then have "map (\<lambda>op. qo_status (op\<lparr>qo_status := st, qo_result := r\<rparr>)) (drop n ops) = replicate (Suc m) st"
    by (simp add: map_replicate_const)
  ultimately show ?thesis using assms(3) by (auto simp: tail_of_def comp_def)
qed

text \<open>What marking does to a job of a good shape.\<close>

definition mark_job :: "op_status \<Rightarrow> json \<Rightarrow> queued_job \<Rightarrow> queued_job" where
  "mark_job st r job =
     (let n = done_count (statuses job) in
      job\<lparr>qj_ops := take n (qj_ops job)
            @ map (\<lambda>op. op\<lparr>qo_status := st, qo_result := r\<rparr>) (drop n (qj_ops job))\<rparr>)"

definition mark_target :: "op_status \<Rightarrow> bool" where
  "mark_target st \<longleftrightarrow> st = OP_STATUS_CANCELED \<or> st = OP_STATUS_CANCELING \<or> st = OP_STATUS_ERROR"

lemma MarkUnfinishedOps_shape:
  assumes "ops_shape (statuses job)" and "CalcStatus job \<notin> OPS_FINALIZED" and "mark_target st"
  shows "MarkUnfinishedOps st r job = Inr (mark_job st r job)"
    and "ops_shape (statuses (mark_job st r job))"
    and "CalcStatus (mark_job st r job) = st"
    and "done_count (statuses (mark_job st r job)) = done_count (statuses job)"
proof -
  let ?n = "done_count (statuses job)"
  from assms(1) obtain m where sh: "statuses job = replicate ?n OP_STATUS_SUCCESS @ tail_of (CalcStatus job) m"
    by (metis CalcStatus_statuses ops_shapeE)
  have sh': "map qo_status (qj_ops job) = replicate ?n OP_STATUS_SUCCESS @ tail_of (CalcStatus job) m"
    using sh unfolding statuses_def .
  have ns: "CalcStatus job \<noteq> OP_STATUS_SUCCESS" using assms(2) by (auto simp: finalized_defs)
  show "MarkUnfinishedOps st r job = Inr (mark_job st r job)"
    using mark_unfinished_shape [OF sh' assms(2), of st r]
    by (simp add: MarkUnfinishedOps_def mark_job_def Let_def)
  have 2: "statuses (mark_job st r job) = replicate ?n OP_STATUS_SUCCESS @ tail_of st m"
    using statuses_marked [OF sh' ns, of st r] assms(3)
    by (simp only: mark_job_def Let_def statuses_update mark_target_def insert_iff empty_iff simp_thms)
  show "ops_shape (statuses (mark_job st r job))" using 2 by (rule ops_shapeI)
  show "CalcStatus (mark_job st r job) = st" by (simp only: CalcStatus_statuses 2 statuses_status_shape)
  show "done_count (statuses (mark_job st r job)) = ?n" by (simp only: 2 done_count_shape)
qed

definition cancel_result :: "timestamp \<Rightarrow> queued_job \<Rightarrow> (bool \<times> string) \<times> queued_job" where
  "cancel_result now job =
     (if CalcStatus job = OP_STATUS_QUEUED then
        ((True, job_msg job '' canceled''),
         Finalize now (mark_job OP_STATUS_CANCELED (JStr ''Job canceled by request'') job))
      else if CalcStatus job = OP_STATUS_WAITING then
        ((True, job_msg job '' will be canceled''), mark_job OP_STATUS_CANCELING JNull job)
      else ((False, job_msg job '' is no longer waiting in the queue''), job))"

lemma Cancel_shape: "ops_shape (statuses job) \<Longrightarrow> Cancel now job = Inr (cancel_result now job)"
  using MarkUnfinishedOps_shape(1) [of job]
  by (cases "CalcStatus job")
    (simp_all add: Cancel_def cancel_result_def finalized_defs mark_target_def)

lemma mark_unfinished_nth:
  assumes "mark_unfinished st r b ops = Inr ops'" and "i < length ops"
  shows "qo_status (ops ! i) \<in> OPS_FINALIZED \<Longrightarrow> ops' ! i = ops ! i"
    and "qo_status (ops ! i) \<notin> OPS_FINALIZED \<Longrightarrow> ops' ! i = (ops ! i)\<lparr>qo_status := st, qo_result := r\<rparr>"
  using assms
proof (induction ops arbitrary: i b ops')
  case (Cons op ops)
  {
    case 1
    with Cons.IH(1) show ?case
      by (cases i) (auto simp: res_simps split: if_splits)
  next
    case 2
    with Cons.IH(2) show ?case
      by (cases i) (auto simp: res_simps split: if_splits)
  }
qed simp_all

lemma mark_unfinished_length: "mark_unfinished st r b ops = Inr ops' \<Longrightarrow> length ops' = length ops"
  by (induction ops arbitrary: b ops') (auto simp: res_simps split: if_splits)

section \<open>Priorities\<close>

definition set_pending_prio :: "int \<Rightarrow> queued_op \<Rightarrow> queued_op" where
  "set_pending_prio p op =
     (if qo_status op \<in> {OP_STATUS_QUEUED, OP_STATUS_WAITING} then op\<lparr>qo_priority := p\<rparr> else op)"

lemma change_prio_pending:
  "list_all (\<lambda>op. qo_status op \<in> {OP_STATUS_QUEUED, OP_STATUS_WAITING}) ops \<Longrightarrow>
   change_prio_loop p c ops = Inr (c \<or> ops \<noteq> [], map (set_pending_prio p) ops)"
  by (induction ops arbitrary: c) (auto simp: finalized_defs set_pending_prio_def)

lemma change_prio_skip:
  "list_all (\<lambda>op. qo_status op = OP_STATUS_RUNNING \<or> qo_status op \<in> OPS_FINALIZED) xs \<Longrightarrow>
   change_prio_loop p False (xs @ ys) =
     res_bind (change_prio_loop p False ys) (\<lambda>(c, ys'). Inr (c, map (set_pending_prio p) xs @ ys'))"
  by (induction xs) (auto simp: finalized_defs set_pending_prio_def res_bind_def split: sum.splits)

lemma change_prio_split:
  assumes "list_all (\<lambda>op. qo_status op = OP_STATUS_RUNNING \<or> qo_status op \<in> OPS_FINALIZED) xs"
    and "list_all (\<lambda>op. qo_status op \<in> {OP_STATUS_QUEUED, OP_STATUS_WAITING}) ys"
  shows "change_prio_loop p False (xs @ ys) = Inr (ys \<noteq> [], map (set_pending_prio p) (xs @ ys))"
  using assms by (simp add: change_prio_skip change_prio_pending)

lemma list_all_status:
  "map qo_status ops = ss \<Longrightarrow> list_all P ss \<Longrightarrow> list_all (\<lambda>op. P (qo_status op)) ops"
  by (auto simp: list_all_iff)

lemma change_prio_shape:
  assumes sh: "map qo_status ops = replicate n OP_STATUS_SUCCESS @ tail_of s m"
    and s: "s \<in> {OP_STATUS_QUEUED, OP_STATUS_WAITING, OP_STATUS_RUNNING}"
  shows "\<exists>c. change_prio_loop p False ops = Inr (c, map (set_pending_prio p) ops)
      \<and> (c \<longleftrightarrow> (\<exists>op \<in> set ops. qo_status op \<in> {OP_STATUS_QUEUED, OP_STATUS_WAITING}))"
proof -
  let ?k = "if s = OP_STATUS_RUNNING then Suc n else n"
  have tk: "map qo_status (take ?k ops) = take ?k (replicate n OP_STATUS_SUCCESS @ tail_of s m)"
    using arg_cong [OF sh, of "take ?k"] by (simp only: take_map)
  have dk: "map qo_status (drop ?k ops) = drop ?k (replicate n OP_STATUS_SUCCESS @ tail_of s m)"
    using arg_cong [OF sh, of "drop ?k"] by (simp only: drop_map)
  have 1: "list_all (\<lambda>op. qo_status op = OP_STATUS_RUNNING \<or> qo_status op \<in> OPS_FINALIZED) (take ?k ops)"
    by (rule list_all_status [OF tk]) (use s in \<open>auto simp: tail_of_def finalized_defs list_all_iff\<close>)
  have 2: "list_all (\<lambda>op. qo_status op \<in> {OP_STATUS_QUEUED, OP_STATUS_WAITING}) (drop ?k ops)"
    by (rule list_all_status [OF dk]) (use s in \<open>auto simp: tail_of_def list_all_iff\<close>)
  have 3: "change_prio_loop p False ops = Inr (drop ?k ops \<noteq> [], map (set_pending_prio p) ops)"
    using change_prio_split [OF 1 2, of p] by simp
  have "set ops = set (take ?k ops) \<union> set (drop ?k ops)" by (metis append_take_drop_id set_append)
  moreover have "(drop ?k ops \<noteq> []) \<longleftrightarrow> (\<exists>op \<in> set (drop ?k ops). qo_status op \<in> {OP_STATUS_QUEUED, OP_STATUS_WAITING})"
    using 2 by (cases "drop ?k ops") (auto simp: list_all_iff)
  moreover have "\<not> (\<exists>op \<in> set (take ?k ops). qo_status op \<in> {OP_STATUS_QUEUED, OP_STATUS_WAITING})"
    using 1 unfolding list_all_iff finalized_defs by force
  ultimately show ?thesis using 3 by blast
qed

section \<open>The log\<close>

definition job_log :: "queued_job \<Rightarrow> log_entry list" where
  "job_log job = concat (map qo_log (qj_ops job))"

text \<open>The serials of a job's log are exactly \<open>1..log_serial\<close>, each once.\<close>

definition log_wf :: "queued_job \<Rightarrow> bool" where
  "log_wf job \<longleftrightarrow> distinct (map fst (job_log job)) \<and>
     set (map fst (job_log job)) = {1..qj_log_serial job} \<and> 0 \<le> qj_log_serial job"

lemma foldl_max_fst:
  "foldl (\<lambda>m e. max m (fst e)) s xs = Max (insert s (set (map fst xs)))" for s :: "'a :: linorder"
proof (induction xs arbitrary: s)
  case (Cons x xs)
  have "insert s (set (map fst (x # xs))) = insert s (insert (fst x) (set (map fst xs)))" by simp
  then show ?case using Cons.IH [of "max s (fst x)"]
    by (cases "set (map fst xs) = {}") (auto simp: Max_insert max.assoc)
qed simp

lemma foldl_max_concat:
  "foldl (\<lambda>m e. max m (fst e)) (foldl (\<lambda>m e. max m (fst e)) s xs) ys
     = foldl (\<lambda>m e. max m (fst e)) s (xs @ ys)"
  by simp

lemma QueuedOpCode_Restore_Serialize:
  "load (getstate (qo_input op)) = Inr (qo_input op) \<Longrightarrow>
   QueuedOpCode_Restore load (QueuedOpCode_Serialize getstate op) = Inr op"
  by (simp add: QueuedOpCode_Restore_def QueuedOpCode_Serialize_def)

lemma restore_ops_Serialize:
  "(\<And>op. op \<in> set ops \<Longrightarrow> load (getstate (qo_input op)) = Inr (qo_input op)) \<Longrightarrow>
   restore_ops load s (map (QueuedOpCode_Serialize getstate) ops) =
     Inr (foldl (\<lambda>m e. max m (fst e)) s (concat (map qo_log ops)), ops)"
  by (induction ops arbitrary: s) (simp_all add: QueuedOpCode_Restore_Serialize)

lemma log_serial_max:
  assumes "log_wf job"
  shows "foldl (\<lambda>m e. max m (fst e)) 0 (job_log job) = qj_log_serial job"
proof -
  have "insert 0 {1..qj_log_serial job} = {0..qj_log_serial job}"
    using assms by (auto simp: log_wf_def)
  moreover have "Max {0..qj_log_serial job} = qj_log_serial job"
    using assms by (intro Max_eqI) (auto simp: log_wf_def)
  ultimately show ?thesis using assms by (simp add: foldl_max_fst log_wf_def)
qed

lemma concat_filter_logs:
  "concat (map (\<lambda>op. filter P (qo_log op)) ops) = filter P (concat (map qo_log ops))"
  by (induction ops) auto

lemma GetLogEntries_filter:
  "GetLogEntries job n = filter (\<lambda>e. fst e > (case n of None \<Rightarrow> -1 | Some k \<Rightarrow> k)) (job_log job)"
  by (simp add: GetLogEntries_def job_log_def concat_filter_logs Let_def)

lemma foldl_min: "foldl min (p :: int) ps = Min (set (p # ps))"
proof (induction ps arbitrary: p)
  case (Cons x ps)
  then show ?case by (cases "ps = []") (auto simp: min.assoc)
qed simp

lemma mark_unfinished_map_False:
  "mark_unfinished st r False ops =
     (if list_all (\<lambda>op. qo_status op \<notin> OPS_FINALIZED) ops
      then Inr (map (\<lambda>op. if qo_status op \<in> OPS_FINALIZED then op
                     else op\<lparr>qo_status := st, qo_result := r\<rparr>) ops) else Inl AssertionError)"
  by (induction ops) simp_all

lemma mark_unfinished_map_True:
  "mark_unfinished st r True ops =
     (if list_all (\<lambda>op. qo_status op \<notin> OPS_FINALIZED)
           (dropWhile (\<lambda>op. qo_status op \<in> OPS_FINALIZED) ops)
      then Inr (map (\<lambda>op. if qo_status op \<in> OPS_FINALIZED then op
                     else op\<lparr>qo_status := st, qo_result := r\<rparr>) ops) else Inl AssertionError)"
  by (induction ops) (simp_all add: mark_unfinished_map_False)

lemma MarkUnfinishedOps_nth:
  assumes "MarkUnfinishedOps st r job = Inr job'" and "i < length (qj_ops job)"
    and "qo_status (qj_ops job ! i) \<in> OPS_FINALIZED"
  shows "qj_ops job' ! i = qj_ops job ! i"
proof -
  from assms(1) obtain ops where m: "mark_unfinished st r True (qj_ops job) = Inr ops"
    and j: "job' = job\<lparr>qj_ops := ops\<rparr>"
    by (auto simp: MarkUnfinishedOps_def res_simps)
  show ?thesis using mark_unfinished_nth(1) [OF m assms(2,3)] by (simp add: j)
qed

section \<open>Properties\<close>


text \<open>Marking the unfinished opcodes of a job changes exactly the opcodes that are not
  finalized, and fails its assertion exactly when a finalized opcode follows an unfinished one.\<close>

theorem MarkUnfinishedOps_correct:
  "MarkUnfinishedOps st r job =
     (let fin = (\<lambda>op. qo_status op \<in> OPS_FINALIZED) in
      if list_all (\<lambda>op. \<not> fin op) (dropWhile fin (qj_ops job))
      then Inr (job\<lparr>qj_ops := map (\<lambda>op. if fin op then op
                     else op\<lparr>qo_status := st, qo_result := r\<rparr>) (qj_ops job)\<rparr>)
      else Inl AssertionError)"
  by (simp add: MarkUnfinishedOps_def mark_unfinished_map_True Let_def)


text \<open>On a job whose opcodes have the shape the processor keeps (successes, then the
  opcode in progress, then queued ones; or a common final or cancelling status), Cancel never
  fails: a queued job becomes cancelled and is finalized, a waiting job becomes cancelling, any
  other job is left alone, and finalized opcodes are never touched.\<close>

theorem Cancel_outcome:
  assumes "ops_shape (map qo_status (qj_ops job))"
  shows "\<exists>ok msg job'. Cancel now job = Inr ((ok, msg), job') \<and>
     (ok \<longleftrightarrow> CalcStatus job = OP_STATUS_QUEUED \<or> CalcStatus job = OP_STATUS_WAITING) \<and>
     (CalcStatus job = OP_STATUS_QUEUED \<longrightarrow>
        CalcStatus job' = OP_STATUS_CANCELED \<and> qj_end_timestamp job' = Some now) \<and>
     (CalcStatus job = OP_STATUS_WAITING \<longrightarrow>
        CalcStatus job' = OP_STATUS_CANCELING \<and> qj_end_timestamp job' = qj_end_timestamp job) \<and>
     (\<not> ok \<longrightarrow> job' = job) \<and>
     ops_shape (map qo_status (qj_ops job')) \<and>
     (\<forall>i < length (qj_ops job). qo_status (qj_ops job ! i) \<in> OPS_FINALIZED \<longrightarrow>
        qj_ops job' ! i = qj_ops job ! i)"
proof -
  let ?r = "cancel_result now job"
  have sh: "ops_shape (statuses job)" using assms by (simp add: statuses_def)
  have frame: "qj_ops (mark_job st r job) ! i = qj_ops job ! i"
    if "CalcStatus job \<notin> OPS_FINALIZED" "mark_target st" "i < length (qj_ops job)"
       "qo_status (qj_ops job ! i) \<in> OPS_FINALIZED" for st r i
    using MarkUnfinishedOps_shape(1) [OF sh that(1,2)] that(3,4) by (rule MarkUnfinishedOps_nth)
  note [simp] = Finalize_def finalized_defs mark_target_def
  show ?thesis
  proof (intro exI conjI)
    show "Cancel now job = Inr ((fst (fst ?r), snd (fst ?r)), snd ?r)"
      by (simp add: Cancel_shape [OF sh])
  qed (use MarkUnfinishedOps_shape(2,3) [OF sh] sh frame in
        \<open>auto simp: cancel_result_def mark_job_def Let_def statuses_def CalcStatus_def\<close>)
qed


lemma set_pending_prio_status [simp]: "qo_status (set_pending_prio p op) = qo_status op"
  by (simp add: set_pending_prio_def)

lemma ChangePriority_shape:
  assumes "ops_shape (map qo_status (qj_ops job))"
    and st: "CalcStatus job \<in> {OP_STATUS_QUEUED, OP_STATUS_WAITING, OP_STATUS_RUNNING}"
  obtains c msg where
    "ChangePriority p job = Inr ((c, msg), job\<lparr>qj_ops := map (set_pending_prio p) (qj_ops job)\<rparr>)"
    and "c \<longleftrightarrow> (\<exists>op \<in> set (qj_ops job). qo_status op \<in> {OP_STATUS_QUEUED, OP_STATUS_WAITING})"
proof -
  let ?ss = "map qo_status (qj_ops job)"
  obtain m where "?ss = replicate (done_count ?ss) OP_STATUS_SUCCESS @ tail_of (CalcStatus job) m"
    using assms(1) unfolding CalcStatus_def by (metis ops_shapeE)
  from change_prio_shape [OF this st, of p] obtain c where
    c: "change_prio_loop p False (qj_ops job) = Inr (c, map (set_pending_prio p) (qj_ops job))"
      "c \<longleftrightarrow> (\<exists>op \<in> set (qj_ops job). qo_status op \<in> {OP_STATUS_QUEUED, OP_STATUS_WAITING})"
    by blast
  have "CalcStatus job \<notin> JOBS_FINALIZED" "CalcStatus job \<noteq> OP_STATUS_CANCELING"
    using st by (auto simp: finalized_defs)
  then have "ChangePriority p job =
      Inr ((c, if c then ''Priorities of pending opcodes for job '' @ int_str (qj_id job)
                       @ '' have been changed to '' @ int_str p
               else job_msg job '' had no pending opcodes''),
           job\<lparr>qj_ops := map (set_pending_prio p) (qj_ops job)\<rparr>)"
    using st c(1) by (cases c) (auto simp: ChangePriority_def Let_def)
  then show thesis using c(2) by (rule that)
qed

lemma statuses_set_pending_prio: "map qo_status (map (set_pending_prio p) ops) = map qo_status ops"
  by simp

text \<open>On a job of a good shape ChangePriority never fails an assertion. A finished or
  cancelling job is refused and unchanged; otherwise exactly the queued and waiting opcodes get
  the new priority, no status changes, and the call reports whether there was such an opcode.\<close>

theorem ChangePriority_outcome:
  assumes "ops_shape (map qo_status (qj_ops job))"
  shows "\<exists>ok msg job'. ChangePriority p job = Inr ((ok, msg), job') \<and>
     (if CalcStatus job \<in> JOBS_FINALIZED \<or> CalcStatus job = OP_STATUS_CANCELING
      then \<not> ok \<and> job' = job
      else (ok \<longleftrightarrow> (\<exists>op \<in> set (qj_ops job). qo_status op \<in> {OP_STATUS_QUEUED, OP_STATUS_WAITING})) \<and>
        job' = job\<lparr>qj_ops := map (\<lambda>op. if qo_status op \<in> {OP_STATUS_QUEUED, OP_STATUS_WAITING}
                       then op\<lparr>qo_priority := p\<rparr> else op) (qj_ops job)\<rparr> \<and>
        CalcStatus job' = CalcStatus job)"
proof (cases "CalcStatus job \<in> JOBS_FINALIZED \<or> CalcStatus job = OP_STATUS_CANCELING")
  case True
  then show ?thesis by (auto simp: ChangePriority_def Let_def)
next
  case False
  then have "CalcStatus job \<in> {OP_STATUS_QUEUED, OP_STATUS_WAITING, OP_STATUS_RUNNING}"
    by (cases "CalcStatus job") (auto simp: finalized_defs)
  from ChangePriority_shape [OF assms this, of p] obtain c msg where
    "ChangePriority p job = Inr ((c, msg), job\<lparr>qj_ops := map (set_pending_prio p) (qj_ops job)\<rparr>)"
    "c \<longleftrightarrow> (\<exists>op \<in> set (qj_ops job). qo_status op \<in> {OP_STATUS_QUEUED, OP_STATUS_WAITING})"
    by blast
  moreover have "CalcStatus (job\<lparr>qj_ops := map (set_pending_prio p) (qj_ops job)\<rparr>) = CalcStatus job"
    by (simp add: CalcStatus_def comp_def)
  moreover have "set_pending_prio p = (\<lambda>op. if qo_status op \<in> {OP_STATUS_QUEUED, OP_STATUS_WAITING}
                       then op\<lparr>qo_priority := p\<rparr> else op)"
    by (rule ext) (simp add: set_pending_prio_def)
  ultimately show ?thesis using False by auto
qed

text \<open>C16: a job written to its file and read back is the same job, but for the in-memory
  iteration state: the next log serial is recovered from the log. The opcode's own dictionary
  form is assumed to load back to the opcode.\<close>

theorem QueuedJob_roundtrip:
  assumes "log_wf job"
    and "\<And>op. op \<in> set (qj_ops job) \<Longrightarrow> load (getstate (qo_input op)) = Inr (qo_input op)"
  shows "QueuedJob_Restore load (QueuedJob_Serialize getstate job) writable archived =
     Inr (job\<lparr>qj_writable := writable, qj_archived := archived,
              qj_ops_iter := None, qj_cur_opctx := None\<rparr>)"
proof -
  have "restore_ops load 0 (map (QueuedOpCode_Serialize getstate) (qj_ops job))
      = Inr (qj_log_serial job, qj_ops job)"
    using restore_ops_Serialize [of "qj_ops job" load getstate 0, OF assms(2)]
      log_serial_max [OF assms(1)] by (simp add: job_log_def)
  then show ?thesis
    by (simp add: QueuedJob_Restore_def QueuedJob_Serialize_def InitInMemory_def)
qed

text \<open>Polling the log is exact: when the serials are 1..log_serial, asking for the entries
  newer than a serial returns exactly the later entries, each once; asking for all of them is
  asking with no serial.\<close>

theorem GetLogEntries_exact:
  assumes "log_wf job" and "0 \<le> n"
  shows "set (GetLogEntries job (Some n)) = {e \<in> set (job_log job). n < fst e} \<and>
    fst ` set (GetLogEntries job (Some n)) = {n + 1..qj_log_serial job} \<and>
    distinct (GetLogEntries job (Some n)) \<and>
    GetLogEntries job None = job_log job"
proof (intro conjI)
  have im: "fst ` set (job_log job) = {1..qj_log_serial job}" and d: "distinct (map fst (job_log job))"
    using assms(1) by (simp_all add: log_wf_def)
  show 1: "set (GetLogEntries job (Some n)) = {e \<in> set (job_log job). n < fst e}"
    by (auto simp: GetLogEntries_filter)
  have "fst ` {e \<in> set (job_log job). n < fst e} = {s \<in> fst ` set (job_log job). n < s}" by auto
  then show "fst ` set (GetLogEntries job (Some n)) = {n + 1..qj_log_serial job}"
    using assms(2) by (auto simp: 1 im)
  show "distinct (GetLogEntries job (Some n))"
    using d by (simp add: GetLogEntries_filter distinct_map)
  have "-1 < fst e" if "e \<in> set (job_log job)" for e
    using imageI [OF that, of fst] by (simp add: im)
  then show "GetLogEntries job None = job_log job" by (simp add: GetLogEntries_filter)
qed

section \<open>Witnesses\<close>

definition sample_opcode :: opcode where
  "sample_opcode = \<lparr>op_class = ''OpTestDelay'', op_priority = None, op_depends = None,
     op_reason = None, op_params = []\<rparr>"

definition sample_op :: "op_status \<Rightarrow> log_entry list \<Rightarrow> queued_op" where
  "sample_op s lg = (QueuedOpCode sample_opcode)\<lparr>qo_status := s, qo_log := lg\<rparr>"

definition sample_job :: "queued_op list \<Rightarrow> int \<Rightarrow> queued_job" where
  "sample_job ops serial =
     \<lparr>qj_id = 7, qj_ops = ops, qj_log_serial = serial, qj_ops_iter = None, qj_cur_opctx = None,
      qj_received_timestamp = Some (1, 0), qj_start_timestamp = None, qj_end_timestamp = None,
      qj_writable = True, qj_archived = False, qj_livelock = None, qj_process_id = None\<rparr>"

lemmas sample_defs = sample_opcode_def sample_op_def sample_job_def QueuedOpCode_def

definition sample_waiting :: queued_job where
  "sample_waiting = sample_job
     [sample_op OP_STATUS_SUCCESS [(1, (5, 0), ELOG_MESSAGE, JStr ''one'')],
      sample_op OP_STATUS_WAITING [(2, (6, 0), ELOG_MESSAGE, JStr ''two'')],
      sample_op OP_STATUS_QUEUED []] 2"

lemma sample_waiting_shape: "ops_shape (map qo_status (qj_ops sample_waiting))"
  by (simp add: sample_waiting_def sample_defs ops_shape_def done_count_def statuses_status_def
      tail_of_def)

lemma sample_waiting_log: "log_wf sample_waiting"
  by (auto simp: sample_waiting_def sample_defs log_wf_def job_log_def)

lemma sample_waiting_status: "CalcStatus sample_waiting = OP_STATUS_WAITING"
  by (simp add: sample_waiting_def sample_defs CalcStatus_def statuses_status_def)

theorem Cancel_outcome_witness:
  "CalcStatus sample_waiting = OP_STATUS_WAITING \<and>
   (\<exists>msg job'. Cancel (9, 0) sample_waiting = Inr ((True, msg), job') \<and>
      CalcStatus job' = OP_STATUS_CANCELING)"
  using Cancel_outcome [OF sample_waiting_shape, of "(9, 0)"] sample_waiting_status by auto

theorem ChangePriority_outcome_witness:
  "\<exists>ok msg job'. ChangePriority 10 sample_waiting = Inr ((ok, msg), job') \<and>
     CalcStatus job' = OP_STATUS_WAITING"
  using ChangePriority_outcome [OF sample_waiting_shape, of 10] sample_waiting_status
  by (auto simp: finalized_defs)

theorem QueuedJob_roundtrip_witness:
  "QueuedJob_Restore (\<lambda>_. Inr sample_opcode) (QueuedJob_Serialize (\<lambda>_. JNull) sample_waiting) True False
     = Inr sample_waiting"
proof -
  have ops: "(\<lambda>_. Inr sample_opcode) ((\<lambda>_. JNull) (qo_input op)) = Inr (qo_input op)"
    if "op \<in> set (qj_ops sample_waiting)" for op
    using that by (auto simp: sample_waiting_def sample_defs)
  have "sample_waiting = sample_waiting\<lparr>qj_writable := True, qj_archived := False,
      qj_ops_iter := None, qj_cur_opctx := None\<rparr>"
    by (simp add: sample_waiting_def sample_job_def)
  with QueuedJob_roundtrip [OF sample_waiting_log, of "\<lambda>_. Inr sample_opcode" "\<lambda>_. JNull" True False] ops
  show ?thesis by simp
qed

theorem GetLogEntries_exact_witness:
  "fst ` set (GetLogEntries sample_waiting (Some 1)) = {2..2}"
proof -
  have "qj_log_serial sample_waiting = 2" by (simp add: sample_waiting_def sample_job_def)
  moreover have "fst ` set (GetLogEntries sample_waiting (Some 1)) = {1 + 1..qj_log_serial sample_waiting}"
    using GetLogEntries_exact [OF sample_waiting_log zero_le_one] by blast
  ultimately show ?thesis by simp
qed

end
