(* ===== verification/Job_Deps.thy ===== *)
theory Job_Deps
  imports Job_Data "HOL-Library.AList"
begin

text \<open>
  The dependency manager of the job queue (\<^verbatim>\<open>_JobDependencyManager\<close> in
  \<^verbatim>\<open>lib/jqueue/__init__.py\<close>). Its state is the dictionary \<^verbatim>\<open>_waiters\<close> from the id of a job
  that others depend on to the set of jobs waiting for it; a waiting job is represented by its
  id. The status function is a parameter that returns \<open>None\<close> where the code raises
  \<^verbatim>\<open>JobLost\<close>. Dependencies are the pairs of a job id and the list of accepted final
  statuses that an opcode's \<^verbatim>\<open>depends\<close> attribute holds.
\<close>

section \<open>Model\<close>

datatype dep_result = DEP_WAIT | DEP_ERROR | DEP_CANCEL | DEP_CONTINUE | DEP_WRONGSTATUS

type_synonym waiters = "(int \<times> int set) list"

definition DepManager_init :: waiters where
  "DepManager_init = []"

definition JobWaiting :: "waiters \<Rightarrow> int \<Rightarrow> bool" where
  "JobWaiting w job \<longleftrightarrow> list_ex (\<lambda>(_, jobs). job \<in> jobs) w"

definition CommaJoin :: "string list \<Rightarrow> string" where
  "CommaJoin names = join_str '', '' names"

text \<open>A text in single quotes, and the rendering of a list of statuses.\<close>

definition sq :: "string \<Rightarrow> string" where
  "sq s = CHR 0x27 # s @ [CHR 0x27]"

definition status_list_repr :: "op_status list \<Rightarrow> string" where
  "status_list_repr ss = ''['' @ join_str '', '' (map (\<lambda>s. sq (status_text s)) ss) @ '']''"

definition CheckAndRegister ::
  "(int \<Rightarrow> op_status option) \<Rightarrow> waiters \<Rightarrow> int \<Rightarrow> int \<Rightarrow> op_status list \<Rightarrow>
   ((dep_result \<times> string) \<times> waiters) res" where
  "CheckAndRegister getstatus w job_id dep_job_id dep_status =
     res_bind (check (0 \<le> job_id \<and> 0 \<le> dep_job_id) AssertionError) (\<lambda>_.
     res_bind (check (list_all (\<lambda>s. s \<in> JOBS_FINALIZED) dep_status) AssertionError) (\<lambda>_.
     (let dep = int_str dep_job_id in
      if job_id = dep_job_id then
        Inr ((DEP_ERROR, ''Job can'' @ [CHR 0x27] @ ''t depend on itself''), w)
      else (case getstatus dep_job_id of
        None \<Rightarrow> Inr ((DEP_ERROR, ''Dependency error: Job '' @ dep @ '' not found''), w)
      | Some status \<Rightarrow>
          (let ws = (case map_of w dep_job_id of None \<Rightarrow> {} | Some s \<Rightarrow> s) in
           if status \<notin> JOBS_FINALIZED then
             Inr ((DEP_WAIT, ''Need to wait for job '' @ dep @ '', wanted status ''
                     @ sq (status_list_repr dep_status)),
                  AList.update dep_job_id (insert job_id ws) w)
           else
             (let w' = AList.update dep_job_id (ws - {job_id}) w in
              if status = JOB_STATUS_CANCELED \<and> JOB_STATUS_CANCELED \<notin> set dep_status then
                Inr ((DEP_CANCEL, ''Dependency job '' @ dep @ '' was cancelled''), w')
              else if dep_status = [] \<or> status \<in> set dep_status then
                Inr ((DEP_CONTINUE, ''Dependency job '' @ dep @ '' finished with status ''
                        @ sq (status_text status)), w')
              else
                Inr ((DEP_WRONGSTATUS, ''Dependency job '' @ dep @ '' finished with status ''
                        @ sq (status_text status) @ '', not one of ''
                        @ sq (CommaJoin (map status_text dep_status)) @ '' as required''), w')))))))"

definition RemoveEmptyWaiters :: "waiters \<Rightarrow> waiters" where
  "RemoveEmptyWaiters w = filter (\<lambda>(_, jobs). jobs \<noteq> {}) w"

section \<open>Lemmas\<close>

text \<open>The dictionary keeps its keys distinct.\<close>

abbreviation waiters_wf :: "waiters \<Rightarrow> bool" where
  "waiters_wf w \<equiv> distinct (map fst w)"

lemma JobWaiting_iff: "waiters_wf w \<Longrightarrow> JobWaiting w job \<longleftrightarrow> (\<exists>k js. map_of w k = Some js \<and> job \<in> js)"
  by (auto simp: JobWaiting_def list_ex_iff)

lemma CheckAndRegister_wf:
  "CheckAndRegister gs w j d ss = Inr (r, w') \<Longrightarrow> waiters_wf w \<Longrightarrow> waiters_wf w'"
  by (auto simp: CheckAndRegister_def Let_def res_simps distinct_update
      split: if_splits option.splits)

lemma JobWaiting_RemoveEmptyWaiters: "JobWaiting (RemoveEmptyWaiters w) job \<longleftrightarrow> JobWaiting w job"
  by (induction w) (auto simp: JobWaiting_def RemoveEmptyWaiters_def)

definition dep_outcome :: "op_status option \<Rightarrow> bool \<Rightarrow> op_status list \<Rightarrow> dep_result" where
  "dep_outcome st self accepted = (if self then DEP_ERROR else case st of
     None \<Rightarrow> DEP_ERROR
   | Some s \<Rightarrow>
       if s \<notin> JOBS_FINALIZED then DEP_WAIT
       else if accepted = [] then (if s = OP_STATUS_CANCELED then DEP_CANCEL else DEP_CONTINUE)
       else if s \<in> set accepted then DEP_CONTINUE
       else if s = OP_STATUS_CANCELED then DEP_CANCEL
       else DEP_WRONGSTATUS)"

lemma CheckAndRegister_spec:
  assumes "0 \<le> j" and "0 \<le> d" and "list_all (\<lambda>s. s \<in> JOBS_FINALIZED) accepted"
  shows "\<exists>msg w'. CheckAndRegister gs w j d accepted
        = Inr ((dep_outcome (gs d) (j = d) accepted, msg), w') \<and> msg \<noteq> [] \<and>
     (dep_outcome (gs d) (j = d) accepted = DEP_WAIT \<longrightarrow>
        (\<exists>js. map_of w' d = Some js \<and> j \<in> js) \<and> JobWaiting w' j) \<and>
     (dep_outcome (gs d) (j = d) accepted \<in> {DEP_CONTINUE, DEP_CANCEL, DEP_WRONGSTATUS} \<longrightarrow>
        (\<exists>js. map_of w' d = Some js \<and> j \<notin> js)) \<and>
     (\<forall>k. k \<noteq> d \<longrightarrow> map_of w' k = map_of w k) \<and>
     (dep_outcome (gs d) (j = d) accepted = DEP_ERROR \<longrightarrow> w' = w)"
proof -
  have reg: "JobWaiting w j" if "map_of w k = Some js" "j \<in> js" for w :: waiters and k js
    using map_of_SomeD [OF that(1)] that(2) by (auto simp: JobWaiting_def list_ex_iff)
  show ?thesis
  proof (cases "gs d")
    case None
    then show ?thesis using assms
      by (auto simp: CheckAndRegister_def dep_outcome_def Let_def update_conv')
  next
    case (Some s)
    show ?thesis
    proof (cases "j = d")
      case True
      then show ?thesis using assms by (auto simp: CheckAndRegister_def dep_outcome_def Let_def)
    next
      case False
      have "JobWaiting (AList.update d (insert j ws) w) j" for ws
        by (rule reg [of _ d "insert j ws"]) (simp_all add: update_conv')
      then show ?thesis using assms False Some
        by (cases s) (auto simp: CheckAndRegister_def dep_outcome_def Let_def update_conv' finalized_defs)
    qed
  qed
qed

text \<open>C18: a dependency check on well-formed input never fails an assertion and returns the
  documented outcome: an error for a self-dependency or a lost job, wait while the other job is
  not final, continue when it ended in an accepted status (any status but cancelled when none is
  given), cancel when it was cancelled unasked, wrong-status otherwise. After a wait the job is
  registered under the other job; after every final outcome it is not.\<close>

theorem CheckAndRegister_outcome:
  assumes "0 \<le> j" and "0 \<le> d" and "list_all (\<lambda>s. s \<in> JOBS_FINALIZED) accepted"
  shows "\<exists>msg w'. CheckAndRegister gs w j d accepted
        = Inr ((dep_outcome (gs d) (j = d) accepted, msg), w') \<and> msg \<noteq> [] \<and>
     (dep_outcome (gs d) (j = d) accepted = DEP_WAIT \<longrightarrow>
        (\<exists>js. map_of w' d = Some js \<and> j \<in> js) \<and> JobWaiting w' j) \<and>
     (dep_outcome (gs d) (j = d) accepted \<in> {DEP_CONTINUE, DEP_CANCEL, DEP_WRONGSTATUS} \<longrightarrow>
        (\<exists>js. map_of w' d = Some js \<and> j \<notin> js)) \<and>
     (\<forall>k. k \<noteq> d \<longrightarrow> map_of w' k = map_of w k) \<and>
     (dep_outcome (gs d) (j = d) accepted = DEP_ERROR \<longrightarrow> w' = w)"
  by (rule CheckAndRegister_spec [OF assms])

theorem CheckAndRegister_outcome_witness:
  "\<exists>msg w'. CheckAndRegister (\<lambda>_. Some OP_STATUS_RUNNING) [] 3 2 [OP_STATUS_SUCCESS]
      = Inr ((DEP_WAIT, msg), w') \<and> JobWaiting w' 3"
  using CheckAndRegister_outcome [of 3 2 "[OP_STATUS_SUCCESS]" "\<lambda>_. Some OP_STATUS_RUNNING" "[]"]
  by (auto simp: dep_outcome_def finalized_defs)

end
