(* ===== verification/Job_Store.thy ===== *)
theory Job_Store
  imports Job_Deps
begin

text \<open>
  The \<^verbatim>\<open>JobQueue\<close> class of \<^verbatim>\<open>lib/jqueue/__init__.py\<close>: job files on the master's disk
  and on the other master candidates, the in-memory cache, loading, updating, cancelling
  and changing the priority of stored jobs, and the status function the dependency manager
  uses. A file holds the dictionary of a job (the JSON text is not modelled), text that does
  not parse, no text, or cannot be read. \<open>jq_up\<close> says which nodes answer a remote call.
  The opcode codec is the pair of parameters \<open>load\<close> and \<open>getstate\<close>.
\<close>

section \<open>Model\<close>

datatype job_path = JobPath int | ArchivedJobPath int int

datatype job_file = JobText job_state | BadText | EmptyText | UnreadableFile

record jqueue =
  jq_files :: "job_path \<rightharpoonup> job_file"
  jq_remote :: "string \<Rightarrow> job_path \<rightharpoonup> job_file"
  jq_nodes :: "(string \<times> string) list"
  jq_up :: "string \<Rightarrow> bool"
  jq_memcache :: "int \<rightharpoonup> queued_job"
  jq_waiters :: waiters
  jq_destroyed :: bool

definition JOBS_PER_ARCHIVE_DIRECTORY :: int where
  "JOBS_PER_ARCHIVE_DIRECTORY = 10000"

definition GetArchiveDirectory :: "int \<Rightarrow> int" where
  "GetArchiveDirectory job_id = job_id div JOBS_PER_ARCHIVE_DIRECTORY"

definition GetJobPath :: "int \<Rightarrow> job_path" where
  "GetJobPath job_id = JobPath job_id"

definition GetArchivedJobPath :: "int \<Rightarrow> job_path" where
  "GetArchivedJobPath job_id = ArchivedJobPath (GetArchiveDirectory job_id) job_id"

text \<open>
  The nodes the queue replicates to: the master candidates, less the master itself.
\<close>

definition JobQueue_init ::
  "string \<Rightarrow> (string \<times> string \<times> bool) list \<Rightarrow> (string \<Rightarrow> bool) \<Rightarrow>
   (job_path \<rightharpoonup> job_file) \<Rightarrow> (string \<Rightarrow> job_path \<rightharpoonup> job_file) \<Rightarrow> jqueue" where
  "JobQueue_init my_hostname all_nodes up files remote =
     \<lparr>jq_files = files, jq_remote = remote,
      jq_nodes = filter (\<lambda>(n, _). n \<noteq> my_hostname)
        (map (\<lambda>(n, ip, _). (n, ip)) (filter (\<lambda>(_, _, mc). mc) all_nodes)),
      jq_up = up, jq_memcache = Map.empty, jq_waiters = DepManager_init, jq_destroyed = False\<rparr>"

text \<open>The failed and the successful nodes, and whether the majority error is logged.\<close>

definition CheckRpcResult ::
  "(string \<Rightarrow> bool) \<Rightarrow> string list \<Rightarrow> string list \<times> string list \<times> bool" where
  "CheckRpcResult ok nodes =
     (let failed = filter (\<lambda>n. \<not> ok n) nodes; success = filter ok nodes in
      (failed, success, length success + 1 < length failed))"

definition GetNodeIp :: "jqueue \<Rightarrow> string list \<times> string list" where
  "GetNodeIp q = (map fst (jq_nodes q), map snd (jq_nodes q))"

definition UpdateJobQueueFile :: "job_path \<Rightarrow> job_file \<Rightarrow> bool \<Rightarrow> jqueue \<Rightarrow> jqueue" where
  "UpdateJobQueueFile p content repl q =
     (let q' = q\<lparr>jq_files := (jq_files q)(p \<mapsto> content)\<rparr>;
          (names, addrs) = GetNodeIp q in
      if repl
      then q'\<lparr>jq_remote := (\<lambda>n. if n \<in> set names \<and> jq_up q n
                 then (jq_remote q n)(p \<mapsto> content) else jq_remote q n)\<rparr>
      else q')"

definition rename_file ::
  "job_path \<Rightarrow> job_path \<Rightarrow> (job_path \<rightharpoonup> job_file) \<Rightarrow> (job_path \<rightharpoonup> job_file) res" where
  "rename_file old new fs = (case fs old of
     None \<Rightarrow> Inl EnvironmentError
   | Some c \<Rightarrow> Inr (if old = new then fs else (fs(new \<mapsto> c))(old := None)))"

fun rename_files ::
  "(job_path \<times> job_path) list \<Rightarrow> (job_path \<rightharpoonup> job_file) \<Rightarrow> (job_path \<rightharpoonup> job_file) res" where
  "rename_files [] fs = Inr fs"
| "rename_files ((old, new) # rs) fs = res_bind (rename_file old new fs) (rename_files rs)"

text \<open>On a remote node a failing rename is a failed call, which is only logged.\<close>

definition RenameFilesUnlocked :: "(job_path \<times> job_path) list \<Rightarrow> jqueue \<Rightarrow> jqueue res" where
  "RenameFilesUnlocked rename q =
     res_bind (rename_files rename (jq_files q)) (\<lambda>fs.
       Inr (q\<lparr>jq_files := fs,
              jq_remote := (\<lambda>n. if n \<in> set (fst (GetNodeIp q)) \<and> jq_up q n
                 then (case rename_files rename (jq_remote q n) of
                         Inl e \<Rightarrow> jq_remote q n | Inr fs' \<Rightarrow> fs')
                 else jq_remote q n)\<rparr>))"

text \<open>
  \<^verbatim>\<open>^job-(\d+)$\<close> against a file name (\<^verbatim>\<open>$\<close> also matches before a final newline), and the
  job ids among the visible files of the scanned directories.
\<close>

definition job_file_id :: "string \<Rightarrow> int option" where
  "job_file_id name =
     (let body = drop 4 name;
          ds = (if body \<noteq> [] \<and> last body = CHR 0x0A then butlast body else body) in
      if take 4 name = ''job-'' \<and> ds \<noteq> [] \<and> list_all is_digit_char ds
      then Some (int (digits_value ds)) else None)"

definition GetJobIDsUnlocked :: "bool \<Rightarrow> string list list \<Rightarrow> int list" where
  "GetJobIDsUnlocked sort_ids listings =
     (let jlist = List.map_filter job_file_id (concat listings) in
      if sort_ids then sort jlist else jlist)"

text \<open>The paths tried in order; a missing file is skipped, any other read error is raised.\<close>

fun read_first ::
  "(job_path \<rightharpoonup> job_file) \<Rightarrow> (job_path \<times> bool) list \<Rightarrow> bool \<Rightarrow> (job_file option \<times> bool) res" where
  "read_first fs [] archived = Inr (None, archived)"
| "read_first fs ((p, a) # ps) archived = (case fs p of
     None \<Rightarrow> read_first fs ps a
   | Some UnreadableFile \<Rightarrow> Inl EnvironmentError
   | Some c \<Rightarrow> Inr (Some c, a))"

definition LoadJobFromDisk ::
  "(json \<Rightarrow> opcode res) \<Rightarrow> jqueue \<Rightarrow> int \<Rightarrow> bool \<Rightarrow> bool option \<Rightarrow> queued_job option res" where
  "LoadJobFromDisk load q job_id try_archived writable =
     (let paths = (GetJobPath job_id, False) #
            (if try_archived then [(GetArchivedJobPath job_id, True)] else []) in
      res_bind (read_first (jq_files q) paths False) (\<lambda>(raw, archived).
        (let wr = (case writable of None \<Rightarrow> \<not> archived | Some b \<Rightarrow> b) in
         case raw of
           None \<Rightarrow> Inr None
         | Some EmptyText \<Rightarrow> Inr None
         | Some (JobText data) \<Rightarrow>
             (case QueuedJob_Restore load data wr archived of
                Inl e \<Rightarrow> Inl JobFileCorrupted
              | Inr job \<Rightarrow> Inr (Some job))
         | Some _ \<Rightarrow> Inl JobFileCorrupted)))"

definition SafeLoadJobFromDisk ::
  "(json \<Rightarrow> opcode res) \<Rightarrow> jqueue \<Rightarrow> int \<Rightarrow> bool \<Rightarrow> bool option \<Rightarrow> queued_job option res" where
  "SafeLoadJobFromDisk load q job_id try_archived writable =
     (case LoadJobFromDisk load q job_id try_archived writable of
        Inl e \<Rightarrow> if e = JobFileCorrupted \<or> e = EnvironmentError then Inr None else Inl e
      | Inr j \<Rightarrow> Inr j)"

definition LoadJobUnlocked ::
  "(json \<Rightarrow> opcode res) \<Rightarrow> int \<Rightarrow> jqueue \<Rightarrow> (queued_job option \<times> jqueue) res" where
  "LoadJobUnlocked load job_id q = (case jq_memcache q job_id of
     Some job \<Rightarrow>
       res_bind (check (qj_writable job) AssertionError) (\<lambda>_. Inr (Some job, q))
   | None \<Rightarrow>
       (case LoadJobFromDisk load q job_id False None of
          Inl e \<Rightarrow>
            (if e = JobFileCorrupted then
               (if GetJobPath job_id = GetArchivedJobPath job_id then Inr (None, q)
                else res_bind (RenameFilesUnlocked [(GetJobPath job_id, GetArchivedJobPath job_id)] q)
                  (\<lambda>q'. Inr (None, q')))
             else Inl e)
        | Inr None \<Rightarrow> Inr (None, q)
        | Inr (Some job) \<Rightarrow>
            res_bind (check (qj_writable job) AssertionError) (\<lambda>_.
              Inr (Some job, q\<lparr>jq_memcache := (jq_memcache q)(job_id \<mapsto> job)\<rparr>))))"

text \<open>
  \<open>resolve\<close> is the callback that resolves a relative (negative) id; \<open>None\<close> is its
  \<^verbatim>\<open>IndexError\<close>.
\<close>

fun ResolveJobDependencies ::
  "(int \<Rightarrow> int option) \<Rightarrow> job_dep list \<Rightarrow> string + job_dep list" where
  "ResolveJobDependencies resolve [] = Inr []"
| "ResolveJobDependencies resolve ((dep_job_id, dep_status) # deps) =
     (case (if dep_job_id < 0 then resolve dep_job_id else Some dep_job_id) of
        None \<Rightarrow> Inl (''Unable to resolve relative job ID '' @ int_str dep_job_id)
      | Some job_id \<Rightarrow>
          (case ResolveJobDependencies resolve deps of
             Inl msg \<Rightarrow> Inl msg
           | Inr result \<Rightarrow> Inr ((job_id, dep_status) # result)))"

definition GetJobStatusForDependencies ::
  "(json \<Rightarrow> opcode res) \<Rightarrow> jqueue \<Rightarrow> int \<Rightarrow> op_status res" where
  "GetJobStatusForDependencies load q job_id =
     res_bind (SafeLoadJobFromDisk load q job_id True (Some False)) (\<lambda>job. case job of
       None \<Rightarrow> Inl (JobLost (''Job '' @ int_str job_id @ '' not found''))
     | Some j \<Rightarrow> res_bind (check (\<not> qj_writable j) AssertionError) (\<lambda>_. Inr (CalcStatus j)))"

text \<open>The view the dependency manager has of it: \<open>None\<close> where the call raises \<^verbatim>\<open>JobLost\<close>.\<close>

definition dep_status_fn :: "(json \<Rightarrow> opcode res) \<Rightarrow> jqueue \<Rightarrow> int \<Rightarrow> op_status option" where
  "dep_status_fn load q job_id = (case GetJobStatusForDependencies load q job_id of
     Inl e \<Rightarrow> None | Inr s \<Rightarrow> Some s)"

definition UpdateJobUnlocked ::
  "(opcode \<Rightarrow> json) \<Rightarrow> bool \<Rightarrow> queued_job \<Rightarrow> jqueue \<Rightarrow> jqueue res" where
  "UpdateJobUnlocked getstate repl job q =
     (let finalized = (CalcStatus job \<in> JOBS_FINALIZED) in
      res_bind (check (finalized \<noteq> (qj_end_timestamp job = None)) AssertionError) (\<lambda>_.
      res_bind (check (qj_writable job) AssertionError) (\<lambda>_.
      res_bind (check (\<not> qj_archived job) AssertionError) (\<lambda>_.
        Inr (UpdateJobQueueFile (GetJobPath (qj_id job))
          (JobText (QueuedJob_Serialize getstate job)) repl q)))))"

definition HasJobBeenFinalized :: "(json \<Rightarrow> opcode res) \<Rightarrow> jqueue \<Rightarrow> int \<Rightarrow> bool option res" where
  "HasJobBeenFinalized load q job_id =
     res_bind (SafeLoadJobFromDisk load q job_id True (Some False)) (\<lambda>job. case job of
       Some j \<Rightarrow> Inr (Some (CalcStatus j \<in> JOBS_FINALIZED))
     | None \<Rightarrow> if jq_destroyed q then Inr (Some True) else Inr None)"

text \<open>
  The modified job is the object in the cache, so the cache is updated with it.
\<close>

definition ModifyJobUnlocked ::
  "(json \<Rightarrow> opcode res) \<Rightarrow> (opcode \<Rightarrow> json) \<Rightarrow> int \<Rightarrow>
   (queued_job \<Rightarrow> ((bool \<times> string) \<times> queued_job) res) \<Rightarrow> jqueue \<Rightarrow> ((bool \<times> string) \<times> jqueue) res" where
  "ModifyJobUnlocked load getstate job_id mod_fn q =
     res_bind (LoadJobUnlocked load job_id q) (\<lambda>(found, q1). case found of
       None \<Rightarrow> Inr ((False, ''Job '' @ int_str job_id @ '' not found''), q1)
     | Some job \<Rightarrow>
         res_bind (check (qj_writable job) AssertionError) (\<lambda>_.
         res_bind (check (\<not> qj_archived job) AssertionError) (\<lambda>_.
         res_bind (mod_fn job) (\<lambda>((success, msg), job').
           (let q2 = q1\<lparr>jq_memcache := (jq_memcache q1)(job_id \<mapsto> job')\<rparr> in
            if success
            then res_bind (UpdateJobUnlocked getstate True job' q2) (\<lambda>q3. Inr ((success, msg), q3))
            else Inr ((success, msg), q2))))))"

definition JobQueue_CancelJob ::
  "(json \<Rightarrow> opcode res) \<Rightarrow> (opcode \<Rightarrow> json) \<Rightarrow> timestamp \<Rightarrow> int \<Rightarrow> jqueue \<Rightarrow>
   ((bool \<times> string) \<times> jqueue) res" where
  "JobQueue_CancelJob load getstate now job_id q =
     ModifyJobUnlocked load getstate job_id (Cancel now) q"

text \<open>The error text also lists the allowed values, in no particular order.\<close>

definition ChangeJobPriority ::
  "(json \<Rightarrow> opcode res) \<Rightarrow> (opcode \<Rightarrow> json) \<Rightarrow> int \<Rightarrow> int \<Rightarrow> jqueue \<Rightarrow>
   ((bool \<times> string) \<times> jqueue) res" where
  "ChangeJobPriority load getstate job_id priority q =
     (if priority \<notin> OP_PRIO_SUBMIT_VALID
      then Inl (GenericError (''Invalid priority '' @ int_str priority))
      else ModifyJobUnlocked load getstate job_id (ChangePriority priority) q)"

section \<open>Lemmas\<close>

text \<open>A job that its file can represent.\<close>

definition storable :: "(json \<Rightarrow> opcode res) \<Rightarrow> (opcode \<Rightarrow> json) \<Rightarrow> queued_job \<Rightarrow> bool" where
  "storable load getstate job \<longleftrightarrow>
     log_wf job \<and> (\<forall>op \<in> set (qj_ops job). load (getstate (qo_input op)) = Inr (qo_input op))"

text \<open>The job a reader gets: the in-memory iteration state is fresh.\<close>

definition loaded :: "bool \<Rightarrow> bool \<Rightarrow> queued_job \<Rightarrow> queued_job" where
  "loaded wr arch job =
     job\<lparr>qj_writable := wr, qj_archived := arch, qj_ops_iter := None, qj_cur_opctx := None\<rparr>"

lemma loaded_simps [simp]:
  "qj_id (loaded wr arch job) = qj_id job"
  "qj_ops (loaded wr arch job) = qj_ops job"
  "qj_end_timestamp (loaded wr arch job) = qj_end_timestamp job"
  "qj_writable (loaded wr arch job) = wr"
  "qj_archived (loaded wr arch job) = arch"
  "CalcStatus (loaded wr arch job) = CalcStatus job"
  "statuses (loaded wr arch job) = statuses job"
  by (simp_all add: loaded_def CalcStatus_def statuses_def)

lemma Restore_Serialize:
  assumes "storable load getstate job"
  shows "QueuedJob_Restore load (QueuedJob_Serialize getstate job) wr arch = Inr (loaded wr arch job)"
proof -
  from assms have "restore_ops load 0 (map (QueuedOpCode_Serialize getstate) (qj_ops job))
      = Inr (qj_log_serial job, qj_ops job)"
    using restore_ops_Serialize [of "qj_ops job" load getstate 0] log_serial_max [of job]
    by (simp add: storable_def job_log_def)
  then show ?thesis
    by (simp add: QueuedJob_Restore_def QueuedJob_Serialize_def InitInMemory_def loaded_def)
qed

lemmas path_defs = GetJobPath_def GetArchivedJobPath_def

lemma UpdateJobQueueFile_files [simp]:
  "jq_files (UpdateJobQueueFile p c repl q) = (jq_files q)(p \<mapsto> c)"
  by (simp add: UpdateJobQueueFile_def GetNodeIp_def Let_def)

lemma UpdateJobQueueFile_memcache [simp]:
  "jq_memcache (UpdateJobQueueFile p c repl q) = jq_memcache q"
  by (simp add: UpdateJobQueueFile_def GetNodeIp_def Let_def)

lemma UpdateJobUnlocked_Inr:
  "UpdateJobUnlocked getstate repl job q = Inr q' \<longleftrightarrow>
     (CalcStatus job \<in> JOBS_FINALIZED \<longleftrightarrow> qj_end_timestamp job \<noteq> None) \<and>
     qj_writable job \<and> \<not> qj_archived job \<and>
     q' = UpdateJobQueueFile (GetJobPath (qj_id job)) (JobText (QueuedJob_Serialize getstate job)) repl q"
  by (auto simp: UpdateJobUnlocked_def res_simps)

lemma LoadJobFromDisk_stored:
  assumes "jq_files q (GetJobPath (qj_id job)) = Some (JobText (QueuedJob_Serialize getstate job))"
    and "storable load getstate job"
  shows "LoadJobFromDisk load q (qj_id job) ta wr =
     Inr (Some (loaded (case wr of None \<Rightarrow> True | Some b \<Rightarrow> b) False job))"
  using assms by (cases wr) (simp_all add: LoadJobFromDisk_def Restore_Serialize Let_def)

lemma read_first_cong:
  "(\<And>p a. (p, a) \<in> set ps \<Longrightarrow> fs p = fs' p) \<Longrightarrow> read_first fs ps b = read_first fs' ps b"
proof (induction ps arbitrary: b)
  case (Cons x ps)
  obtain p a where x: "x = (p, a)" by (cases x)
  then have "fs p = fs' p" using Cons.prems [of p a] by simp
  moreover have "read_first fs ps a = read_first fs' ps a"
    by (rule Cons.IH) (use Cons.prems in \<open>simp, metis\<close>)
  ultimately show ?case by (simp add: x split: option.split)
qed simp

lemma LoadJobFromDisk_cong:
  assumes "jq_files q' (GetJobPath i) = jq_files q (GetJobPath i)"
    and "jq_files q' (GetArchivedJobPath i) = jq_files q (GetArchivedJobPath i)"
  shows "LoadJobFromDisk load q' i ta wr = LoadJobFromDisk load q i ta wr"
  using assms
  by (simp only: LoadJobFromDisk_def Let_def, subst read_first_cong [of _ "jq_files q'" "jq_files q"])
    (auto split: if_splits)

lemma dep_status_stored:
  assumes "jq_files q (GetJobPath (qj_id job)) = Some (JobText (QueuedJob_Serialize getstate job))"
    and "storable load getstate job"
  shows "dep_status_fn load q (qj_id job) = Some (CalcStatus job)"
  by (simp add: dep_status_fn_def GetJobStatusForDependencies_def SafeLoadJobFromDisk_def
      LoadJobFromDisk_stored [OF assms])

lemma dep_status_cong:
  assumes "jq_files q' (GetJobPath i) = jq_files q (GetJobPath i)"
    and "jq_files q' (GetArchivedJobPath i) = jq_files q (GetArchivedJobPath i)"
  shows "dep_status_fn load q' i = dep_status_fn load q i"
  by (simp add: dep_status_fn_def GetJobStatusForDependencies_def SafeLoadJobFromDisk_def
      LoadJobFromDisk_cong [OF assms])

section \<open>The job store as a contract\<close>

text \<open>
  What the dependency manager relies on: the store answers a status query with the status of
  the job last written under that id, and writing one job does not change the answer for
  another.
\<close>

locale job_status_store =
  fixes save :: "queued_job \<Rightarrow> 'q \<Rightarrow> 'q res"
    and status :: "'q \<Rightarrow> int \<Rightarrow> op_status option"
    and ok :: "queued_job \<Rightarrow> bool"
  assumes status_saved: "ok job \<Longrightarrow> save job q = Inr q' \<Longrightarrow> status q' (qj_id job) = Some (CalcStatus job)"
    and status_other: "save job q = Inr q' \<Longrightarrow> i \<noteq> qj_id job \<Longrightarrow> status q' i = status q i"
begin

lemma dependency_sees_saved:
  assumes "ok job" and "save job q = Inr q'" and "0 \<le> j" and "0 \<le> qj_id job" and "j \<noteq> qj_id job"
    and "list_all (\<lambda>s. s \<in> JOBS_FINALIZED) accepted"
  shows "\<exists>msg w'. CheckAndRegister (status q') w j (qj_id job) accepted
     = Inr ((dep_outcome (Some (CalcStatus job)) False accepted, msg), w')"
  using assms status_saved [OF assms(1,2)]
  by (cases "CalcStatus job") (auto simp: CheckAndRegister_def dep_outcome_def Let_def finalized_defs)

lemma dependency_unaffected:
  assumes "save job q = Inr q'" and "d \<noteq> qj_id job"
  shows "CheckAndRegister (status q') w j d accepted = CheckAndRegister (status q) w j d accepted"
  unfolding CheckAndRegister_def status_other [OF assms] ..

end

interpretation job_disk: job_status_store "UpdateJobUnlocked getstate repl" "dep_status_fn load" "storable load getstate"
  for load :: "json \<Rightarrow> opcode res" and getstate :: "opcode \<Rightarrow> json" and repl :: bool
proof unfold_locales
  fix job :: queued_job and q q' :: jqueue
  assume "storable load getstate job" and "UpdateJobUnlocked getstate repl job q = Inr q'"
  then show "dep_status_fn load q' (qj_id job) = Some (CalcStatus job)"
    by (intro dep_status_stored) (auto simp: UpdateJobUnlocked_Inr)
next
  fix job :: queued_job and q q' :: jqueue and i :: int
  assume "UpdateJobUnlocked getstate repl job q = Inr q'" and "i \<noteq> qj_id job"
  then show "dep_status_fn load q' i = dep_status_fn load q i"
    by (intro dep_status_cong) (auto simp: UpdateJobUnlocked_Inr path_defs)
qed

section \<open>Properties\<close>

lemma storable_update_ops:
  assumes "storable load getstate job"
    and "map qo_log ops = map qo_log (qj_ops job)" and "map qo_input ops = map qo_input (qj_ops job)"
  shows "storable load getstate (job\<lparr>qj_ops := ops\<rparr>)"
proof -
  have "qo_input ` set ops = qo_input ` set (qj_ops job)" using arg_cong [OF assms(3), of set] by simp
  then have "load (getstate i) = Inr i" if "i \<in> qo_input ` set ops" for i
    using assms(1) that by (auto simp: storable_def)
  then show ?thesis using assms(1,2) by (simp add: storable_def log_wf_def job_log_def)
qed

lemma map_changed_tail:
  "(\<And>x. f (g x) = f x) \<Longrightarrow> map f (take n xs @ map g (drop n xs)) = map f xs"
  by (rule nth_equalityI) (auto simp: nth_append min_def)

lemma storable_mark_job: "storable load getstate job \<Longrightarrow> storable load getstate (mark_job st r job)"
  unfolding mark_job_def Let_def
  by (erule storable_update_ops; rule map_changed_tail; simp)

lemma storable_Finalize [simp]:
  "storable load getstate (job\<lparr>qj_end_timestamp := t\<rparr>) = storable load getstate job"
  by (simp add: storable_def log_wf_def job_log_def)

lemma mark_job_fields [simp]:
  "qj_id (mark_job st r job) = qj_id job"
  "qj_end_timestamp (mark_job st r job) = qj_end_timestamp job"
  "qj_writable (mark_job st r job) = qj_writable job"
  "qj_archived (mark_job st r job) = qj_archived job"
  by (simp_all add: mark_job_def Let_def)

text \<open>C15: a job that is written can be read back: whatever the disk held before, after a
  successful write the master's disk yields the written job under its id, dependency checks see
  its status, and what is read under every other id is unchanged.\<close>

theorem UpdateJobUnlocked_load:
  assumes "storable load getstate job" and "UpdateJobUnlocked getstate repl job q = Inr q'"
  shows "LoadJobFromDisk load q' (qj_id job) ta None =
       Inr (Some (job\<lparr>qj_writable := True, qj_archived := False,
                     qj_ops_iter := None, qj_cur_opctx := None\<rparr>)) \<and>
     GetJobStatusForDependencies load q' (qj_id job) = Inr (CalcStatus job) \<and>
     HasJobBeenFinalized load q' (qj_id job) = Inr (Some (CalcStatus job \<in> JOBS_FINALIZED)) \<and>
     (\<forall>i. i \<noteq> qj_id job \<longrightarrow> LoadJobFromDisk load q' i ta wr = LoadJobFromDisk load q i ta wr)"
proof -
  have f: "jq_files q' (GetJobPath (qj_id job)) = Some (JobText (QueuedJob_Serialize getstate job))"
    using assms(2) by (simp add: UpdateJobUnlocked_Inr)
  note ld = LoadJobFromDisk_stored [OF f assms(1)]
  have "LoadJobFromDisk load q' i ta wr = LoadJobFromDisk load q i ta wr" if "i \<noteq> qj_id job" for i
    using assms(2) that by (intro LoadJobFromDisk_cong) (auto simp: UpdateJobUnlocked_Inr path_defs)
  then show ?thesis
    using ld [of ta None]
    by (simp add: loaded_def [symmetric] GetJobStatusForDependencies_def HasJobBeenFinalized_def
        SafeLoadJobFromDisk_def ld [of True "Some False"])
qed

text \<open>A replicated write reaches every other master candidate that answers: its copy of the
  job file is the master's, no other file of any node changes, and a node that does not answer
  or is not a candidate is left alone. The master's own copy is written even when no node
  answers.\<close>

theorem UpdateJobUnlocked_replicates:
  assumes "UpdateJobUnlocked getstate True job q = Inr q'"
  shows "jq_files q' (GetJobPath (qj_id job)) = Some (JobText (QueuedJob_Serialize getstate job)) \<and>
     (\<forall>n. jq_remote q' n (GetJobPath (qj_id job)) =
        (if n \<in> fst ` set (jq_nodes q) \<and> jq_up q n then jq_files q' (GetJobPath (qj_id job))
         else jq_remote q n (GetJobPath (qj_id job)))) \<and>
     (\<forall>n p. p \<noteq> GetJobPath (qj_id job) \<longrightarrow> jq_remote q' n p = jq_remote q n p \<and> jq_files q' p = jq_files q p)"
  using assms by (auto simp: UpdateJobUnlocked_Inr UpdateJobQueueFile_def GetNodeIp_def)


text \<open>A job file that cannot be decoded is moved to the archive, with its content: the
  load answers that there is no such job, the file is gone from the queue directory, and every
  later load answers the same without an error.\<close>

theorem LoadJobUnlocked_corrupt:
  assumes "jq_memcache q i = None" and "jq_files q (GetJobPath i) = Some c"
    and "LoadJobFromDisk load q i False None = Inl JobFileCorrupted"
  shows "\<exists>q'. LoadJobUnlocked load i q = Inr (None, q') \<and>
     jq_files q' = (jq_files q)(GetArchivedJobPath i \<mapsto> c, GetJobPath i := None) \<and>
     jq_memcache q' = jq_memcache q \<and> LoadJobUnlocked load i q' = Inr (None, q')"
proof -
  have ne: "GetJobPath i \<noteq> GetArchivedJobPath i" by (simp add: path_defs)
  then have "rename_files [(GetJobPath i, GetArchivedJobPath i)] (jq_files q)
      = Inr ((jq_files q)(GetArchivedJobPath i \<mapsto> c, GetJobPath i := None))"
    using assms(2) by (simp add: rename_file_def)
  then obtain q' where r: "RenameFilesUnlocked [(GetJobPath i, GetArchivedJobPath i)] q = Inr q'"
    and q': "jq_files q' = (jq_files q)(GetArchivedJobPath i \<mapsto> c, GetJobPath i := None)"
      "jq_memcache q' = jq_memcache q"
    unfolding RenameFilesUnlocked_def by simp
  have "LoadJobFromDisk load q' i False None = Inr None"
    by (simp add: LoadJobFromDisk_def q')
  then have "LoadJobUnlocked load i q' = Inr (None, q')"
    using assms(1) by (simp add: LoadJobUnlocked_def q')
  moreover have "LoadJobUnlocked load i q = Inr (None, q')"
    using assms(1,3) ne by (simp add: LoadJobUnlocked_def r)
  ultimately show ?thesis using q' by blast
qed

section \<open>Witnesses\<close>

text \<open>A queue with two other candidates, one of which does not answer.\<close>

definition sample_queue :: jqueue where
  "sample_queue =
     (JobQueue_init ''m'' [(''m'', ''1'', True), (''a'', ''2'', True), (''b'', ''3'', True), (''c'', ''4'', False)]
        (\<lambda>n. n \<noteq> ''b'') (Map.empty(JobPath 8 \<mapsto> BadText)) (\<lambda>_. Map.empty))
     \<lparr>jq_memcache := Map.empty(7 \<mapsto> sample_waiting)\<rparr>"

abbreviation "sample_load \<equiv> (\<lambda>_ :: json. Inr sample_opcode :: opcode res)"
abbreviation "sample_getstate \<equiv> (\<lambda>_ :: opcode. JNull)"

lemma sample_storable: "storable sample_load sample_getstate sample_waiting"
  using sample_waiting_log by (simp add: storable_def sample_waiting_def sample_defs)

lemma sample_fields:
  "qj_id sample_waiting = 7" "qj_writable sample_waiting" "\<not> qj_archived sample_waiting"
  "qj_end_timestamp sample_waiting = None"
  by (simp_all add: sample_waiting_def sample_defs)

lemma sample_update:
  "UpdateJobUnlocked sample_getstate True sample_waiting sample_queue =
     Inr (UpdateJobQueueFile (JobPath 7) (JobText (QueuedJob_Serialize sample_getstate sample_waiting))
            True sample_queue)"
  by (simp add: UpdateJobUnlocked_Inr sample_fields sample_waiting_status finalized_defs GetJobPath_def)

theorem UpdateJobUnlocked_load_witness:
  "\<exists>q'. UpdateJobUnlocked sample_getstate True sample_waiting sample_queue = Inr q' \<and>
     GetJobStatusForDependencies sample_load q' 7 = Inr OP_STATUS_WAITING"
  using UpdateJobUnlocked_load [OF sample_storable sample_update] sample_update
  by (simp add: sample_fields sample_waiting_status)

theorem UpdateJobUnlocked_replicates_witness:
  "\<exists>q'. UpdateJobUnlocked sample_getstate True sample_waiting sample_queue = Inr q' \<and>
     jq_remote q' ''a'' (JobPath 7) = jq_files q' (JobPath 7) \<and>
     jq_remote q' ''b'' (JobPath 7) = None \<and> jq_remote q' ''c'' (JobPath 7) = None"
  using UpdateJobUnlocked_replicates [OF sample_update] sample_update
  by (simp add: sample_fields sample_queue_def JobQueue_init_def GetJobPath_def)


theorem LoadJobUnlocked_corrupt_witness:
  "\<exists>q'. LoadJobUnlocked sample_load 8 sample_queue = Inr (None, q') \<and>
     jq_files q' (ArchivedJobPath 0 8) = Some BadText"
  using LoadJobUnlocked_corrupt [of sample_queue 8 BadText sample_load]
  by (auto simp: sample_queue_def JobQueue_init_def LoadJobFromDisk_def path_defs Let_def
      GetArchiveDirectory_def JOBS_PER_ARCHIVE_DIRECTORY_def)

end
