(* ===== verification/Job_Processor.thy ===== *)
theory Job_Processor
  imports Job_Store
begin

text \<open>
  The job processor (\<^verbatim>\<open>_OpExecCallbacks\<close> and \<^verbatim>\<open>_JobProcessor\<close> in
  \<^verbatim>\<open>lib/jqueue/__init__.py\<close>): the callbacks an executing opcode uses, the search for the next
  opcode, waiting for locks and for other jobs, and one call of the processor. The lemmas go
  through the stages of a call: every assertion of the code holds, and the job keeps its form
  (succeeded opcodes, the current one, untouched ones).
\<close>

section \<open>Model\<close>

subsection \<open>Errors of an opcode\<close>

text \<open>
  An exception that leaves the execution of an opcode: one of the \<^verbatim>\<open>GenericError\<close> family with
  its class and arguments, or any other with its class and text.
\<close>

datatype py_error = GenericErr string "json list" | OtherErr string string

definition EncodeException :: "string \<Rightarrow> json list \<Rightarrow> json" where
  "EncodeException cls args = JList [JStr cls, JList args]"

definition EncodeOpError :: "py_error \<Rightarrow> json" where
  "EncodeOpError err = (case err of
     GenericErr cls args \<Rightarrow> EncodeException cls args
   | OtherErr cls text \<Rightarrow>
       EncodeException ''OpExecError'' [JStr (if text \<noteq> [] then text else cls)])"

subsection \<open>Callbacks\<close>

text \<open>
  A callback works on the queue and on the job; what it changed before it raised stays changed,
  so it returns the state in both cases. The opcode is \<open>job.ops[i]\<close>.
\<close>

type_synonym pstate = "jqueue \<times> queued_job"

definition op_at :: "queued_job \<Rightarrow> nat \<Rightarrow> queued_op" where
  "op_at job i = qj_ops job ! i"

definition upd_op :: "nat \<Rightarrow> (queued_op \<Rightarrow> queued_op) \<Rightarrow> queued_job \<Rightarrow> queued_job" where
  "upd_op i f job = job\<lparr>qj_ops := (qj_ops job)[i := f (op_at job i)]\<rparr>"

definition cb_Update :: "(opcode \<Rightarrow> json) \<Rightarrow> bool \<Rightarrow> pstate \<Rightarrow> unit res \<times> pstate" where
  "cb_Update getstate repl st = (case st of (q, job) \<Rightarrow>
     (case UpdateJobUnlocked getstate repl job q of
        Inl e \<Rightarrow> (Inl e, (q, job)) | Inr q' \<Rightarrow> (Inr (), (q', job))))"

definition CheckCancel :: "nat \<Rightarrow> queued_job \<Rightarrow> unit res" where
  "CheckCancel i job = check (qo_status (op_at job i) \<noteq> OP_STATUS_CANCELING) CancelJob"

definition NotifyStart ::
  "(opcode \<Rightarrow> json) \<Rightarrow> timestamp \<Rightarrow> nat \<Rightarrow> pstate \<Rightarrow> unit res \<times> pstate" where
  "NotifyStart getstate now i st = (case st of (q, job) \<Rightarrow>
     if \<not> i < length (qj_ops job) then (Inl AssertionError, st)
     else if qo_status (op_at job i) \<notin> {OP_STATUS_WAITING, OP_STATUS_CANCELING}
     then (Inl AssertionError, st)
     else (case CheckCancel i job of
        Inl e \<Rightarrow> (Inl e, st)
      | Inr _ \<Rightarrow> cb_Update getstate True
          (q, upd_op i (\<lambda>op. op\<lparr>qo_status := OP_STATUS_RUNNING, qo_exec_timestamp := Some now\<rparr>) job)))"

definition NotifyRetry :: "nat \<Rightarrow> pstate \<Rightarrow> unit res \<times> pstate" where
  "NotifyRetry i st = (case st of (q, job) \<Rightarrow>
     (Inr (), (q, upd_op i (\<lambda>op. op\<lparr>qo_status := OP_STATUS_WAITING\<rparr>) job)))"

text \<open>Iterating over a value: the elements of a list, the characters of a text, the keys of
  a dictionary; anything else is a \<^verbatim>\<open>TypeError\<close> with the given text.\<close>

definition iter_json :: "json \<Rightarrow> json list res" where
  "iter_json v = (case v of
     JList vs \<Rightarrow> Inr vs
   | JStr s \<Rightarrow> Inr (map (\<lambda>c. JStr [c]) s)
   | JObj kvs \<Rightarrow> Inr (map (\<lambda>(k, _). JStr k) kvs)
   | JNull \<Rightarrow> Inl (OtherError (sq ''NoneType'' @ '' object is not iterable''))
   | JBool _ \<Rightarrow> Inl (OtherError (sq ''bool'' @ '' object is not iterable''))
   | JInt _ \<Rightarrow> Inl (OtherError (sq ''int'' @ '' object is not iterable'')))"

fun append_logs :: "nat \<Rightarrow> timestamp \<Rightarrow> json \<Rightarrow> json list \<Rightarrow> queued_job \<Rightarrow> queued_job" where
  "append_logs i ts log_type [] job = job"
| "append_logs i ts log_type (msg # msgs) job =
     (let serial = qj_log_serial job + 1 in
      append_logs i ts log_type msgs
        (upd_op i (\<lambda>op. op\<lparr>qo_log := qo_log op @ [(serial, ts, log_type, msg)]\<rparr>)
          (job\<lparr>qj_log_serial := serial\<rparr>)))"

definition AppendFeedback ::
  "(opcode \<Rightarrow> json) \<Rightarrow> timestamp \<Rightarrow> json \<Rightarrow> json \<Rightarrow> nat \<Rightarrow> pstate \<Rightarrow> unit res \<times> pstate" where
  "AppendFeedback getstate ts log_type log_msgs i st = (case st of (q, job) \<Rightarrow>
     (case (if log_type = ELOG_MESSAGE_LIST
            then res_bind (iter_json log_msgs) (\<lambda>ms. Inr (ELOG_MESSAGE, ms))
            else Inr (log_type, [log_msgs])) of
        Inl e \<Rightarrow> (Inl e, st)
      | Inr (lt, ms) \<Rightarrow> cb_Update getstate False (q, append_logs i ts lt ms job)))"

definition Feedback ::
  "(opcode \<Rightarrow> json) \<Rightarrow> timestamp \<Rightarrow> json list \<Rightarrow> nat \<Rightarrow> pstate \<Rightarrow> unit res \<times> pstate" where
  "Feedback getstate ts args i st =
     (if \<not> length args < 3 then (Inl AssertionError, st)
      else (case args of
         [] \<Rightarrow> (Inl ValueError, st)
       | [msg] \<Rightarrow> AppendFeedback getstate ts ELOG_MESSAGE msg i st
       | log_type # msg # _ \<Rightarrow> AppendFeedback getstate ts log_type msg i st))"

definition CurrentPriority :: "nat \<Rightarrow> queued_job \<Rightarrow> int res" where
  "CurrentPriority i job =
     res_bind (check (qo_status (op_at job i) \<in> {OP_STATUS_WAITING, OP_STATUS_CANCELING}) AssertionError)
       (\<lambda>_. res_bind (CheckCancel i job) (\<lambda>_. Inr (qo_priority (op_at job i))))"

subsection \<open>Executing an opcode\<close>

text \<open>
  \<^verbatim>\<open>opexec_fn\<close> reaches the job only through the callbacks, so what matters of one execution is
  the sequence of callbacks it makes and how it ends; a callback that raises ends it. While it
  runs, the job may be cancelled or get another priority through the queue.
\<close>

datatype cb_event =
    EvStart timestamp
  | EvRetry
  | EvFeedback timestamp "json list"
  | EvPriority
  | EvCancel timestamp
  | EvChangePriority int

datatype exec_outcome = Returned json | TimedOut | Cancelled | Raised py_error

definition queue_modify ::
  "(opcode \<Rightarrow> json) \<Rightarrow> (queued_job \<Rightarrow> ((bool \<times> string) \<times> queued_job) res) \<Rightarrow> pstate \<Rightarrow> pstate" where
  "queue_modify getstate mod_fn st = (case st of (q, job) \<Rightarrow>
     (case mod_fn job of
        Inl e \<Rightarrow> st
      | Inr ((success, _), job') \<Rightarrow>
          if success then snd (cb_Update getstate True (q, job')) else (q, job')))"

fun run_event :: "(opcode \<Rightarrow> json) \<Rightarrow> nat \<Rightarrow> cb_event \<Rightarrow> pstate \<Rightarrow> unit res \<times> pstate" where
  "run_event getstate i (EvStart now) st = NotifyStart getstate now i st"
| "run_event getstate i EvRetry st = NotifyRetry i st"
| "run_event getstate i (EvFeedback now args) st = Feedback getstate now args i st"
| "run_event getstate i EvPriority st = (res_bind (CurrentPriority i (snd st)) (\<lambda>_. Inr ()), st)"
| "run_event getstate i (EvCancel now) st = (Inr (), queue_modify getstate (Cancel now) st)"
| "run_event getstate i (EvChangePriority p) st =
     (Inr (), if p \<in> OP_PRIO_SUBMIT_VALID then queue_modify getstate (ChangePriority p) st else st)"

fun run_events :: "(opcode \<Rightarrow> json) \<Rightarrow> nat \<Rightarrow> cb_event list \<Rightarrow> pstate \<Rightarrow> unit res \<times> pstate" where
  "run_events getstate i [] st = (Inr (), st)"
| "run_events getstate i (e # es) st = (case run_event getstate i e st of
     (Inl x, st') \<Rightarrow> (Inl x, st')
   | (Inr _, st') \<Rightarrow> run_events getstate i es st')"

definition raised_outcome :: "exn \<Rightarrow> exec_outcome" where
  "raised_outcome e = (case e of
     CancelJob \<Rightarrow> Cancelled
   | LockAcquireTimeout \<Rightarrow> TimedOut
   | ValueError \<Rightarrow> Raised (OtherErr ''ValueError'' ''not enough values to unpack (expected 2, got 0)'')
   | OtherError text \<Rightarrow> Raised (OtherErr ''TypeError'' text)
   | _ \<Rightarrow> Raised (OtherErr ''AssertionError'' ''''))"

type_synonym exec_script = "timeout option \<Rightarrow> cb_event list \<times> exec_outcome"

definition opexec_fn ::
  "(opcode \<Rightarrow> json) \<Rightarrow> exec_script \<Rightarrow> timeout option \<Rightarrow> nat \<Rightarrow> pstate \<Rightarrow> exec_outcome \<times> pstate" where
  "opexec_fn getstate script timeout i st =
     (let (events, outcome) = script timeout;
          (r, st') = run_events getstate i events st in
      (case r of Inl e \<Rightarrow> raised_outcome e | Inr _ \<Rightarrow> outcome, st'))"

definition ExecOpCodeUnlocked ::
  "(opcode \<Rightarrow> json) \<Rightarrow> exec_script \<Rightarrow> opctx \<Rightarrow> pstate \<Rightarrow> ((op_status \<times> json) \<times> opctx \<times> pstate) res" where
  "ExecOpCodeUnlocked getstate script ctx st =
     (let i = ctx_index ctx; status = (\<lambda>s. qo_status (op_at (snd s) i)) in
      res_bind (check (status st \<in> {OP_STATUS_WAITING, OP_STATUS_CANCELING}) AssertionError) (\<lambda>_.
      if status st = OP_STATUS_CANCELING then Inr ((OP_STATUS_CANCELING, JNull), ctx, st)
      else
        (let (timeout, ctx') = GetNextLockTimeout ctx;
             (outcome, st') = opexec_fn getstate script timeout i st in
         case outcome of
           TimedOut \<Rightarrow>
             res_bind (check (timeout \<noteq> None) AssertionError) (\<lambda>_.
             res_bind (check (status st' \<in> {OP_STATUS_WAITING, OP_STATUS_CANCELING}) AssertionError) (\<lambda>_.
             if status st' = OP_STATUS_CANCELING then Inr ((OP_STATUS_CANCELING, JNull), ctx', st')
             else Inr ((OP_STATUS_WAITING, JNull), ctx', st')))
         | Cancelled \<Rightarrow>
             res_bind (check (status st' = OP_STATUS_CANCELING) AssertionError) (\<lambda>_.
             Inr ((OP_STATUS_CANCELING, JNull), ctx', st'))
         | Raised err \<Rightarrow> Inr ((OP_STATUS_ERROR, EncodeOpError err), ctx', st')
         | Returned result \<Rightarrow> Inr ((OP_STATUS_SUCCESS, result), ctx', st'))))"

subsection \<open>The job processor\<close>

datatype proc_result = DEFER | WAITDEP | FINISHED

text \<open>The places where a call reads the clock.\<close>

datatype clock_site = AtMarkWaitlock | AtDependencyCancel | AtOpEnd | AtFinalize

fun find_next :: "timeout list \<Rightarrow> nat \<Rightarrow> queued_op list \<Rightarrow> (opctx \<times> nat) res" where
  "find_next strategy idx [] = Inl (ProgrammerError ''Called for a finished job'')"
| "find_next strategy idx (op # ops) =
     (if qo_status op = OP_STATUS_RUNNING
      then Inl (ProgrammerError ''Called for job marked as running'')
      else if qo_status op \<notin> OPS_FINALIZED
      then Inr (OpExecContext op idx strategy, Suc idx)
      else find_next strategy (Suc idx) ops)"

definition FindNextOpcode :: "timeout list \<Rightarrow> queued_job \<Rightarrow> (opctx \<times> queued_job) res" where
  "FindNextOpcode strategy job =
     (let pos = (case qj_ops_iter job of None \<Rightarrow> 0 | Some n \<Rightarrow> n) in
      res_bind (find_next strategy pos (drop pos (qj_ops job))) (\<lambda>(ctx, n).
        Inr (ctx, job\<lparr>qj_ops_iter := Some n\<rparr>)))"

definition MarkWaitlock :: "timestamp \<Rightarrow> nat \<Rightarrow> queued_job \<Rightarrow> (bool \<times> queued_job) res" where
  "MarkWaitlock now i job =
     (let op = op_at job i in
      res_bind (check (i < length (qj_ops job)) AssertionError) (\<lambda>_.
      res_bind (check (qo_status op \<in> {OP_STATUS_QUEUED, OP_STATUS_WAITING}) AssertionError) (\<lambda>_.
      (let update1 = (qo_status op = OP_STATUS_QUEUED);
           update2 = (qo_start_timestamp op = None);
           update3 = (qj_start_timestamp job = None);
           start = (case qo_start_timestamp op of None \<Rightarrow> Some now | Some t \<Rightarrow> Some t);
           job' = upd_op i (\<lambda>op. op\<lparr>qo_result := JNull, qo_status := OP_STATUS_WAITING,
                                  qo_start_timestamp := start\<rparr>) job in
       Inr (update1 \<or> update2 \<or> update3,
            if update3 then job'\<lparr>qj_start_timestamp := start\<rparr> else job')))))"

fun dep_loop ::
  "(int \<Rightarrow> op_status option) \<Rightarrow> timestamp \<Rightarrow> nat \<Rightarrow> job_dep list \<Rightarrow> waiters \<Rightarrow> queued_job \<Rightarrow>
   (bool \<times> job_dep list \<times> waiters \<times> queued_job) res" where
  "dep_loop getstatus now i [] w job = Inr (False, [], w, job)"
| "dep_loop getstatus now i ((dep_job_id, dep_status) # deps) w job =
     res_bind (CheckAndRegister getstatus w (qj_id job) dep_job_id dep_status) (\<lambda>((depresult, depmsg), w').
     res_bind (check (depmsg \<noteq> []) AssertionError) (\<lambda>_.
       case depresult of
         DEP_CONTINUE \<Rightarrow> dep_loop getstatus now i deps w' job
       | DEP_WAIT \<Rightarrow> Inr (True, (dep_job_id, dep_status) # deps, w', job)
       | DEP_CANCEL \<Rightarrow>
           res_bind (Cancel now job) (\<lambda>(_, job').
           res_bind (check (qo_status (op_at job' i) = OP_STATUS_CANCELING) AssertionError) (\<lambda>_.
             Inr (False, (dep_job_id, dep_status) # deps, w', job')))
       | _ \<Rightarrow>
           Inr (False, (dep_job_id, dep_status) # deps, w',
             upd_op i (\<lambda>op. op\<lparr>qo_status := OP_STATUS_ERROR,
                qo_result := EncodeOpError (GenericErr ''OpExecError'' [JStr depmsg])\<rparr>) job)))"

definition CheckDependencies ::
  "(json \<Rightarrow> opcode res) \<Rightarrow> timestamp \<Rightarrow> opctx \<Rightarrow> pstate \<Rightarrow> (bool \<times> opctx \<times> pstate) res" where
  "CheckDependencies load now ctx st = (case st of (q, job) \<Rightarrow>
     (case ctx_jobdeps ctx of
        None \<Rightarrow> Inr (False, ctx, st)
      | Some deps \<Rightarrow>
          res_bind (dep_loop (dep_status_fn load q) now (ctx_index ctx) deps (jq_waiters q) job)
            (\<lambda>(waitjob, deps', w, job').
              Inr (waitjob, ctx\<lparr>ctx_jobdeps := Some deps'\<rparr>, (q\<lparr>jq_waiters := w\<rparr>, job')))))"

text \<open>
  The part of \<^verbatim>\<open>__call__\<close> that tries to run the opcode: mark it, write the job if that changed
  it, check the dependencies, execute, and stamp the end of an opcode that is done.
\<close>

definition call_attempt ::
  "(json \<Rightarrow> opcode res) \<Rightarrow> (opcode \<Rightarrow> json) \<Rightarrow> (clock_site \<Rightarrow> timestamp) \<Rightarrow> exec_script \<Rightarrow>
   opctx \<Rightarrow> pstate \<Rightarrow> (bool \<times> opctx \<times> pstate) res" where
  "call_attempt load getstate clock script ctx st = (case st of (q, job) \<Rightarrow>
     (let i = ctx_index ctx; status = (\<lambda>j. qo_status (op_at j i)) in
      res_bind (check (status job \<in> {OP_STATUS_QUEUED, OP_STATUS_WAITING}) AssertionError) (\<lambda>_.
      res_bind (MarkWaitlock (clock AtMarkWaitlock) i job) (\<lambda>(update, job1).
      res_bind (if update then UpdateJobUnlocked getstate True job1 q else Inr q) (\<lambda>q1.
      res_bind (check (status job1 = OP_STATUS_WAITING) AssertionError) (\<lambda>_.
      res_bind (check (CalcStatus job1 = JOB_STATUS_WAITING) AssertionError) (\<lambda>_.
      res_bind (check (qj_start_timestamp job1 \<noteq> None \<and> qo_start_timestamp (op_at job1 i) \<noteq> None)
        AssertionError) (\<lambda>_.
      res_bind (CheckDependencies load (clock AtDependencyCancel) ctx (q1, job1)) (\<lambda>(waitjob, ctx2, q2, job2).
      res_bind (check (status job2 \<in> {OP_STATUS_WAITING, OP_STATUS_CANCELING, OP_STATUS_ERROR})
        AssertionError) (\<lambda>_.
      res_bind
        (if \<not> (waitjob \<or> status job2 \<in> {OP_STATUS_CANCELING, OP_STATUS_ERROR}) then
           res_bind (check (ctx_jobdeps ctx2 = None \<or> ctx_jobdeps ctx2 = Some []) AssertionError) (\<lambda>_.
           res_bind (ExecOpCodeUnlocked getstate script ctx2 (q2, job2)) (\<lambda>((op_status, op_result), ctx3, q3, job3).
             Inr (ctx3, q3, upd_op i (\<lambda>op. op\<lparr>qo_status := op_status, qo_result := op_result\<rparr>) job3)))
         else Inr (ctx2, q2, job2)) (\<lambda>(ctx3, q3, job3).
      if status job3 \<in> {OP_STATUS_WAITING, OP_STATUS_QUEUED} then
        res_bind (check (qo_end_timestamp (op_at job3 i) = None) AssertionError) (\<lambda>_.
          Inr (waitjob, ctx3, (q3, job3)))
      else
        (let job4 = upd_op i (\<lambda>op. op\<lparr>qo_end_timestamp := Some (clock AtOpEnd)\<rparr>) job3 in
         res_bind
           (if status job4 = OP_STATUS_CANCELING
            then check (list_all (\<lambda>op. qo_status op = OP_STATUS_CANCELING) (drop i (qj_ops job4))) AssertionError
            else check (status job4 \<in> OPS_FINALIZED) AssertionError) (\<lambda>_.
           Inr (waitjob, ctx3, (q3, job4)))))))))))))))"

text \<open>
  The part of \<^verbatim>\<open>__call__\<close> after the attempt: keep the context for another round, or finish the
  opcode and, if it was the last or did not succeed, the job.
\<close>

definition call_finish ::
  "(opcode \<Rightarrow> json) \<Rightarrow> timeout list \<Rightarrow> (clock_site \<Rightarrow> timestamp) \<Rightarrow> nat \<Rightarrow> bool \<Rightarrow> opctx \<Rightarrow> pstate \<Rightarrow>
   (proc_result \<times> pstate) res" where
  "call_finish getstate strategy clock opcount waitjob ctx st = (case st of (q, job) \<Rightarrow>
     (let i = ctx_index ctx; op = op_at job i;
          leave = (\<lambda>(q', job'). res_bind (check (\<not> waitjob \<or> JobWaiting (jq_waiters q') (qj_id job'))
            AssertionError) (\<lambda>_. Inr (if waitjob then WAITDEP else DEFER, (q', job')))) in
      if qo_status op = OP_STATUS_QUEUED then
        res_bind (check (\<not> waitjob) AssertionError) (\<lambda>_.
        (let job1 = job\<lparr>qj_cur_opctx := None\<rparr> in
         res_bind (check (CalcStatus job1 = JOB_STATUS_QUEUED) AssertionError) (\<lambda>_. leave (q, job1))))
      else if qo_status op = OP_STATUS_WAITING \<or> waitjob then
        (let (increased, ctx1, op1) =
               (if \<not> waitjob then CheckPriorityIncrease strategy ctx op else (False, ctx, op));
             job1 = upd_op i (\<lambda>_. op1) job in
         res_bind (if increased then UpdateJobUnlocked getstate True job1 q else Inr q) (\<lambda>q1.
         (let job2 = job1\<lparr>qj_cur_opctx := Some ctx1\<rparr> in
          res_bind (check (qo_priority (op_at job2 i) \<le> OP_PRIO_LOWEST \<and>
                           qo_priority (op_at job2 i) \<ge> OP_PRIO_HIGHEST) AssertionError) (\<lambda>_.
          res_bind (check (CalcStatus job2 = JOB_STATUS_WAITING) AssertionError) (\<lambda>_. leave (q1, job2))))))
      else
        res_bind (check (i = 0 \<or> list_all (\<lambda>op. qo_status op = OP_STATUS_SUCCESS) (take i (qj_ops job)))
          AssertionError) (\<lambda>_.
        (let job1 = job\<lparr>qj_cur_opctx := None\<rparr> in
         res_bind
           (case qo_status op of
              OP_STATUS_SUCCESS \<Rightarrow> Inr (False, job1)
            | OP_STATUS_ERROR \<Rightarrow>
                res_bind (MarkUnfinishedOps OP_STATUS_ERROR
                  (EncodeOpError (GenericErr ''OpExecError'' [JStr ''Preceding opcode failed''])) job1)
                  (\<lambda>j. Inr (True, j))
            | OP_STATUS_CANCELING \<Rightarrow>
                res_bind (MarkUnfinishedOps OP_STATUS_CANCELED (JStr ''Job canceled by request'') job1)
                  (\<lambda>j. Inr (True, j))
            | s \<Rightarrow> Inl (ProgrammerError (''Unknown status '' @ sq (status_text s)))) (\<lambda>(fin, job2).
         (let finalize = (fin \<or> i + 1 = opcount);
              job3 = (if finalize then Finalize (clock AtFinalize) job2 else job2) in
          res_bind (UpdateJobUnlocked getstate True job3 q) (\<lambda>q1.
          res_bind (check (\<not> waitjob) AssertionError) (\<lambda>_.
            if finalize then Inr (FINISHED, (q1, job3)) else leave (q1, job3)))))))))"

definition JobProcessor_call ::
  "(json \<Rightarrow> opcode res) \<Rightarrow> (opcode \<Rightarrow> json) \<Rightarrow> timeout list \<Rightarrow> (clock_site \<Rightarrow> timestamp) \<Rightarrow> exec_script \<Rightarrow>
   pstate \<Rightarrow> (proc_result \<times> pstate) res" where
  "JobProcessor_call load getstate strategy clock script st = (case st of (q, job) \<Rightarrow>
     (let opcount = length (qj_ops job) in
      res_bind
        (res_bind (check (qj_writable job) AssertionError) (\<lambda>_.
         if CalcStatus job \<in> JOBS_FINALIZED then Inr (FINISHED, st)
         else
           res_bind
             (case qj_cur_opctx job of
                Some ctx \<Rightarrow> Inr (ctx, job\<lparr>qj_cur_opctx := None\<rparr>)
              | None \<Rightarrow> FindNextOpcode strategy job) (\<lambda>(ctx, job1).
           (let i = ctx_index ctx; op = op_at job1 i in
            res_bind (check (list_all (\<lambda>op. qo_status op \<in> {OP_STATUS_QUEUED, OP_STATUS_CANCELING})
              (drop (i + 1) (qj_ops job1))) AssertionError) (\<lambda>_.
            res_bind (check (qo_status op \<in> {OP_STATUS_QUEUED, OP_STATUS_WAITING, OP_STATUS_CANCELING})
              AssertionError) (\<lambda>_.
            res_bind (check (qo_priority op \<le> OP_PRIO_LOWEST \<and> qo_priority op \<ge> OP_PRIO_HIGHEST)
              AssertionError) (\<lambda>_.
            res_bind
              (if qo_status op \<noteq> OP_STATUS_CANCELING
               then call_attempt load getstate clock script ctx (q, job1)
               else Inr (False, ctx, (q, job1))) (\<lambda>(waitjob, ctx1, st1).
            call_finish getstate strategy clock opcount waitjob ctx1 st1))))))))
        (\<lambda>(result, (q', job')).
          res_bind (check (qj_writable job') AssertionError) (\<lambda>_. Inr (result, (q', job'))))))"

section \<open>The invariant between calls\<close>

definition deps_ok :: "job_dep list \<Rightarrow> bool" where
  "deps_ok deps \<longleftrightarrow> list_all (\<lambda>(d, ss). 0 \<le> d \<and> list_all (\<lambda>s. s \<in> JOBS_FINALIZED) ss) deps"

definition op_ok :: "queued_op \<Rightarrow> bool" where
  "op_ok op \<longleftrightarrow> OP_PRIO_HIGHEST \<le> qo_priority op \<and> qo_priority op \<le> OP_PRIO_LOWEST \<and>
     (case op_depends (qo_input op) of None \<Rightarrow> True | Some ds \<Rightarrow> deps_ok ds) \<and>
     (qo_status op \<in> {OP_STATUS_QUEUED, OP_STATUS_WAITING, OP_STATUS_RUNNING} \<longrightarrow> qo_end_timestamp op = None)"

definition job_base :: "(json \<Rightarrow> opcode res) \<Rightarrow> (opcode \<Rightarrow> json) \<Rightarrow> queued_job \<Rightarrow> bool" where
  "job_base load getstate job \<longleftrightarrow> qj_writable job \<and> \<not> qj_archived job \<and> 0 \<le> qj_id job \<and>
     list_all op_ok (qj_ops job) \<and> storable load getstate job"

text \<open>\<open>n\<close> opcodes succeeded, the next one has status \<open>s\<close>, and \<open>m\<close> follow it.\<close>

definition job_form :: "nat \<Rightarrow> nat \<Rightarrow> op_status \<Rightarrow> queued_job \<Rightarrow> bool" where
  "job_form n m s job \<longleftrightarrow> statuses job = replicate n OP_STATUS_SUCCESS @ tail_of s m"

text \<open>The control fields that callbacks leave alone.\<close>

definition same_ctl :: "queued_job \<Rightarrow> queued_job \<Rightarrow> bool" where
  "same_ctl job job' \<longleftrightarrow> qj_id job' = qj_id job \<and> qj_ops_iter job' = qj_ops_iter job \<and>
     qj_cur_opctx job' = qj_cur_opctx job"

lemma same_ctl_refl [simp]: "same_ctl job job" and
  same_ctl_upd [simp]: "same_ctl job (upd_op i f job') = same_ctl job job'" and
  same_ctl_mark [simp]: "same_ctl job (mark_job st r job') = same_ctl job job'" and
  same_ctl_ops [simp]: "same_ctl job (job'\<lparr>qj_ops := ops\<rparr>) = same_ctl job job'" and
  same_ctl_serial [simp]: "same_ctl job (job'\<lparr>qj_log_serial := k\<rparr>) = same_ctl job job'"
  by (simp_all add: same_ctl_def upd_op_def mark_job_def Let_def)

lemma same_ctl_trans: "same_ctl a b \<Longrightarrow> same_ctl b c \<Longrightarrow> same_ctl a c"
  by (simp add: same_ctl_def)

lemma upd_op_fields [simp]:
  "qj_id (upd_op i f job) = qj_id job" "qj_ops_iter (upd_op i f job) = qj_ops_iter job"
  "qj_cur_opctx (upd_op i f job) = qj_cur_opctx job" "qj_end_timestamp (upd_op i f job) = qj_end_timestamp job"
  "qj_writable (upd_op i f job) = qj_writable job" "qj_archived (upd_op i f job) = qj_archived job"
  "qj_start_timestamp (upd_op i f job) = qj_start_timestamp job"
  "length (qj_ops (upd_op i f job)) = length (qj_ops job)"
  by (simp_all add: upd_op_def)

lemma op_at_upd [simp]: "i < length (qj_ops job) \<Longrightarrow> op_at (upd_op i f job) i = f (op_at job i)"
  by (simp add: op_at_def upd_op_def)

lemma statuses_upd: "i < length (qj_ops job) \<Longrightarrow>
    statuses (upd_op i f job) = (statuses job)[i := qo_status (f (op_at job i))]"
  by (simp add: statuses_def upd_op_def map_update)

lemma list_all_upd: "list_all P xs \<Longrightarrow> P x \<Longrightarrow> list_all P (xs[i := x])"
  by (auto simp: list_all_iff dest: set_update_subset_insert [THEN subsetD])

lemma map_upd_same: "g (f (xs ! i)) = g (xs ! i) \<Longrightarrow> map g (xs[i := f (xs ! i)]) = map g xs"
  by (cases "i < length xs") (auto intro!: nth_equalityI simp: nth_list_update list_update_beyond)

lemma op_ok_at: "job_base load getstate job \<Longrightarrow> i < length (qj_ops job) \<Longrightarrow> op_ok (op_at job i)"
  by (simp add: job_base_def list_all_length op_at_def)

lemma job_base_upd:
  assumes "job_base load getstate job" and "i < length (qj_ops job)"
    and "op_ok (op_at job i) \<Longrightarrow> op_ok (f (op_at job i))"
    and "qo_log (f (op_at job i)) = qo_log (op_at job i)"
    and "qo_input (f (op_at job i)) = qo_input (op_at job i)"
  shows "job_base load getstate (upd_op i f job)"
proof -
  have "op_ok (f (op_at job i))" by (rule assms(3) [OF op_ok_at [OF assms(1,2)]])
  moreover have "storable load getstate (upd_op i f job)"
    using assms unfolding upd_op_def op_at_def
    by (intro storable_update_ops) (simp_all add: job_base_def map_upd_same)
  ultimately show ?thesis using assms(1)
    by (simp add: job_base_def) (simp add: upd_op_def list_all_upd)
qed

lemma job_form_facts:
  assumes "job_form n m s job" and "s \<noteq> OP_STATUS_SUCCESS"
  shows "n < length (qj_ops job)" and "length (qj_ops job) = n + Suc m"
    and "qo_status (op_at job n) = s" and "CalcStatus job = s" and "done_count (statuses job) = n"
    and "ops_shape (statuses job)"
proof -
  have st: "statuses job = replicate n OP_STATUS_SUCCESS @ tail_of s m" using assms(1) by (simp add: job_form_def)
  have "length (statuses job) = n + Suc m" using assms(2) by (simp add: st length_tail_of)
  then show len: "length (qj_ops job) = n + Suc m" by (simp add: statuses_def)
  then show n: "n < length (qj_ops job)" by simp
  have "statuses job ! n = s" using assms(2) by (simp add: st nth_append tail_of_def)
  then show "qo_status (op_at job n) = s" using n by (simp add: statuses_def op_at_def)
  show "CalcStatus job = s" by (simp only: CalcStatus_statuses st statuses_status_shape)
  show "done_count (statuses job) = n" by (simp only: st done_count_shape)
  show "ops_shape (statuses job)" by (rule ops_shapeI [OF st])
qed

lemma tail_of_Cons: "s \<noteq> OP_STATUS_SUCCESS \<Longrightarrow>
    tail_of s m = s # replicate m (if s = OP_STATUS_WAITING \<or> s = OP_STATUS_RUNNING then OP_STATUS_QUEUED else s)"
  by (auto simp: tail_of_def)

lemma statuses_upd_form:
  assumes "job_form n m s job" and "s \<noteq> OP_STATUS_SUCCESS"
  shows "statuses (upd_op n f job) = replicate n OP_STATUS_SUCCESS @ qo_status (f (op_at job n))
     # replicate m (if s = OP_STATUS_WAITING \<or> s = OP_STATUS_RUNNING then OP_STATUS_QUEUED else s)"
  using assms job_form_facts(1) [OF assms]
  by (simp add: statuses_upd job_form_def tail_of_Cons list_update_append)

text \<open>While an opcode executes.\<close>

definition in_exec :: "(json \<Rightarrow> opcode res) \<Rightarrow> (opcode \<Rightarrow> json) \<Rightarrow> nat \<Rightarrow> nat \<Rightarrow> op_status \<Rightarrow> queued_job \<Rightarrow> bool" where
  "in_exec load getstate n m s job \<longleftrightarrow> job_base load getstate job \<and> qj_end_timestamp job = None \<and>
     s \<in> {OP_STATUS_WAITING, OP_STATUS_RUNNING, OP_STATUS_CANCELING} \<and> job_form n m s job"

lemma in_exec_facts:
  assumes "in_exec load getstate n m s job"
  shows "job_base load getstate job" and "qj_end_timestamp job = None" and "job_form n m s job"
    and "n < length (qj_ops job)" and "qo_status (op_at job n) = s" and "CalcStatus job = s"
    and "ops_shape (statuses job)" and "s \<in> {OP_STATUS_WAITING, OP_STATUS_RUNNING, OP_STATUS_CANCELING}"
    and "done_count (statuses job) = n"
  using assms job_form_facts [of n m s job] by (auto simp: in_exec_def)

lemma in_exec_update:
  assumes "in_exec load getstate n m s job"
  shows "UpdateJobUnlocked getstate repl job q =
    Inr (UpdateJobQueueFile (GetJobPath (qj_id job)) (JobText (QueuedJob_Serialize getstate job)) repl q)"
  using in_exec_facts [OF assms] by (auto simp: UpdateJobUnlocked_Inr job_base_def finalized_defs)

lemma in_exec_cb_Update:
  assumes "in_exec load getstate n m s job"
  shows "cb_Update getstate repl (q, job) =
    (Inr (), (UpdateJobQueueFile (GetJobPath (qj_id job)) (JobText (QueuedJob_Serialize getstate job)) repl q, job))"
  by (simp add: cb_Update_def in_exec_update [OF assms])

lemma in_exec_upd:
  assumes "in_exec load getstate n m s job"
    and "op_ok (op_at job n) \<Longrightarrow> op_ok (f (op_at job n))"
    and "qo_log (f (op_at job n)) = qo_log (op_at job n)"
    and "qo_input (f (op_at job n)) = qo_input (op_at job n)"
    and "qo_status (f (op_at job n)) = t"
    and "s = t \<or> s \<in> {OP_STATUS_WAITING, OP_STATUS_RUNNING} \<and> t \<in> {OP_STATUS_WAITING, OP_STATUS_RUNNING}"
  shows "in_exec load getstate n m t (upd_op n f job)"
proof -
  note F = in_exec_facts [OF assms(1)]
  have "s \<noteq> OP_STATUS_SUCCESS" "t \<noteq> OP_STATUS_SUCCESS" using assms(6) F(8) by auto
  then have "job_form n m t (upd_op n f job)"
    using statuses_upd_form [OF F(3), of f] assms(5,6) by (auto simp: job_form_def tail_of_Cons)
  moreover have "job_base load getstate (upd_op n f job)"
    by (rule job_base_upd [OF F(1,4)]) (fact assms(2-4))+
  ultimately show ?thesis using F(2,8) assms(6) by (auto simp: in_exec_def)
qed

lemma serials_insert:
  assumes "distinct (A @ L @ B)" and "set (A @ L @ B) = {1..k}" and "0 \<le> (k :: int)"
  shows "distinct (A @ (L @ [k + 1]) @ B) \<and> set (A @ (L @ [k + 1]) @ B) = {1..k + 1}"
proof -
  have "k + 1 \<notin> set (A @ L @ B)" using assms(2) by simp
  moreover have "{1..k + 1} = insert (k + 1) {1..k}" using assms(3) by auto
  moreover have "set (A @ (L @ [k + 1]) @ B) = insert (k + 1) (set (A @ L @ B))" by auto
  ultimately show ?thesis using assms(1,2) by auto
qed

lemma log_wf_append:
  assumes "log_wf job" and "i < length (qj_ops job)"
  shows "log_wf (upd_op i (\<lambda>op. op\<lparr>qo_log := qo_log op @ [(qj_log_serial job + 1, ts, lt, msg)]\<rparr>)
     (job\<lparr>qj_log_serial := qj_log_serial job + 1\<rparr>))"
proof -
  let ?e = "(qj_log_serial job + 1, ts, lt, msg)"
  let ?ops = "qj_ops job"
  let ?A = "concat (map qo_log (take i ?ops))" and ?B = "concat (map qo_log (drop (Suc i) ?ops))"
  have "job_log job = concat (map qo_log (take i ?ops @ ?ops ! i # drop (Suc i) ?ops))"
    using assms(2) by (simp only: job_log_def id_take_nth_drop [symmetric])
  then have old: "job_log job = ?A @ qo_log (?ops ! i) @ ?B" by simp
  have "job_log (upd_op i (\<lambda>op. op\<lparr>qo_log := qo_log op @ [?e]\<rparr>) (job\<lparr>qj_log_serial := qj_log_serial job + 1\<rparr>))
      = ?A @ (qo_log (?ops ! i) @ [?e]) @ ?B"
    using assms(2) by (simp add: job_log_def upd_op_def op_at_def upd_conv_take_nth_drop)
  then show ?thesis
    using assms(1) serials_insert [of "map fst ?A" "map fst (qo_log (?ops ! i))" "map fst ?B" "qj_log_serial job"]
    unfolding log_wf_def old by (simp add: upd_op_def)
qed

lemma in_exec_append_logs:
  assumes "in_exec load getstate n m s job"
  shows "in_exec load getstate n m s (append_logs n ts lt ms job) \<and> same_ctl job (append_logs n ts lt ms job)"
  using assms
proof (induction ms arbitrary: job)
  case (Cons msg ms)
  let ?job = "upd_op n (\<lambda>op. op\<lparr>qo_log := qo_log op @ [(qj_log_serial job + 1, ts, lt, msg)]\<rparr>)
     (job\<lparr>qj_log_serial := qj_log_serial job + 1\<rparr>)"
  note F = in_exec_facts [OF Cons.prems]
  have inputs: "map qo_input (qj_ops ?job) = map qo_input (qj_ops job)"
    unfolding upd_op_def op_at_def by (simp add: map_upd_same)
  have "log_wf ?job" by (rule log_wf_append) (use F in \<open>simp_all add: job_base_def storable_def\<close>)
  moreover have "\<forall>op \<in> set (qj_ops ?job). load (getstate (qo_input op)) = Inr (qo_input op)"
    using F(1) arg_cong [OF inputs, of set] by (force simp: job_base_def storable_def)
  ultimately have "storable load getstate ?job" by (simp add: storable_def)
  moreover have "list_all op_ok (qj_ops ?job)"
    using F(1) op_ok_at [OF F(1,4)] by (simp add: job_base_def upd_op_def list_all_upd op_at_def op_ok_def)
  moreover have "statuses ?job = statuses job"
    unfolding statuses_def upd_op_def op_at_def by (simp add: map_upd_same)
  ultimately have "in_exec load getstate n m s ?job"
    using Cons.prems by (simp add: in_exec_def job_base_def job_form_def)
  from Cons.IH [OF this] show ?case by (simp add: Let_def same_ctl_def)
qed simp

lemma in_exec_mark:
  assumes "in_exec load getstate n m OP_STATUS_WAITING job"
  shows "in_exec load getstate n m OP_STATUS_CANCELING (mark_job OP_STATUS_CANCELING r job)"
proof -
  note F = in_exec_facts [OF assms]
  have "statuses (mark_job OP_STATUS_CANCELING r job) = replicate n OP_STATUS_SUCCESS @ tail_of OP_STATUS_CANCELING m"
    using statuses_marked [of "qj_ops job" n OP_STATUS_WAITING m OP_STATUS_CANCELING r] F(3,9)
    by (simp add: mark_job_def job_form_def statuses_def Let_def)
  moreover have "list_all op_ok (qj_ops (mark_job OP_STATUS_CANCELING r job))"
    using F(1) unfolding job_base_def mark_job_def Let_def
    by (auto simp: list_all_iff op_ok_def dest: in_set_takeD in_set_dropD)
  ultimately show ?thesis using F(1,2)
    by (simp add: in_exec_def job_base_def job_form_def storable_mark_job)
qed

lemma in_exec_prio:
  assumes "in_exec load getstate n m s job" and "p \<in> OP_PRIO_SUBMIT_VALID"
  shows "in_exec load getstate n m s (job\<lparr>qj_ops := map (set_pending_prio p) (qj_ops job)\<rparr>)"
proof -
  let ?ops = "map (set_pending_prio p) (qj_ops job)"
  note F = in_exec_facts [OF assms(1)]
  have "storable load getstate (job\<lparr>qj_ops := ?ops\<rparr>)"
    by (rule storable_update_ops) (use F(1) in \<open>simp_all add: job_base_def set_pending_prio_def comp_def if_distrib cong: if_cong\<close>)
  moreover have "list_all op_ok ?ops"
    using F(1) assms(2) by (auto simp: job_base_def list_all_iff op_ok_def set_pending_prio_def prio_defs)
  moreover have "statuses (job\<lparr>qj_ops := ?ops\<rparr>) = statuses job"
    unfolding statuses_update statuses_set_pending_prio by (simp add: statuses_def)
  ultimately show ?thesis using assms(1) by (simp add: in_exec_def job_base_def job_form_def)
qed

section \<open>The protocol of an execution\<close>

text \<open>
  What the executing code promises (\<^verbatim>\<open>Processor._LockAndExecLU\<close> keeps it): it announces a retry
  only after it announced a start, it reports a lock timeout only while it is not started, and
  it does not raise \<^verbatim>\<open>CancelJob\<close> itself. \<open>exec_protocol\<close> adds that an execution without a lock
  timeout does not report one.
\<close>

fun started_after :: "bool \<Rightarrow> cb_event \<Rightarrow> bool" where
  "started_after b (EvStart _) = True"
| "started_after b EvRetry = False"
| "started_after b _ = b"

fun script_ok :: "bool \<Rightarrow> cb_event list \<Rightarrow> exec_outcome \<Rightarrow> bool" where
  "script_ok started [] outcome \<longleftrightarrow> (outcome = TimedOut \<longrightarrow> \<not> started) \<and> outcome \<noteq> Cancelled"
| "script_ok started (e # es) outcome \<longleftrightarrow>
     (e = EvRetry \<longrightarrow> started) \<and> script_ok (started_after started e) es outcome"

definition exec_protocol :: "exec_script \<Rightarrow> bool" where
  "exec_protocol script \<longleftrightarrow>
     (\<forall>t. script_ok False (fst (script t)) (snd (script t))) \<and> snd (script None) \<noteq> TimedOut"

text \<open>What is known after a callback or a sequence of them.\<close>

definition ev_post ::
  "(json \<Rightarrow> opcode res) \<Rightarrow> (opcode \<Rightarrow> json) \<Rightarrow> nat \<Rightarrow> nat \<Rightarrow> jqueue \<Rightarrow> queued_job \<Rightarrow> bool \<Rightarrow>
   unit res \<times> pstate \<Rightarrow> bool" where
  "ev_post load getstate n m q job started r = (case r of (x, (q', job')) \<Rightarrow>
     \<exists>s. in_exec load getstate n m s job' \<and> same_ctl job job' \<and> jq_waiters q' = jq_waiters q \<and>
        (case x of
           Inr _ \<Rightarrow> (s = OP_STATUS_RUNNING \<longleftrightarrow> started)
         | Inl e \<Rightarrow> e \<noteq> LockAcquireTimeout \<and> (e = CancelJob \<longrightarrow> s = OP_STATUS_CANCELING)))"

lemma UpdateJobQueueFile_waiters [simp]: "jq_waiters (UpdateJobQueueFile p c r q) = jq_waiters q"
  by (simp add: UpdateJobQueueFile_def GetNodeIp_def Let_def)

lemma ev_post_raise:
  "in_exec load getstate n m s job \<Longrightarrow> e \<noteq> LockAcquireTimeout \<Longrightarrow>
   (e = CancelJob \<longrightarrow> s = OP_STATUS_CANCELING) \<Longrightarrow> ev_post load getstate n m q job b (Inl e, (q, job))"
  by (auto simp: ev_post_def)

lemma ev_post_same:
  "in_exec load getstate n m s job \<Longrightarrow> (s = OP_STATUS_RUNNING \<longleftrightarrow> b) \<Longrightarrow>
   ev_post load getstate n m q job b (Inr (), (q, job))"
  by (auto simp: ev_post_def)

lemma ev_post_write:
  assumes "in_exec load getstate n m s job'" and "same_ctl job job'" and "s = OP_STATUS_RUNNING \<longleftrightarrow> b"
  shows "ev_post load getstate n m q job b (cb_Update getstate repl (q, job'))"
  using assms by (auto simp: ev_post_def in_exec_cb_Update [OF assms(1)])

lemma NotifyStart_post:
  assumes "in_exec load getstate n m s job"
  shows "ev_post load getstate n m q job True (NotifyStart getstate now n (q, job))"
proof -
  note F = in_exec_facts [OF assms]
  let ?f = "\<lambda>op. op\<lparr>qo_status := OP_STATUS_RUNNING, qo_exec_timestamp := Some now\<rparr>"
  consider "s = OP_STATUS_RUNNING" | "s = OP_STATUS_CANCELING" | "s = OP_STATUS_WAITING" using F(8) by auto
  then show ?thesis
  proof cases
    case 3
    have "in_exec load getstate n m OP_STATUS_RUNNING (upd_op n ?f job)"
      using F(5) 3 by (intro in_exec_upd [OF assms]) (auto simp: op_ok_def)
    then have "ev_post load getstate n m q job True (cb_Update getstate True (q, upd_op n ?f job))"
      by (rule ev_post_write) simp_all
    then show ?thesis using F(4,5) 3 by (simp add: NotifyStart_def CheckCancel_def)
  qed (use assms F(4,5) in \<open>simp_all add: NotifyStart_def CheckCancel_def ev_post_raise\<close>)
qed

lemma NotifyRetry_post:
  assumes "in_exec load getstate n m OP_STATUS_RUNNING job"
  shows "ev_post load getstate n m q job False (NotifyRetry n (q, job))"
proof -
  let ?f = "\<lambda>op. op\<lparr>qo_status := OP_STATUS_WAITING\<rparr>"
  have "in_exec load getstate n m OP_STATUS_WAITING (upd_op n ?f job)"
    using in_exec_facts(5) [OF assms] by (intro in_exec_upd [OF assms]) (auto simp: op_ok_def)
  then show ?thesis by (auto simp: NotifyRetry_def ev_post_def)
qed

lemma AppendFeedback_post:
  assumes "in_exec load getstate n m s job" and "s = OP_STATUS_RUNNING \<longleftrightarrow> b"
  shows "ev_post load getstate n m q job b (AppendFeedback getstate ts lt msgs n (q, job))"
proof -
  have w: "ev_post load getstate n m q job b (cb_Update getstate False (q, append_logs n ts l ms job))" for l ms
    using in_exec_append_logs [OF assms(1), of ts l ms] assms(2) by (intro ev_post_write) auto
  have "ev_post load getstate n m q job b (Inl (OtherError t), (q, job))" for t
    using assms(1) by (simp add: ev_post_raise)
  with w show ?thesis
    by (cases msgs) (auto simp: AppendFeedback_def iter_json_def simp del: append_logs.simps)
qed

lemma Feedback_post:
  assumes "in_exec load getstate n m s job" and "s = OP_STATUS_RUNNING \<longleftrightarrow> b"
  shows "ev_post load getstate n m q job b (Feedback getstate ts args n (q, job))"
  using ev_post_raise [OF assms(1), of _ q b] AppendFeedback_post [OF assms, of q ts]
  by (auto simp: Feedback_def split: list.splits)

lemma CurrentPriority_post:
  assumes "in_exec load getstate n m s job" and "s = OP_STATUS_RUNNING \<longleftrightarrow> b"
  shows "ev_post load getstate n m q job b (res_bind (CurrentPriority n job) (\<lambda>_. Inr ()), (q, job))"
proof -
  note F = in_exec_facts [OF assms(1)]
  consider "s = OP_STATUS_RUNNING" | "s = OP_STATUS_CANCELING" | "s = OP_STATUS_WAITING" using F(8) by auto
  then show ?thesis
    by cases (use assms F(5) in \<open>simp_all add: CurrentPriority_def CheckCancel_def ev_post_raise ev_post_same\<close>)
qed

lemma Cancel_post:
  assumes "in_exec load getstate n m s job" and "s = OP_STATUS_RUNNING \<longleftrightarrow> b"
  shows "ev_post load getstate n m q job b (Inr (), queue_modify getstate (Cancel now) (q, job))"
proof (cases "s = OP_STATUS_WAITING")
  case True
  let ?job = "mark_job OP_STATUS_CANCELING JNull job"
  note F = in_exec_facts [OF assms(1)]
  have i: "in_exec load getstate n m OP_STATUS_CANCELING ?job"
    using in_exec_mark [of load getstate n m job] assms(1) True by simp
  have c: "Cancel now job = Inr ((True, job_msg job '' will be canceled''), ?job)"
    using True F(6) by (simp add: Cancel_shape [OF F(7)] cancel_result_def)
  have "\<not> b" using True assms(2) by simp
  with i show ?thesis
    by (auto simp: queue_modify_def c ev_post_def in_exec_cb_Update [OF i])
next
  case False
  note F = in_exec_facts [OF assms(1)]
  have "queue_modify getstate (Cancel now) (q, job) = (q, job)"
    using False F(6,8) by (auto simp: queue_modify_def Cancel_shape [OF F(7)] cancel_result_def)
  then show ?thesis by (simp add: ev_post_same [OF assms])
qed

lemma ChangePriority_post:
  assumes "in_exec load getstate n m s job" and "s = OP_STATUS_RUNNING \<longleftrightarrow> b" and "p \<in> OP_PRIO_SUBMIT_VALID"
  shows "ev_post load getstate n m q job b (Inr (), queue_modify getstate (ChangePriority p) (q, job))"
proof (cases "s = OP_STATUS_CANCELING")
  case True
  then have "queue_modify getstate (ChangePriority p) (q, job) = (q, job)"
    using in_exec_facts(6) [OF assms(1)] by (simp add: queue_modify_def ChangePriority_def finalized_defs)
  then show ?thesis by (simp add: ev_post_same [OF assms(1,2)])
next
  case False
  let ?job = "job\<lparr>qj_ops := map (set_pending_prio p) (qj_ops job)\<rparr>"
  note F = in_exec_facts [OF assms(1)]
  have "CalcStatus job \<in> {OP_STATUS_QUEUED, OP_STATUS_WAITING, OP_STATUS_RUNNING}" using False F(6,8) by auto
  from ChangePriority_shape [OF F(7) [unfolded statuses_def] this, of p]
  obtain c msg where c: "ChangePriority p job = Inr ((c, msg), ?job)" by blast
  have i: "in_exec load getstate n m s ?job" by (rule in_exec_prio [OF assms(1,3)])
  show ?thesis using i assms(2)
    by (auto simp: queue_modify_def c ev_post_def in_exec_cb_Update [OF i])
qed

lemma run_event_post:
  assumes "in_exec load getstate n m s job" and "s = OP_STATUS_RUNNING \<longleftrightarrow> b" and "e = EvRetry \<longrightarrow> b"
  shows "ev_post load getstate n m q job (started_after b e) (run_event getstate n e (q, job))"
  using assms
  by (cases e) (simp_all add: NotifyStart_post NotifyRetry_post Feedback_post CurrentPriority_post
      Cancel_post ChangePriority_post ev_post_same)

lemma script_ok_outcome: "script_ok b es outcome \<Longrightarrow> outcome \<noteq> Cancelled"
  by (induction b es outcome rule: script_ok.induct) auto

lemma ev_post_trans:
  assumes "ev_post load getstate n m q1 job1 b r" and "same_ctl job job1" and "jq_waiters q1 = jq_waiters q"
  shows "ev_post load getstate n m q job b r"
proof -
  obtain x q' job' where r: "r = (x, (q', job'))" by (metis surj_pair)
  show ?thesis using assms same_ctl_trans [OF assms(2), of job'] unfolding ev_post_def r prod.case by auto
qed

lemma run_events_post:
  assumes "in_exec load getstate n m s job" and "s = OP_STATUS_RUNNING \<longleftrightarrow> b" and "script_ok b es outcome"
  shows "\<exists>b'. ev_post load getstate n m q job b' (run_events getstate n es (q, job)) \<and>
     (outcome = TimedOut \<longrightarrow> \<not> b') \<and> outcome \<noteq> Cancelled"
  using assms
proof (induction es arbitrary: q job s b)
  case Nil
  then show ?case using ev_post_same [OF Nil.prems(1,2)] by auto
next
  case (Cons e es)
  let ?b = "started_after b e"
  obtain x q1 job1 where r: "run_event getstate n e (q, job) = (x, (q1, job1))" by (metis surj_pair)
  have post: "ev_post load getstate n m q job ?b (x, (q1, job1))"
    using run_event_post [OF Cons.prems(1,2), of e q] Cons.prems(3) r by simp
  have ok: "script_ok ?b es outcome" using Cons.prems(3) by simp
  from post obtain s1 where s1: "in_exec load getstate n m s1 job1" "same_ctl job job1"
    "jq_waiters q1 = jq_waiters q" by (auto simp: ev_post_def)
  show ?case
  proof (cases x)
    case (Inl y)
    then have "ev_post load getstate n m q job False (x, (q1, job1))" using post by (simp add: ev_post_def)
    with r Inl script_ok_outcome [OF ok] show ?thesis by auto
  next
    case (Inr y)
    with post obtain s2 where s2: "in_exec load getstate n m s2 job1" "s2 = OP_STATUS_RUNNING \<longleftrightarrow> ?b"
      by (auto simp: ev_post_def)
    from Cons.IH [OF this ok, of q1] obtain b' where
      "ev_post load getstate n m q1 job1 b' (run_events getstate n es (q1, job1))"
      "(outcome = TimedOut \<longrightarrow> \<not> b') \<and> outcome \<noteq> Cancelled" by auto
    with ev_post_trans [OF this(1) s1(2,3)] r Inr show ?thesis by auto
  qed
qed

text \<open>What is known when the execution of an opcode ends.\<close>

definition exec_post ::
  "(json \<Rightarrow> opcode res) \<Rightarrow> (opcode \<Rightarrow> json) \<Rightarrow> nat \<Rightarrow> nat \<Rightarrow> jqueue \<Rightarrow> queued_job \<Rightarrow> op_status \<Rightarrow> pstate \<Rightarrow> bool" where
  "exec_post load getstate n m q job t st = (case st of (q', job') \<Rightarrow>
     \<exists>s. in_exec load getstate n m s job' \<and> same_ctl job job' \<and> jq_waiters q' = jq_waiters q \<and>
       (t \<in> {OP_STATUS_SUCCESS, OP_STATUS_ERROR} \<or> t = s \<and> t \<in> {OP_STATUS_WAITING, OP_STATUS_CANCELING}))"

lemma GetNextLockTimeout_eq:
  "GetNextLockTimeout c = (fst (tw_Next (ctx_strategy c)), c\<lparr>ctx_strategy := snd (tw_Next (ctx_strategy c))\<rparr>)"
  by (simp add: GetNextLockTimeout_def split_beta)

lemma opexec_fn_post:
  assumes "in_exec load getstate n m OP_STATUS_WAITING job"
    and "exec_protocol script" and run: "opexec_fn getstate script t n (q, job) = (outcome, (q', job'))"
  shows "\<exists>s. in_exec load getstate n m s job' \<and> same_ctl job job' \<and> jq_waiters q' = jq_waiters q \<and>
     (outcome = TimedOut \<longrightarrow> s \<noteq> OP_STATUS_RUNNING \<and> t \<noteq> None) \<and>
     (outcome = Cancelled \<longrightarrow> s = OP_STATUS_CANCELING)"
proof -
  have ok: "script_ok False (fst (script t)) (snd (script t))" using assms(2) by (simp add: exec_protocol_def)
  obtain es o1 where sc: "script t = (es, o1)" by (cases "script t")
  obtain x where r: "run_events getstate n es (q, job) = (x, (q', job'))"
    and o: "outcome = (case x of Inl e \<Rightarrow> raised_outcome e | Inr _ \<Rightarrow> o1)"
    using run sc by (auto simp: opexec_fn_def split: prod.splits)
  obtain b where b: "ev_post load getstate n m q job b (x, (q', job'))"
    "o1 = TimedOut \<longrightarrow> \<not> b" "o1 \<noteq> Cancelled"
    using run_events_post [OF assms(1), of False es o1 q] ok sc r by auto
  have ro: "e \<noteq> LockAcquireTimeout \<Longrightarrow> raised_outcome e \<noteq> TimedOut"
    "raised_outcome e = Cancelled \<Longrightarrow> e = CancelJob" for e
    by (auto simp: raised_outcome_def split: exn.splits)
  show ?thesis
    using b o assms(2) sc ro by (cases x; cases t) (auto simp: ev_post_def exec_protocol_def)
qed

lemma ExecOpCodeUnlocked_post:
  assumes "in_exec load getstate n m OP_STATUS_WAITING job" and "ctx_index ctx = n"
    and "exec_protocol script"
  shows "\<exists>t r st. ExecOpCodeUnlocked getstate script ctx (q, job)
      = Inr ((t, r), snd (GetNextLockTimeout ctx), st) \<and> exec_post load getstate n m q job t st \<and>
        (t = OP_STATUS_WAITING \<longrightarrow> fst (GetNextLockTimeout ctx) \<noteq> None)"
proof -
  obtain t ctx' where g: "GetNextLockTimeout ctx = (t, ctx')" by (cases "GetNextLockTimeout ctx")
  obtain outcome q' job' where run: "opexec_fn getstate script t n (q, job) = (outcome, (q', job'))"
    by (metis surj_pair)
  obtain s where s: "in_exec load getstate n m s job'" "same_ctl job job'" "jq_waiters q' = jq_waiters q"
    "outcome = TimedOut \<longrightarrow> s \<noteq> OP_STATUS_RUNNING \<and> t \<noteq> None" "outcome = Cancelled \<longrightarrow> s = OP_STATUS_CANCELING"
    using opexec_fn_post [OF assms(1,3) run] by auto
  have st: "qo_status (op_at job n) = OP_STATUS_WAITING" "qo_status (op_at job' n) = s"
    using in_exec_facts(5) [OF assms(1)] in_exec_facts(5) [OF s(1)] by simp_all
  have "s \<in> {OP_STATUS_WAITING, OP_STATUS_RUNNING, OP_STATUS_CANCELING}" using in_exec_facts(8) [OF s(1)] .
  then show ?thesis using s assms(2) st
    by (cases outcome; auto simp: ExecOpCodeUnlocked_def g run exec_post_def Let_def)
qed

text \<open>An opcode that is done, or is to be cancelled, before the job is updated for it.\<close>

definition done_form :: "nat \<Rightarrow> nat \<Rightarrow> op_status \<Rightarrow> queued_job \<Rightarrow> bool" where
  "done_form n m t job \<longleftrightarrow> t \<in> {OP_STATUS_SUCCESS, OP_STATUS_ERROR, OP_STATUS_CANCELING} \<and>
     (\<exists>r \<in> {OP_STATUS_QUEUED, OP_STATUS_CANCELING}.
        statuses job = replicate n OP_STATUS_SUCCESS @ t # replicate m r \<and>
        (t = OP_STATUS_CANCELING \<longrightarrow> r = OP_STATUS_CANCELING))"

definition done_op ::
  "(json \<Rightarrow> opcode res) \<Rightarrow> (opcode \<Rightarrow> json) \<Rightarrow> nat \<Rightarrow> nat \<Rightarrow> op_status \<Rightarrow> queued_job \<Rightarrow> bool" where
  "done_op load getstate n m t job \<longleftrightarrow> job_base load getstate job \<and> qj_end_timestamp job = None \<and> done_form n m t job"

lemma done_form_facts:
  assumes "done_form n m t job"
  shows "length (qj_ops job) = n + Suc m" and "qo_status (op_at job n) = t"
    and "t \<in> {OP_STATUS_SUCCESS, OP_STATUS_ERROR, OP_STATUS_CANCELING}"
    and "t = OP_STATUS_CANCELING \<Longrightarrow> list_all (\<lambda>op. qo_status op = OP_STATUS_CANCELING) (drop n (qj_ops job))"
    and "list_all (\<lambda>op. qo_status op = OP_STATUS_SUCCESS) (take n (qj_ops job))"
proof -
  obtain r where st: "map qo_status (qj_ops job) = replicate n OP_STATUS_SUCCESS @ t # replicate m r"
    and r: "t = OP_STATUS_CANCELING \<longrightarrow> r = OP_STATUS_CANCELING"
    using assms by (auto simp: done_form_def statuses_def)
  show len: "length (qj_ops job) = n + Suc m" using arg_cong [OF st, of length] by simp
  show "qo_status (op_at job n) = t" using arg_cong [OF st, of "\<lambda>xs. xs ! n"] len by (simp add: op_at_def nth_append)
  show "t \<in> {OP_STATUS_SUCCESS, OP_STATUS_ERROR, OP_STATUS_CANCELING}" using assms by (simp add: done_form_def)
  have "map qo_status (drop n (qj_ops job)) = t # replicate m r"
    using arg_cong [OF st, of "drop n"] by (simp add: drop_map)
  then show "list_all (\<lambda>op. qo_status op = OP_STATUS_CANCELING) (drop n (qj_ops job))" if "t = OP_STATUS_CANCELING"
    using that r by (intro list_all_status) (auto simp: list_all_iff)
  have "map qo_status (take n (qj_ops job)) = replicate n OP_STATUS_SUCCESS"
    using arg_cong [OF st, of "take n"] by (simp add: take_map)
  then show "list_all (\<lambda>op. qo_status op = OP_STATUS_SUCCESS) (take n (qj_ops job))"
    by (rule list_all_status) (auto simp: list_all_iff)
qed

lemma done_op_finish:
  assumes "in_exec load getstate n m s job" and "t \<in> {OP_STATUS_SUCCESS, OP_STATUS_ERROR}"
  shows "done_op load getstate n m t (upd_op n (\<lambda>op. op\<lparr>qo_status := t, qo_result := x\<rparr>) job)"
proof -
  note F = in_exec_facts [OF assms(1)]
  have "s \<noteq> OP_STATUS_SUCCESS" using F(8) by auto
  then have "done_form n m t (upd_op n (\<lambda>op. op\<lparr>qo_status := t, qo_result := x\<rparr>) job)"
    using F(8) assms(2) by (auto simp: done_form_def statuses_upd_form [OF F(3)])
  moreover have "job_base load getstate (upd_op n (\<lambda>op. op\<lparr>qo_status := t, qo_result := x\<rparr>) job)"
    using assms(2) by (intro job_base_upd [OF F(1,4)]) (auto simp: op_ok_def)
  ultimately show ?thesis using F(2) by (simp add: done_op_def)
qed

lemma done_op_cancel:
  assumes "in_exec load getstate n m OP_STATUS_CANCELING job"
  shows "done_op load getstate n m OP_STATUS_CANCELING job"
  using in_exec_facts [OF assms] by (simp add: done_op_def done_form_def job_form_def tail_of_def)

lemma upd_cancel:
  assumes "in_exec load getstate n m OP_STATUS_CANCELING job"
  shows "in_exec load getstate n m OP_STATUS_CANCELING (upd_op n (\<lambda>op. op\<lparr>qo_status := OP_STATUS_CANCELING, qo_result := x\<rparr>) job)"
  by (rule in_exec_upd [OF assms]) (auto simp: op_ok_def)

lemma upd_waiting:
  assumes "in_exec load getstate n m OP_STATUS_WAITING job"
  shows "in_exec load getstate n m OP_STATUS_WAITING (upd_op n (\<lambda>op. op\<lparr>qo_status := OP_STATUS_WAITING, qo_result := x\<rparr>) job)"
  using in_exec_facts(5) [OF assms] by (intro in_exec_upd [OF assms]) (auto simp: op_ok_def)

lemma done_op_stamp:
  assumes "done_op load getstate n m t job"
  shows "done_op load getstate n m t (upd_op n (\<lambda>op. op\<lparr>qo_end_timestamp := Some now\<rparr>) job)"
proof -
  have b: "job_base load getstate job" and f: "done_form n m t job" using assms by (simp_all add: done_op_def)
  note F = done_form_facts [OF f]
  have n: "n < length (qj_ops job)" using F(1) by simp
  have "statuses (upd_op n (\<lambda>op. op\<lparr>qo_end_timestamp := Some now\<rparr>) job) = statuses job"
    unfolding statuses_def upd_op_def op_at_def by (simp add: map_upd_same)
  then have "done_form n m t (upd_op n (\<lambda>op. op\<lparr>qo_end_timestamp := Some now\<rparr>) job)"
    using f by (simp add: done_form_def)
  moreover have "job_base load getstate (upd_op n (\<lambda>op. op\<lparr>qo_end_timestamp := Some now\<rparr>) job)"
    using F(2,3) by (intro job_base_upd [OF b n]) (auto simp: op_ok_def)
  ultimately show ?thesis using assms by (simp add: done_op_def)
qed

lemma dep_loop_post:
  assumes "in_exec load getstate n m OP_STATUS_WAITING job" and "deps_ok deps"
  shows "\<exists>wait deps' w' job'. dep_loop gs now n deps w job = Inr (wait, deps', w', job') \<and> same_ctl job job' \<and> deps_ok deps' \<and>
     (job' = job \<and> (if wait then JobWaiting w' (qj_id job) else deps' = []) \<or>
      \<not> wait \<and> (in_exec load getstate n m OP_STATUS_CANCELING job' \<or> done_op load getstate n m OP_STATUS_ERROR job'))"
  using assms(2)
proof (induction deps arbitrary: w)
  case (Cons d deps)
  obtain di ds where d: "d = (di, ds)" by (cases d)
  note F = in_exec_facts [OF assms(1)]
  have pre: "0 \<le> qj_id job" "0 \<le> di" "list_all (\<lambda>s. s \<in> JOBS_FINALIZED) ds" "deps_ok deps"
    using Cons.prems F(1) by (simp_all add: d deps_ok_def job_base_def)
  let ?o = "dep_outcome (gs di) (qj_id job = di) ds"
  from CheckAndRegister_spec [OF pre(1-3), of gs w] obtain msg w' where
    c: "CheckAndRegister gs w (qj_id job) di ds = Inr ((?o, msg), w')" "msg \<noteq> []"
    and wait: "?o = DEP_WAIT \<Longrightarrow> JobWaiting w' (qj_id job)" by auto
  show ?case
  proof (cases ?o)
    case DEP_CONTINUE
    then show ?thesis using Cons.IH [OF pre(4), of w'] by (simp add: d c)
  next
    case DEP_CANCEL
    let ?job = "mark_job OP_STATUS_CANCELING JNull job"
    have i: "in_exec load getstate n m OP_STATUS_CANCELING ?job" by (rule in_exec_mark [OF assms(1)])
    have "Cancel now job = Inr ((True, job_msg job '' will be canceled''), ?job)"
      using F(6) by (simp add: Cancel_shape [OF F(7)] cancel_result_def)
    then show ?thesis using DEP_CANCEL c i Cons.prems in_exec_facts(5) [OF i] by (auto simp: d)
  qed (use c wait Cons.prems done_op_finish [OF assms(1), of OP_STATUS_ERROR] in \<open>auto simp: d\<close>)
qed auto

lemma statuses_other [simp]:
  "statuses (job\<lparr>qj_start_timestamp := t\<rparr>) = statuses job"
  "statuses (job\<lparr>qj_cur_opctx := c\<rparr>) = statuses job"
  "statuses (job\<lparr>qj_ops_iter := k\<rparr>) = statuses job"
  "statuses (job\<lparr>qj_end_timestamp := t\<rparr>) = statuses job"
  by (simp_all add: statuses_def)

lemma CalcStatus_other [simp]:
  "CalcStatus (job\<lparr>qj_start_timestamp := t\<rparr>) = CalcStatus job"
  "CalcStatus (job\<lparr>qj_cur_opctx := c\<rparr>) = CalcStatus job"
  "CalcStatus (job\<lparr>qj_ops_iter := k\<rparr>) = CalcStatus job"
  "CalcStatus (job\<lparr>qj_end_timestamp := t\<rparr>) = CalcStatus job"
  by (simp_all add: CalcStatus_def)

lemma job_base_other [simp]:
  "job_base load getstate (job\<lparr>qj_start_timestamp := t\<rparr>) = job_base load getstate job"
  "job_base load getstate (job\<lparr>qj_cur_opctx := c\<rparr>) = job_base load getstate job"
  "job_base load getstate (job\<lparr>qj_ops_iter := k\<rparr>) = job_base load getstate job"
  "job_base load getstate (job\<lparr>qj_end_timestamp := t\<rparr>) = job_base load getstate job"
  by (simp_all add: job_base_def storable_def log_wf_def job_log_def)

lemma job_form_other [simp]:
  "job_form n m s (job\<lparr>qj_start_timestamp := t\<rparr>) = job_form n m s job"
  "job_form n m s (job\<lparr>qj_cur_opctx := c\<rparr>) = job_form n m s job"
  "job_form n m s (job\<lparr>qj_ops_iter := k\<rparr>) = job_form n m s job"
  by (simp_all add: job_form_def)

lemma op_at_other [simp]:
  "op_at (job\<lparr>qj_start_timestamp := t\<rparr>) i = op_at job i"
  "op_at (job\<lparr>qj_cur_opctx := c\<rparr>) i = op_at job i"
  "op_at (job\<lparr>qj_ops_iter := k\<rparr>) i = op_at job i"
  by (simp_all add: op_at_def)

lemma in_exec_other [simp]:
  "in_exec load getstate n m s (job\<lparr>qj_start_timestamp := t\<rparr>) = in_exec load getstate n m s job"
  "in_exec load getstate n m s (job\<lparr>qj_cur_opctx := c\<rparr>) = in_exec load getstate n m s job"
  by (simp_all add: in_exec_def)

lemma MarkWaitlock_post:
  assumes "job_base load getstate job" and "qj_end_timestamp job = None"
    and "job_form n m s job" and "s \<in> {OP_STATUS_QUEUED, OP_STATUS_WAITING}"
  shows "\<exists>u job1. MarkWaitlock now n job = Inr (u, job1) \<and> in_exec load getstate n m OP_STATUS_WAITING job1 \<and>
     same_ctl job job1 \<and> qj_start_timestamp job1 \<noteq> None \<and> qo_start_timestamp (op_at job1 n) \<noteq> None"
proof -
  have ns: "s \<noteq> OP_STATUS_SUCCESS" using assms(4) by auto
  note F = job_form_facts [OF assms(3) ns]
  let ?start = "case qo_start_timestamp (op_at job n) of None \<Rightarrow> Some now | Some t \<Rightarrow> Some t"
  let ?f = "\<lambda>op. op\<lparr>qo_result := JNull, qo_status := OP_STATUS_WAITING, qo_start_timestamp := ?start\<rparr>"
  have "job_form n m OP_STATUS_WAITING (upd_op n ?f job)"
    using statuses_upd_form [OF assms(3) ns, of ?f] assms(4) by (auto simp: job_form_def tail_of_Cons)
  moreover have "job_base load getstate (upd_op n ?f job)"
    using F(3) assms(4) by (intro job_base_upd [OF assms(1) F(1)]) (auto simp: op_ok_def)
  ultimately have "in_exec load getstate n m OP_STATUS_WAITING (upd_op n ?f job)"
    using assms(2) by (simp add: in_exec_def)
  moreover have "?start \<noteq> None" by (simp split: option.splits)
  ultimately show ?thesis using F(1,3) assms(4)
    by (auto simp: MarkWaitlock_def Let_def same_ctl_def)
qed

definition ctx_ok :: "opctx \<Rightarrow> bool" where
  "ctx_ok c \<longleftrightarrow> (case ctx_jobdeps c of None \<Rightarrow> True | Some ds \<Rightarrow> deps_ok ds)"

lemma CheckDependencies_post:
  assumes "in_exec load getstate n m OP_STATUS_WAITING job" and "ctx_ok ctx" and "ctx_index ctx = n"
  shows "\<exists>wait ctx' q' job'. CheckDependencies load now ctx (q, job) = Inr (wait, ctx', (q', job')) \<and>
     same_ctl job job' \<and> ctx_ok ctx' \<and> ctx_index ctx' = n \<and> ctx_strategy ctx' = ctx_strategy ctx \<and>
     (job' = job \<and> (if wait then JobWaiting (jq_waiters q') (qj_id job)
                    else ctx_jobdeps ctx' = None \<or> ctx_jobdeps ctx' = Some []) \<or>
      \<not> wait \<and> (in_exec load getstate n m OP_STATUS_CANCELING job' \<or> done_op load getstate n m OP_STATUS_ERROR job'))"
proof (cases "ctx_jobdeps ctx")
  case None
  then show ?thesis using assms by (auto simp: CheckDependencies_def)
next
  case (Some ds)
  then have "deps_ok ds" using assms(2) by (simp add: ctx_ok_def)
  from dep_loop_post [OF assms(1) this, of "dep_status_fn load q" now "jq_waiters q"] Some assms(3)
  show ?thesis by (fastforce simp: CheckDependencies_def ctx_ok_def)
qed

definition attempt_post ::
  "(json \<Rightarrow> opcode res) \<Rightarrow> (opcode \<Rightarrow> json) \<Rightarrow> nat \<Rightarrow> nat \<Rightarrow> queued_job \<Rightarrow> opctx \<Rightarrow> bool \<times> opctx \<times> pstate \<Rightarrow> bool" where
  "attempt_post load getstate n m job ctx r = (case r of (wait, ctx', (q', job')) \<Rightarrow>
     same_ctl job job' \<and> ctx_ok ctx' \<and> ctx_index ctx' = n \<and>
     (in_exec load getstate n m OP_STATUS_WAITING job' \<and>
        (if wait then JobWaiting (jq_waiters q') (qj_id job')
         else fst (tw_Next (ctx_strategy ctx)) \<noteq> None \<and> ctx_strategy ctx' = snd (tw_Next (ctx_strategy ctx))) \<or>
      \<not> wait \<and> (\<exists>t. done_op load getstate n m t job')))"

lemma in_exec_no_end: "in_exec load getstate n m OP_STATUS_WAITING job \<Longrightarrow> qo_end_timestamp (op_at job n) = None"
  using in_exec_facts [of load getstate n m OP_STATUS_WAITING job] op_ok_at [of load getstate job n]
  by (auto simp: op_ok_def)

text \<open>The end of the attempt.\<close>

definition end_attempt ::
  "(clock_site \<Rightarrow> timestamp) \<Rightarrow> nat \<Rightarrow> bool \<Rightarrow> opctx \<times> pstate \<Rightarrow> (bool \<times> opctx \<times> pstate) res" where
  "end_attempt clock i waitjob r = (case r of (ctx3, q3, job3) \<Rightarrow>
     if qo_status (op_at job3 i) \<in> {OP_STATUS_WAITING, OP_STATUS_QUEUED} then
        res_bind (check (qo_end_timestamp (op_at job3 i) = None) AssertionError) (\<lambda>_.
          Inr (waitjob, ctx3, (q3, job3)))
      else
        (let job4 = upd_op i (\<lambda>op. op\<lparr>qo_end_timestamp := Some (clock AtOpEnd)\<rparr>) job3 in
         res_bind
           (if qo_status (op_at job4 i) = OP_STATUS_CANCELING
            then check (list_all (\<lambda>op. qo_status op = OP_STATUS_CANCELING) (drop i (qj_ops job4))) AssertionError
            else check (qo_status (op_at job4 i) \<in> OPS_FINALIZED) AssertionError) (\<lambda>_.
           Inr (waitjob, ctx3, (q3, job4)))))"

lemma end_attempt_waiting:
  "in_exec load getstate n m OP_STATUS_WAITING job \<Longrightarrow> end_attempt clock n w (ctx, q, job) = Inr (w, ctx, (q, job))"
  using in_exec_facts(5) [of load getstate n m OP_STATUS_WAITING job] in_exec_no_end [of load getstate n m job]
  by (simp add: end_attempt_def)

lemma end_attempt_done:
  assumes "done_op load getstate n m t job"
  shows "end_attempt clock n w (ctx, q, job) =
    Inr (w, ctx, (q, upd_op n (\<lambda>op. op\<lparr>qo_end_timestamp := Some (clock AtOpEnd)\<rparr>) job))"
proof -
  let ?job = "upd_op n (\<lambda>op. op\<lparr>qo_end_timestamp := Some (clock AtOpEnd)\<rparr>) job"
  have f: "done_form n m t job" "done_form n m t ?job"
    using assms done_op_stamp [OF assms] by (simp_all add: done_op_def)
  show ?thesis
    using done_form_facts [OF f(1)] done_form_facts [OF f(2)]
    by (auto simp: end_attempt_def Let_def finalized_defs)
qed

lemma end_attempt_post:
  assumes "same_ctl job job3" and "ctx_ok ctx3" and "ctx_index ctx3 = n"
    and "in_exec load getstate n m OP_STATUS_WAITING job3 \<and>
        (if wait then JobWaiting (jq_waiters q3) (qj_id job3)
         else fst (tw_Next (ctx_strategy ctx)) \<noteq> None \<and> ctx_strategy ctx3 = snd (tw_Next (ctx_strategy ctx))) \<or>
      \<not> wait \<and> (\<exists>t. done_op load getstate n m t job3)"
  shows "\<exists>r. end_attempt clock n wait (ctx3, q3, job3) = Inr r \<and> attempt_post load getstate n m job ctx r"
  using assms(4)
proof (elim disjE conjE exE)
  assume i: "in_exec load getstate n m OP_STATUS_WAITING job3"
  then show ?thesis using assms by (auto simp: end_attempt_waiting [OF i] attempt_post_def)
next
  fix t assume "\<not> wait" and d: "done_op load getstate n m t job3"
  then show ?thesis using assms(1-3) done_op_stamp [OF d, of "clock AtOpEnd"]
    by (auto simp: end_attempt_done [OF d] attempt_post_def)
qed

lemma call_attempt_end:
  "call_attempt load getstate clock script ctx (q, job) =
     (let i = ctx_index ctx; status = (\<lambda>j. qo_status (op_at j i)) in
      res_bind (check (status job \<in> {OP_STATUS_QUEUED, OP_STATUS_WAITING}) AssertionError) (\<lambda>_.
      res_bind (MarkWaitlock (clock AtMarkWaitlock) i job) (\<lambda>(update, job1).
      res_bind (if update then UpdateJobUnlocked getstate True job1 q else Inr q) (\<lambda>q1.
      res_bind (check (status job1 = OP_STATUS_WAITING) AssertionError) (\<lambda>_.
      res_bind (check (CalcStatus job1 = JOB_STATUS_WAITING) AssertionError) (\<lambda>_.
      res_bind (check (qj_start_timestamp job1 \<noteq> None \<and> qo_start_timestamp (op_at job1 i) \<noteq> None)
        AssertionError) (\<lambda>_.
      res_bind (CheckDependencies load (clock AtDependencyCancel) ctx (q1, job1)) (\<lambda>(waitjob, ctx2, q2, job2).
      res_bind (check (status job2 \<in> {OP_STATUS_WAITING, OP_STATUS_CANCELING, OP_STATUS_ERROR})
        AssertionError) (\<lambda>_.
      res_bind
        (if \<not> (waitjob \<or> status job2 \<in> {OP_STATUS_CANCELING, OP_STATUS_ERROR}) then
           res_bind (check (ctx_jobdeps ctx2 = None \<or> ctx_jobdeps ctx2 = Some []) AssertionError) (\<lambda>_.
           res_bind (ExecOpCodeUnlocked getstate script ctx2 (q2, job2)) (\<lambda>((op_status, op_result), ctx3, q3, job3).
             Inr (ctx3, q3, upd_op i (\<lambda>op. op\<lparr>qo_status := op_status, qo_result := op_result\<rparr>) job3)))
         else Inr (ctx2, q2, job2)) (end_attempt clock i waitjob))))))))))"
  unfolding call_attempt_def end_attempt_def [abs_def] Let_def prod.case by simp

lemma exec_step_post:
  assumes "in_exec load getstate n m OP_STATUS_WAITING job" and "ctx_ok ctx" and "ctx_index ctx = n"
    and script: "exec_protocol script"
  shows "\<exists>t r ctx' q' job'. ExecOpCodeUnlocked getstate script ctx (q, job) = Inr ((t, r), ctx', (q', job')) \<and>
     (\<exists>x. end_attempt clock n False (ctx', q', upd_op n (\<lambda>op. op\<lparr>qo_status := t, qo_result := r\<rparr>) job') = Inr x \<and>
        attempt_post load getstate n m job ctx x)"
proof -
  let ?ctx = "snd (GetNextLockTimeout ctx)"
  have c3: "ctx_ok ?ctx" "ctx_index ?ctx = n" "ctx_strategy ?ctx = snd (tw_Next (ctx_strategy ctx))"
    "fst (GetNextLockTimeout ctx) = fst (tw_Next (ctx_strategy ctx))"
    using assms(2,3) by (simp_all add: GetNextLockTimeout_eq ctx_ok_def)
  obtain t r st3 where ex: "ExecOpCodeUnlocked getstate script ctx (q, job) = Inr ((t, r), ?ctx, st3)"
    and post: "exec_post load getstate n m q job t st3"
    and tm: "t = OP_STATUS_WAITING \<longrightarrow> fst (GetNextLockTimeout ctx) \<noteq> None"
    using ExecOpCodeUnlocked_post [OF assms(1,3) script, of q] by blast
  obtain q3 job3 where st3: "st3 = (q3, job3)" by (cases st3)
  let ?job = "upd_op n (\<lambda>op. op\<lparr>qo_status := t, qo_result := r\<rparr>) job3"
  obtain s3 where s3: "in_exec load getstate n m s3 job3" "same_ctl job job3"
    and t: "t \<in> {OP_STATUS_SUCCESS, OP_STATUS_ERROR} \<or> t = s3 \<and> t \<in> {OP_STATUS_WAITING, OP_STATUS_CANCELING}"
    using post unfolding exec_post_def st3 prod.case by blast
  consider "t \<in> {OP_STATUS_SUCCESS, OP_STATUS_ERROR}" | "t = OP_STATUS_WAITING" "s3 = OP_STATUS_WAITING"
    | "t = OP_STATUS_CANCELING" "s3 = OP_STATUS_CANCELING" using t by blast
  then have "in_exec load getstate n m OP_STATUS_WAITING ?job \<and> t = OP_STATUS_WAITING \<or> (\<exists>t'. done_op load getstate n m t' ?job)"
  proof cases
    case 1
    from done_op_finish [OF s3(1) this] show ?thesis by blast
  next
    case 2
    with upd_waiting [of load getstate n m job3 r] s3(1) show ?thesis by simp
  next
    case 3
    with done_op_cancel [OF upd_cancel, of load getstate n m job3 r] s3(1) show ?thesis by auto
  qed
  then have "\<exists>x. end_attempt clock n False (?ctx, q3, ?job) = Inr x \<and> attempt_post load getstate n m job ctx x"
    using s3(2) c3(3,4) tm by (intro end_attempt_post c3(1,2)) auto
  then show ?thesis using ex st3 by blast
qed

lemma call_attempt_post:
  assumes "job_base load getstate job" and "qj_end_timestamp job = None"
    and "job_form n m s job" and "s \<in> {OP_STATUS_QUEUED, OP_STATUS_WAITING}"
    and "ctx_ok ctx" and "ctx_index ctx = n"
    and script: "exec_protocol script"
  shows "\<exists>r. call_attempt load getstate clock script ctx (q, job) = Inr r \<and> attempt_post load getstate n m job ctx r"
proof -
  have ns: "s \<noteq> OP_STATUS_SUCCESS" using assms(4) by auto
  have st: "qo_status (op_at job n) \<in> {OP_STATUS_QUEUED, OP_STATUS_WAITING}"
    using job_form_facts(3) [OF assms(3) ns] assms(4) by simp
  obtain u job1 where mw: "MarkWaitlock (clock AtMarkWaitlock) n job = Inr (u, job1)"
    and i1: "in_exec load getstate n m OP_STATUS_WAITING job1" and c1: "same_ctl job job1"
    and ts: "qj_start_timestamp job1 \<noteq> None" "qo_start_timestamp (op_at job1 n) \<noteq> None"
    using MarkWaitlock_post [OF assms(1-4)] by blast
  obtain q1 where q1: "(if u then UpdateJobUnlocked getstate True job1 q else Inr q) = Inr q1"
    using in_exec_update [OF i1, of True q] by (cases u) simp_all
  obtain wait ctx2 q2 job2 where cd: "CheckDependencies load (clock AtDependencyCancel) ctx (q1, job1) = Inr (wait, ctx2, (q2, job2))"
    and c2: "same_ctl job1 job2" "ctx_ok ctx2" "ctx_index ctx2 = n" "ctx_strategy ctx2 = ctx_strategy ctx"
    and cases: "job2 = job1 \<and> (if wait then JobWaiting (jq_waiters q2) (qj_id job1)
                    else ctx_jobdeps ctx2 = None \<or> ctx_jobdeps ctx2 = Some []) \<or>
      \<not> wait \<and> (in_exec load getstate n m OP_STATUS_CANCELING job2 \<or> done_op load getstate n m OP_STATUS_ERROR job2)"
    using CheckDependencies_post [OF i1 assms(5,6), of "clock AtDependencyCancel" q1] by blast
  have c12: "same_ctl job job2" by (rule same_ctl_trans [OF c1 c2(1)])
  note F1 = in_exec_facts [OF i1]
  note run = call_attempt_end [of load getstate clock script ctx q job]
  consider (wait) "wait" "job2 = job1" "JobWaiting (jq_waiters q2) (qj_id job1)"
    | (go) "\<not> wait" "job2 = job1" "ctx_jobdeps ctx2 = None \<or> ctx_jobdeps ctx2 = Some []"
    | (cancel) "\<not> wait" "in_exec load getstate n m OP_STATUS_CANCELING job2"
    | (error) "\<not> wait" "done_op load getstate n m OP_STATUS_ERROR job2"
    using cases by (auto split: if_splits)
  then show ?thesis
  proof cases
    case wait
    have "call_attempt load getstate clock script ctx (q, job) = end_attempt clock n True (ctx2, q2, job1)"
      using wait cd mw q1 st ts F1(5,6) assms(6) by (simp add: run Let_def)
    then show ?thesis using end_attempt_post [OF c12 c2(2,3), of load getstate m True q2 ctx clock] wait i1 by simp
  next
    case cancel
    have "call_attempt load getstate clock script ctx (q, job) = end_attempt clock n False (ctx2, q2, job2)"
      using cancel cd mw q1 st ts F1(5,6) assms(6) in_exec_facts(5) [OF cancel(2)] by (simp add: run Let_def)
    moreover have "\<exists>t. done_op load getstate n m t job2" using done_op_cancel [OF cancel(2)] by blast
    ultimately show ?thesis using end_attempt_post [OF c12 c2(2,3), of load getstate m False q2 ctx clock] by simp
  next
    case error
    have "qo_status (op_at job2 n) = OP_STATUS_ERROR" using error(2) done_form_facts(2) by (auto simp: done_op_def)
    then have "call_attempt load getstate clock script ctx (q, job) = end_attempt clock n False (ctx2, q2, job2)"
      using error cd mw q1 st ts F1(5,6) assms(6) by (simp add: run Let_def)
    moreover have "\<exists>t. done_op load getstate n m t job2" using error(2) by blast
    ultimately show ?thesis using end_attempt_post [OF c12 c2(2,3), of load getstate m False q2 ctx clock] by simp
  next
    case go
    have i2: "in_exec load getstate n m OP_STATUS_WAITING job2" using i1 go(2) by simp
    obtain t r ctx3 q3 job3 x where ex: "ExecOpCodeUnlocked getstate script ctx2 (q2, job2) = Inr ((t, r), ctx3, (q3, job3))"
      and e: "end_attempt clock n False (ctx3, q3, upd_op n (\<lambda>op. op\<lparr>qo_status := t, qo_result := r\<rparr>) job3) = Inr x"
      and post: "attempt_post load getstate n m job2 ctx2 x"
      using exec_step_post [OF i2 c2(2,3) script, of q2 clock] by blast
    have "call_attempt load getstate clock script ctx (q, job) = Inr x"
      using go cd mw q1 st ts F1(5,6) assms(6) ex e by (simp add: run Let_def)
    moreover have "attempt_post load getstate n m job ctx x"
      using post c12 c2(4) by (auto simp: attempt_post_def intro: same_ctl_trans)
    ultimately show ?thesis by blast
  qed
qed

lemma dropWhile_done:
  assumes "r \<notin> OPS_FINALIZED"
  shows "dropWhile (\<lambda>s. s \<in> OPS_FINALIZED) (replicate n OP_STATUS_SUCCESS @ t # replicate m r) =
    (if t \<in> OPS_FINALIZED then replicate m r else t # replicate m r)"
proof (induction n)
  case 0
  show ?case using assms by (cases m) simp_all
qed (simp add: finalized_defs)

lemma MarkUnfinishedOps_done:
  assumes "done_op load getstate n m t job"
    and "t = OP_STATUS_ERROR \<and> st = OP_STATUS_ERROR \<or> t = OP_STATUS_CANCELING \<and> st = OP_STATUS_CANCELED"
  shows "\<exists>job'. MarkUnfinishedOps st x job = Inr job' \<and> job_base load getstate job' \<and> job_form n m st job' \<and>
     same_ctl job job' \<and> qj_end_timestamp job' = None"
proof -
  let ?fin = "\<lambda>op. qo_status op \<in> OPS_FINALIZED"
  let ?g = "\<lambda>op. if ?fin op then op else op\<lparr>qo_status := st, qo_result := x\<rparr>"
  obtain r where st: "map qo_status (qj_ops job) = replicate n OP_STATUS_SUCCESS @ t # replicate m r"
    and r: "r \<in> {OP_STATUS_QUEUED, OP_STATUS_CANCELING}"
    using assms(1) by (auto simp: done_op_def done_form_def statuses_def)
  have rn: "r \<notin> OPS_FINALIZED" using r by (auto simp: finalized_defs)
  have "map qo_status (dropWhile ?fin (qj_ops job)) =
      (if t \<in> OPS_FINALIZED then replicate m r else t # replicate m r)"
    using dropWhile_done [OF rn, of n t m] by (simp add: st [symmetric] dropWhile_map comp_def)
  then have "list_all (\<lambda>op. \<not> ?fin op) (dropWhile ?fin (qj_ops job))"
    by (rule list_all_status) (use rn in \<open>auto simp: list_all_iff split: if_splits\<close>)
  then have mark: "MarkUnfinishedOps st x job = Inr (job\<lparr>qj_ops := map ?g (qj_ops job)\<rparr>)"
    by (simp only: MarkUnfinishedOps_def mark_unfinished_map_True if_True res_bind_Inr)
  let ?job = "job\<lparr>qj_ops := map ?g (qj_ops job)\<rparr>"
  have "map qo_status (map ?g (qj_ops job)) = map (\<lambda>s. if s \<in> OPS_FINALIZED then s else st) (map qo_status (qj_ops job))"
    by simp
  also have "\<dots> = replicate n OP_STATUS_SUCCESS @ tail_of st m"
    using assms(2) rn unfolding st by (auto simp: finalized_defs tail_of_def)
  finally have "job_form n m st ?job" by (simp only: job_form_def statuses_update)
  moreover have "storable load getstate ?job"
    by (rule storable_update_ops) (use assms(1) in \<open>simp_all add: done_op_def job_base_def comp_def if_distrib cong: if_cong\<close>)
  moreover have "list_all op_ok (map ?g (qj_ops job))"
    using assms by (auto simp: done_op_def job_base_def list_all_iff op_ok_def)
  ultimately show ?thesis using mark assms(1) by (auto simp: done_op_def job_base_def)
qed

section \<open>One call of the processor\<close>

definition iter_le :: "nat \<Rightarrow> queued_job \<Rightarrow> bool" where
  "iter_le k job \<longleftrightarrow> (case qj_ops_iter job of None \<Rightarrow> True | Some i \<Rightarrow> i \<le> k)"

definition ctl_ok :: "nat \<Rightarrow> queued_job \<Rightarrow> bool" where
  "ctl_ok n job \<longleftrightarrow> (case qj_cur_opctx job of
     None \<Rightarrow> iter_le n job
   | Some c \<Rightarrow> ctx_index c = n \<and> ctx_ok c \<and> iter_le (Suc n) job)"

definition proc_inv :: "(json \<Rightarrow> opcode res) \<Rightarrow> (opcode \<Rightarrow> json) \<Rightarrow> queued_job \<Rightarrow> bool" where
  "proc_inv load getstate job \<longleftrightarrow> job_base load getstate job \<and> qj_ops job \<noteq> [] \<and>
     ops_shape (statuses job) \<and> CalcStatus job \<noteq> OP_STATUS_RUNNING \<and>
     (CalcStatus job \<in> JOBS_FINALIZED \<longleftrightarrow> qj_end_timestamp job \<noteq> None) \<and>
     (CalcStatus job \<notin> JOBS_FINALIZED \<longrightarrow> ctl_ok (done_count (statuses job)) job)"

lemma proc_inv_active:
  assumes "job_base load getstate job" and "qj_end_timestamp job = None" and "job_form n m s job"
    and "s \<in> {OP_STATUS_QUEUED, OP_STATUS_WAITING, OP_STATUS_CANCELING}" and "ctl_ok n job"
  shows "proc_inv load getstate job"
proof -
  have "s \<noteq> OP_STATUS_SUCCESS" using assms(4) by auto
  note F = job_form_facts [OF assms(3) this]
  show ?thesis using assms F by (auto simp: proc_inv_def finalized_defs)
qed

lemma proc_inv_final:
  assumes "job_base load getstate job" and "qj_end_timestamp job \<noteq> None" and "job_form n m s job"
    and "s \<in> JOBS_FINALIZED" and "qj_ops job \<noteq> []"
  shows "proc_inv load getstate job" and "CalcStatus job \<in> JOBS_FINALIZED"
proof -
  have st: "statuses job = replicate n OP_STATUS_SUCCESS @ tail_of s m" using assms(3) by (simp add: job_form_def)
  have cs: "CalcStatus job = s" by (simp only: CalcStatus_statuses st statuses_status_shape)
  have "ops_shape (statuses job)" by (rule ops_shapeI [OF st])
  then show "proc_inv load getstate job" "CalcStatus job \<in> JOBS_FINALIZED"
    using assms cs by (auto simp: proc_inv_def finalized_defs)
qed

lemma proc_inv_form:
  assumes "proc_inv load getstate job" and "CalcStatus job \<notin> JOBS_FINALIZED"
  obtains n m s where "job_form n m s job" "s \<in> {OP_STATUS_QUEUED, OP_STATUS_WAITING, OP_STATUS_CANCELING}"
    "n = done_count (statuses job)" "ctl_ok n job" "job_base load getstate job" "qj_end_timestamp job = None"
proof -
  have "ops_shape (statuses job)" using assms(1) by (simp add: proc_inv_def)
  then obtain n m where "statuses job = replicate n OP_STATUS_SUCCESS @ tail_of (statuses_status (statuses job)) m"
    "n = done_count (statuses job)" by (rule ops_shapeE)
  moreover have "CalcStatus job \<in> {OP_STATUS_QUEUED, OP_STATUS_WAITING, OP_STATUS_CANCELING}"
    using assms by (cases "CalcStatus job") (auto simp: proc_inv_def finalized_defs)
  moreover have "qj_end_timestamp job = None" "ctl_ok (done_count (statuses job)) job" "job_base load getstate job"
    using assms unfolding proc_inv_def by blast+
  ultimately show thesis using that [of n m "CalcStatus job"] by (simp add: job_form_def CalcStatus_statuses)
qed

lemma find_next_skip:
  assumes "\<forall>op \<in> set xs. qo_status op = OP_STATUS_SUCCESS" and "qo_status op \<notin> OPS_FINALIZED"
    and "qo_status op \<noteq> OP_STATUS_RUNNING"
  shows "find_next strategy k (xs @ op # ys) =
    Inr (OpExecContext op (k + length xs) strategy, Suc (k + length xs))"
  using assms by (induction xs arbitrary: k) (auto simp: finalized_defs)

lemma FindNextOpcode_form:
  assumes "job_form n m s job" and "s \<in> {OP_STATUS_QUEUED, OP_STATUS_WAITING, OP_STATUS_CANCELING}"
    and "iter_le n job"
  shows "FindNextOpcode strategy job =
    Inr (OpExecContext (op_at job n) n strategy, job\<lparr>qj_ops_iter := Some (Suc n)\<rparr>)"
proof -
  have ns: "s \<noteq> OP_STATUS_SUCCESS" using assms(2) by auto
  note F = job_form_facts [OF assms(1) ns]
  let ?pos = "case qj_ops_iter job of None \<Rightarrow> 0 | Some k \<Rightarrow> k"
  let ?xs = "drop ?pos (take n (qj_ops job))"
  have pos: "?pos \<le> n" using assms(3) by (simp add: iter_le_def split: option.splits)
  have "qj_ops job = take n (qj_ops job) @ op_at job n # drop (Suc n) (qj_ops job)"
    unfolding op_at_def by (rule id_take_nth_drop [OF F(1)])
  then have split: "drop ?pos (qj_ops job) = ?xs @ op_at job n # drop (Suc n) (qj_ops job)"
    using pos F(1) by (metis (no_types, lifting) drop_append diff_is_0_eq drop0 length_take min.absorb2 order_less_imp_le)
  have "map qo_status (take n (qj_ops job)) = replicate n OP_STATUS_SUCCESS"
    using arg_cong [OF assms(1) [unfolded job_form_def statuses_def], of "take n"] by (simp add: take_map)
  then have "set (map qo_status (take n (qj_ops job))) \<subseteq> {OP_STATUS_SUCCESS}" by (simp only: set_replicate_conv_if) simp
  then have "\<forall>op \<in> set ?xs. qo_status op = OP_STATUS_SUCCESS" by (auto dest!: in_set_dropD)
  then have "find_next strategy ?pos (drop ?pos (qj_ops job)) =
      Inr (OpExecContext (op_at job n) (?pos + length ?xs) strategy, Suc (?pos + length ?xs))"
    unfolding split using F(3) assms(2) by (intro find_next_skip) (auto simp: finalized_defs)
  moreover have "?pos + length ?xs = n" using pos F(1) by simp
  ultimately show ?thesis by (simp add: FindNextOpcode_def Let_def)
qed

lemma ctx_ok_fresh: "op_ok op \<Longrightarrow> ctx_ok (OpExecContext op n strategy)"
  by (auto simp: ctx_ok_def OpExecContext_def op_ok_def split: option.splits list.splits)

lemma later_ops_form:
  assumes "job_form n m s job" and "s \<in> {OP_STATUS_QUEUED, OP_STATUS_WAITING, OP_STATUS_CANCELING}"
  shows "list_all (\<lambda>op. qo_status op \<in> {OP_STATUS_QUEUED, OP_STATUS_CANCELING}) (drop (n + 1) (qj_ops job))"
proof -
  have "s \<noteq> OP_STATUS_SUCCESS" using assms(2) by auto
  then have "map qo_status (drop (n + 1) (qj_ops job)) =
      replicate m (if s = OP_STATUS_WAITING \<or> s = OP_STATUS_RUNNING then OP_STATUS_QUEUED else s)"
    using arg_cong [OF assms(1) [unfolded job_form_def statuses_def], of "drop (n + 1)"]
    by (simp add: drop_map tail_of_Cons)
  then show ?thesis by (rule list_all_status) (use assms(2) in \<open>auto simp: list_all_iff\<close>)
qed

end
