(* ===== verification/Job_Run.thy ===== *)
theory Job_Run
  imports Job_Processor
begin

text \<open>
  What one call of the job processor does to a job that satisfies the invariant
  \<open>proc_inv\<close>, and what repeated calls do: the loop of the job process
  (\<^verbatim>\<open>main\<close> in \<^verbatim>\<open>lib/jqueue/exec.py\<close>) with its cancel and priority signals.
\<close>

text \<open>What happens to the context and the opcode when the opcode has to wait.\<close>

definition wait_step :: "timeout list \<Rightarrow> bool \<Rightarrow> opctx \<Rightarrow> queued_op \<Rightarrow> bool \<times> opctx \<times> queued_op" where
  "wait_step strategy waitjob ctx op =
     (if \<not> waitjob then CheckPriorityIncrease strategy ctx op else (False, ctx, op))"

lemma wait_step_facts:
  assumes "wait_step strategy waitjob ctx op = (inc, ctx1, op1)"
  shows "ctx_index ctx1 = ctx_index ctx" and "ctx_ok ctx1 = ctx_ok ctx" and "op_ok op \<Longrightarrow> op_ok op1"
    and "qo_status op1 = qo_status op" and "qo_log op1 = qo_log op" and "qo_input op1 = qo_input op"
  using assms
  by (auto simp: wait_step_def CheckPriorityIncrease_def ctx_ok_def op_ok_def prio_defs split_beta Let_def split: if_splits)

lemma call_finish_waiting:
  assumes "in_exec load getstate n m OP_STATUS_WAITING job" and "ctx_ok ctx" and "ctx_index ctx = n"
    and "waitjob \<longrightarrow> JobWaiting (jq_waiters q) (qj_id job)"
    and ws: "wait_step strategy waitjob ctx (op_at job n) = (inc, ctx1, op1)"
  shows "\<exists>q'. call_finish getstate strategy clock opcount waitjob ctx (q, job) =
      Inr (if waitjob then WAITDEP else DEFER, (q', (upd_op n (\<lambda>_. op1) job)\<lparr>qj_cur_opctx := Some ctx1\<rparr>)) \<and>
      jq_waiters q' = jq_waiters q"
    and "in_exec load getstate n m OP_STATUS_WAITING (upd_op n (\<lambda>_. op1) job)"
proof -
  note F = in_exec_facts [OF assms(1)]
  note W = wait_step_facts [OF ws]
  show i: "in_exec load getstate n m OP_STATUS_WAITING (upd_op n (\<lambda>_. op1) job)"
    using W F(5) by (intro in_exec_upd [OF assms(1)]) auto
  note Fi = in_exec_facts [OF i]
  have pr: "qo_priority op1 \<le> OP_PRIO_LOWEST" "qo_priority op1 \<ge> OP_PRIO_HIGHEST"
    using W(3) op_ok_at [OF F(1,4)] by (simp_all add: op_ok_def)
  obtain q' where q': "(if inc then UpdateJobUnlocked getstate True (upd_op n (\<lambda>_. op1) job) q else Inr q) = Inr q'"
    and w: "jq_waiters q' = jq_waiters q"
    using in_exec_update [OF i, of True q] by (cases inc) simp_all
  have "call_finish getstate strategy clock opcount waitjob ctx (q, job) =
      Inr (if waitjob then WAITDEP else DEFER, (q', (upd_op n (\<lambda>_. op1) job)\<lparr>qj_cur_opctx := Some ctx1\<rparr>))"
    using assms(3,4) F(4,5) Fi(6) q' w pr ws
    by (simp add: call_finish_def wait_step_def [symmetric] Let_def)
  with w show "\<exists>q'. call_finish getstate strategy clock opcount waitjob ctx (q, job) =
      Inr (if waitjob then WAITDEP else DEFER, (q', (upd_op n (\<lambda>_. op1) job)\<lparr>qj_cur_opctx := Some ctx1\<rparr>)) \<and>
      jq_waiters q' = jq_waiters q" by blast
qed

text \<open>What is known after a call that finished an opcode.\<close>

definition finish_post ::
  "(json \<Rightarrow> opcode res) \<Rightarrow> (opcode \<Rightarrow> json) \<Rightarrow> nat \<Rightarrow> nat \<Rightarrow> queued_job \<Rightarrow> proc_result \<times> pstate \<Rightarrow> bool" where
  "finish_post load getstate n m job r = (case r of (result, (q', job')) \<Rightarrow>
     job_base load getstate job' \<and> qj_id job' = qj_id job \<and> qj_ops_iter job' = qj_ops_iter job \<and>
     length (qj_ops job') = length (qj_ops job) \<and> qj_cur_opctx job' = None \<and> dep_status_fn load q' (qj_id job') = Some (CalcStatus job') \<and>
     (result = FINISHED \<and> qj_end_timestamp job' \<noteq> None \<and> qj_ops job' \<noteq> [] \<and>
        (\<exists>n' m' s. s \<in> JOBS_FINALIZED \<and> job_form n' m' s job' \<and> n \<le> done_count (statuses job')) \<or>
      result = DEFER \<and> qj_end_timestamp job' = None \<and>
        (\<exists>m' s. s \<in> {OP_STATUS_QUEUED, OP_STATUS_CANCELING} \<and> job_form (Suc n) m' s job')))"

lemma job_form_success:
  assumes "done_form n m OP_STATUS_SUCCESS job"
  shows "if m = 0 then job_form (Suc n) 0 OP_STATUS_SUCCESS job
    else \<exists>r \<in> {OP_STATUS_QUEUED, OP_STATUS_CANCELING}. job_form (Suc n) (m - 1) r job"
proof -
  obtain r where r: "r \<in> {OP_STATUS_QUEUED, OP_STATUS_CANCELING}"
    and st: "statuses job = replicate n OP_STATUS_SUCCESS @ OP_STATUS_SUCCESS # replicate m r"
    using assms by (auto simp: done_form_def)
  have "statuses job = replicate (Suc n) OP_STATUS_SUCCESS @ replicate m r"
    by (simp add: st replicate_append_same [symmetric])
  then show ?thesis using r by (cases m) (auto simp: job_form_def tail_of_def)
qed

lemma final_write:
  assumes "job_base load getstate job" and "CalcStatus job \<in> JOBS_FINALIZED \<longleftrightarrow> qj_end_timestamp job \<noteq> None"
  shows "\<exists>q'. UpdateJobUnlocked getstate True job q = Inr q' \<and> jq_waiters q' = jq_waiters q \<and>
     dep_status_fn load q' (qj_id job) = Some (CalcStatus job)"
proof -
  obtain q' where u: "UpdateJobUnlocked getstate True job q = Inr q'" and w: "jq_waiters q' = jq_waiters q"
    using assms by (simp add: UpdateJobUnlocked_Inr job_base_def)
  have "storable load getstate job" using assms(1) by (simp add: job_base_def)
  from job_disk.status_saved [OF this u] u w show ?thesis by blast
qed

lemma CalcStatus_form: "job_form n m s job \<Longrightarrow> CalcStatus job = s"
  by (simp only: CalcStatus_statuses job_form_def statuses_status_shape)

lemma done_count_form: "job_form n m s job \<Longrightarrow> done_count (statuses job) = n"
  by (simp only: job_form_def done_count_shape)

lemma done_op_other [simp]: "done_op load getstate n m t (job\<lparr>qj_cur_opctx := c\<rparr>) = done_op load getstate n m t job"
  by (simp add: done_op_def done_form_def)

lemma call_finish_marked:
  assumes "done_op load getstate n m t job" and "ctx_index ctx = n" and "st \<in> JOBS_FINALIZED" and "st \<noteq> OP_STATUS_SUCCESS"
    and "t = OP_STATUS_ERROR \<or> t = OP_STATUS_CANCELING"
    and mark: "MarkUnfinishedOps st x (job\<lparr>qj_cur_opctx := None\<rparr>) = Inr job2"
    and x: "t = OP_STATUS_ERROR \<longrightarrow> st = OP_STATUS_ERROR \<and>
        x = EncodeOpError (GenericErr ''OpExecError'' [JStr ''Preceding opcode failed''])"
      "t = OP_STATUS_CANCELING \<longrightarrow> st = OP_STATUS_CANCELED \<and> x = JStr ''Job canceled by request''"
    and j2: "job_base load getstate job2" "job_form n m st job2" "same_ctl (job\<lparr>qj_cur_opctx := None\<rparr>) job2"
      "qj_end_timestamp job2 = None"
  shows "\<exists>r. call_finish getstate strategy clock opcount False ctx (q, job) = Inr r \<and> finish_post load getstate n m job r"
proof -
  let ?job = "Finalize (clock AtFinalize) job2"
  have d: "done_form n m t job" using assms(1) by (simp add: done_op_def)
  note D = done_form_facts [OF d]
  have b: "job_base load getstate ?job" "job_form n m st ?job" "CalcStatus ?job = st"
    using j2(1,2) CalcStatus_form [OF j2(2)] by (simp_all add: Finalize_def job_form_def)
  have e: "qj_end_timestamp ?job \<noteq> None" by (simp add: Finalize_def)
  obtain q' where q': "UpdateJobUnlocked getstate True ?job q = Inr q'" "dep_status_fn load q' (qj_id ?job) = Some (CalcStatus ?job)"
    using final_write [OF b(1), of q] b(3) assms(3) e by auto
  have "call_finish getstate strategy clock opcount False ctx (q, job) = Inr (FINISHED, (q', ?job))"
    using assms(2,5) D(2,5) mark x q'(1)
    by (elim disjE) (simp_all add: call_finish_def Let_def)
  moreover have "length (qj_ops job2) = n + Suc m" using job_form_facts(2) [OF j2(2) assms(4)] .
  then have "qj_ops job2 \<noteq> []" "length (qj_ops job2) = length (qj_ops job)" using D(1) by auto
  then have "finish_post load getstate n m job (FINISHED, (q', ?job))"
    using b e q'(2) j2(3) assms(3) done_count_form [OF b(2)]
    by (auto simp: finish_post_def same_ctl_def Finalize_def)
  ultimately show ?thesis by blast
qed

lemma call_finish_success:
  assumes "done_op load getstate n m OP_STATUS_SUCCESS job" and "ctx_index ctx = n" and "opcount = n + Suc m"
  shows "\<exists>r. call_finish getstate strategy clock opcount False ctx (q, job) = Inr r \<and> finish_post load getstate n m job r"
proof -
  let ?job1 = "job\<lparr>qj_cur_opctx := None\<rparr>"
  have d: "done_form n m OP_STATUS_SUCCESS job" "done_form n m OP_STATUS_SUCCESS ?job1"
    and b: "job_base load getstate job" "qj_end_timestamp job = None"
    using assms(1) by (simp_all add: done_op_def done_form_def)
  note D = done_form_facts [OF d(1)]
  note S = job_form_success [OF d(2)]
  show ?thesis
  proof (cases "m = 0")
    case True
    let ?job = "Finalize (clock AtFinalize) ?job1"
    have f: "job_form (Suc n) 0 OP_STATUS_SUCCESS ?job" using S True by (simp add: job_form_def Finalize_def)
    have c: "job_base load getstate ?job" "CalcStatus ?job \<in> JOBS_FINALIZED" "qj_end_timestamp ?job \<noteq> None"
      using b CalcStatus_form [OF f] by (simp_all add: Finalize_def finalized_defs)
    obtain q' where q': "UpdateJobUnlocked getstate True ?job q = Inr q'" "dep_status_fn load q' (qj_id ?job) = Some (CalcStatus ?job)"
      using final_write [OF c(1), of q] c by auto
    have run: "call_finish getstate strategy clock opcount False ctx (q, job) = Inr (FINISHED, (q', ?job))"
      using assms(2,3) D(2,5) q'(1) True by (simp add: call_finish_def Let_def)
    have "qj_ops job \<noteq> []" using D(1) by auto
    moreover have "\<exists>n' m' s. s \<in> JOBS_FINALIZED \<and> job_form n' m' s ?job \<and> n \<le> done_count (statuses ?job)"
      by (rule exI [of _ "Suc n"], rule exI [of _ 0], rule exI [of _ OP_STATUS_SUCCESS])
        (use f done_count_form [OF f] in \<open>simp add: finalized_defs\<close>)
    ultimately have "finish_post load getstate n m job (FINISHED, (q', ?job))"
      using c q'(2) unfolding finish_post_def prod.case by (simp add: Finalize_def)
    with run show ?thesis by blast
  next
    case False
    then obtain r where r: "r \<in> {OP_STATUS_QUEUED, OP_STATUS_CANCELING}" and f: "job_form (Suc n) (m - 1) r ?job1"
      using S by auto
    have c: "job_base load getstate ?job1" "CalcStatus ?job1 \<notin> JOBS_FINALIZED"
      using b CalcStatus_form [OF f] r by (auto simp: finalized_defs)
    obtain q' where q': "UpdateJobUnlocked getstate True ?job1 q = Inr q'" "dep_status_fn load q' (qj_id ?job1) = Some (CalcStatus ?job1)"
      using final_write [OF c(1), of q] c b by auto
    have "call_finish getstate strategy clock opcount False ctx (q, job) = Inr (DEFER, (q', ?job1))"
      using assms(2,3) D(2,5) q'(1) False by (simp add: call_finish_def Let_def)
    moreover have "finish_post load getstate n m job (DEFER, (q', ?job1))"
      using c f q'(2) r b unfolding finish_post_def prod.case by auto
    ultimately show ?thesis by blast
  qed
qed

lemma call_finish_done:
  assumes "done_op load getstate n m t job" and "ctx_index ctx = n" and "opcount = n + Suc m"
  shows "\<exists>r. call_finish getstate strategy clock opcount False ctx (q, job) = Inr r \<and> finish_post load getstate n m job r"
proof -
  let ?job1 = "job\<lparr>qj_cur_opctx := None\<rparr>"
  let ?msg = "EncodeOpError (GenericErr ''OpExecError'' [JStr ''Preceding opcode failed''])"
  have "t \<in> {OP_STATUS_SUCCESS, OP_STATUS_ERROR, OP_STATUS_CANCELING}"
    using assms(1) by (simp add: done_op_def done_form_def)
  then consider "t = OP_STATUS_SUCCESS" | "t = OP_STATUS_ERROR" | "t = OP_STATUS_CANCELING" by blast
  then show ?thesis
  proof cases
    case 1
    then show ?thesis using call_finish_success assms by simp
  next
    case 2
    have "done_op load getstate n m OP_STATUS_ERROR ?job1" using assms(1) 2 by simp
    from MarkUnfinishedOps_done [OF this, of OP_STATUS_ERROR ?msg] obtain job2 where
      "MarkUnfinishedOps OP_STATUS_ERROR ?msg ?job1 = Inr job2" "job_base load getstate job2"
      "job_form n m OP_STATUS_ERROR job2" "same_ctl ?job1 job2" "qj_end_timestamp job2 = None" by blast
    then show ?thesis using 2 assms(1,2)
      by (intro call_finish_marked [where t = t and st = OP_STATUS_ERROR and x = ?msg]) (auto simp: finalized_defs)
  next
    case 3
    have "done_op load getstate n m OP_STATUS_CANCELING ?job1" using assms(1) 3 by simp
    from MarkUnfinishedOps_done [OF this, of OP_STATUS_CANCELED "JStr ''Job canceled by request''"] obtain job2 where
      "MarkUnfinishedOps OP_STATUS_CANCELED (JStr ''Job canceled by request'') ?job1 = Inr job2" "job_base load getstate job2"
      "job_form n m OP_STATUS_CANCELED job2" "same_ctl ?job1 job2" "qj_end_timestamp job2 = None" by blast
    then show ?thesis using 3 assms(1,2)
      by (intro call_finish_marked [where t = t and st = OP_STATUS_CANCELED and x = "JStr ''Job canceled by request''"])
        (auto simp: finalized_defs)
  qed
qed

section \<open>Priorities and inputs during an attempt\<close>

definition parts :: "queued_job \<Rightarrow> (int \<times> opcode) list" where
  "parts job = map (\<lambda>op. (qo_priority op, qo_input op)) (qj_ops job)"

definition no_prio_change :: "exec_script \<Rightarrow> bool" where
  "no_prio_change script \<longleftrightarrow> (\<forall>t p. EvChangePriority p \<notin> set (fst (script t)))"

lemma parts_upd:
  "(\<And>op. qo_priority (f op) = qo_priority op \<and> qo_input (f op) = qo_input op) \<Longrightarrow> parts (upd_op i f job) = parts job"
  unfolding parts_def upd_op_def op_at_def by (simp add: map_upd_same)

lemma parts_other [simp]:
  "parts (job\<lparr>qj_start_timestamp := t\<rparr>) = parts job" "parts (job\<lparr>qj_log_serial := k\<rparr>) = parts job"
  "parts (job\<lparr>qj_end_timestamp := t\<rparr>) = parts job" "parts (job\<lparr>qj_cur_opctx := c\<rparr>) = parts job"
  "parts (job\<lparr>qj_ops_iter := i\<rparr>) = parts job"
  by (simp_all add: parts_def)

lemma parts_MarkUnfinishedOps: "MarkUnfinishedOps st x job = Inr job' \<Longrightarrow> parts job' = parts job"
  by (auto simp: MarkUnfinishedOps_def mark_unfinished_map_True parts_def res_simps split: if_splits)

lemma parts_Cancel: "Cancel now job = Inr (r, job') \<Longrightarrow> parts job' = parts job"
  by (auto simp: Cancel_def res_simps Finalize_def dest: parts_MarkUnfinishedOps split: op_status.splits)

lemma parts_append_logs: "parts (append_logs i ts lt ms job) = parts job"
  by (induction ms arbitrary: job) (simp_all add: Let_def parts_upd)

lemma cb_Update_job: "snd (snd (cb_Update getstate repl st)) = snd st"
  by (simp add: cb_Update_def split: prod.splits sum.splits)

lemma parts_cb_Update [simp]: "parts (snd (snd (cb_Update getstate repl (q, job)))) = parts job"
  by (simp add: cb_Update_job)

lemma parts_NotifyStart: "parts (snd (snd (NotifyStart getstate now i (q, job)))) = parts job"
  by (auto simp: NotifyStart_def CheckCancel_def check_def cb_Update_job parts_upd)

lemma parts_AppendFeedback: "parts (snd (snd (AppendFeedback getstate ts lt ms i (q, job)))) = parts job"
  by (auto simp: AppendFeedback_def cb_Update_job parts_append_logs Let_def parts_upd split: sum.splits)

lemma parts_Feedback: "parts (snd (snd (Feedback getstate ts args i (q, job)))) = parts job"
  by (simp add: Feedback_def parts_AppendFeedback split: list.splits)

lemma parts_cancel_event: "parts (snd (queue_modify getstate (Cancel now) (q, job))) = parts job"
  by (auto simp: queue_modify_def cb_Update_job dest: parts_Cancel split: sum.splits)

lemma parts_run_event:
  "(\<And>p. e \<noteq> EvChangePriority p) \<Longrightarrow> parts (snd (snd (run_event getstate i e (q, job)))) = parts job"
  by (cases e) (auto simp: parts_NotifyStart NotifyRetry_def parts_upd parts_Feedback parts_cancel_event)

lemma parts_run_events:
  "(\<And>p. EvChangePriority p \<notin> set es) \<Longrightarrow> parts (snd (snd (run_events getstate i es st))) = parts (snd st)"
proof (induction es arbitrary: st)
  case (Cons e es)
  obtain q job where st: "st = (q, job)" by (cases st)
  obtain x st1 where r: "run_event getstate i e st = (x, st1)" by (cases "run_event getstate i e st")
  have "e \<noteq> EvChangePriority p" for p using Cons.prems [of p] by auto
  then have p1: "parts (snd st1) = parts job" using parts_run_event [of e getstate i q job] r st by simp
  have "EvChangePriority p \<notin> set es" for p using Cons.prems [of p] by auto
  from Cons.IH [OF this, of st1] p1 show ?case using r by (cases x) (simp_all add: st)
qed simp

lemma parts_opexec_fn:
  "no_prio_change script \<Longrightarrow> opexec_fn getstate script t i st = (r, st') \<Longrightarrow> parts (snd st') = parts (snd st)"
  using parts_run_events [of "fst (script t)" getstate i st]
  by (auto simp: opexec_fn_def no_prio_change_def split_beta Let_def)

lemma parts_ExecOpCodeUnlocked:
  "no_prio_change script \<Longrightarrow> ExecOpCodeUnlocked getstate script ctx st = Inr (r, ctx', st') \<Longrightarrow>
   parts (snd st') = parts (snd st)"
  by (auto simp: ExecOpCodeUnlocked_def Let_def res_simps dest: parts_opexec_fn
      split: prod.splits exec_outcome.splits if_splits)

lemma parts_MarkWaitlock: "MarkWaitlock now i job = Inr (u, job') \<Longrightarrow> parts job' = parts job"
  by (auto simp: MarkWaitlock_def Let_def res_simps parts_upd split: if_splits)

lemma parts_dep_loop: "dep_loop gs now i deps w job = Inr (wait, deps', w', job') \<Longrightarrow> parts job' = parts job"
proof (induction deps arbitrary: w)
  case (Cons d deps)
  obtain di ds where d: "d = (di, ds)" by (cases d)
  from Cons.prems obtain r msg w1 where c: "CheckAndRegister gs w (qj_id job) di ds = Inr ((r, msg), w1)"
    by (auto simp: d res_simps)
  show ?case using Cons.prems Cons.IH [of w1] parts_Cancel [of now job] parts_upd [of _ i job]
    by (cases r) (auto simp: d c res_simps)
qed simp

lemma parts_CheckDependencies:
  "CheckDependencies load now ctx (q, job) = Inr (wait, ctx', (q', job')) \<Longrightarrow> parts job' = parts job"
  by (auto simp: CheckDependencies_def res_simps dest: parts_dep_loop split: option.splits)

lemma res_bindE: "res_bind m f = Inr y \<Longrightarrow> (\<And>x. m = Inr x \<Longrightarrow> f x = Inr y \<Longrightarrow> P) \<Longrightarrow> P"
  by (auto simp: res_bind_eq_Inr)

lemma parts_end_attempt: "end_attempt clock i w (ctx, q, job) = Inr (w', ctx', (q', job')) \<Longrightarrow> parts job' = parts job"
  by (auto simp: end_attempt_def Let_def res_simps parts_upd split: if_splits)

lemma parts_call_attempt:
  assumes "no_prio_change script" and "call_attempt load getstate clock script ctx (q, job) = Inr (w, ctx', (q', job'))"
  shows "parts job' = parts job"
proof -
  have ex: "ExecOpCodeUnlocked getstate script c (a, b) = Inr ((t, r), c', (a', b')) \<Longrightarrow> parts b' = parts b"
    for c a b t r c' a' b' using parts_ExecOpCodeUnlocked [OF assms(1)] by fastforce
  show ?thesis
    using assms(2) unfolding call_attempt_end Let_def
    by (elim res_bindE) (auto elim!: res_bindE simp: parts_upd dest!: parts_MarkWaitlock
        parts_CheckDependencies parts_end_attempt ex split: if_splits)
qed

text \<open>The lock-attempt timeouts and the priority after a call in which the locks were not obtained.\<close>

definition retried :: "timeout list \<Rightarrow> timeout_wrapper \<Rightarrow> timeout_wrapper \<Rightarrow> int \<Rightarrow> int \<Rightarrow> bool" where
  "retried strategy w w1 p p1 \<longleftrightarrow> fst (tw_Next w) \<noteq> None \<and>
     (let (t, w') = tw_Peek (snd (tw_Next w)) in
      if t = None \<and> OP_PRIO_HIGHEST < p then w1 = tw_init strategy \<and> p1 = p - 1 else w1 = w' \<and> p1 = p)"

definition start_strategy :: "timeout list \<Rightarrow> queued_job \<Rightarrow> timeout_wrapper" where
  "start_strategy strategy job = (case qj_cur_opctx job of None \<Rightarrow> tw_init strategy | Some c \<Rightarrow> ctx_strategy c)"

definition cur_prio :: "queued_job \<Rightarrow> int" where
  "cur_prio job = qo_priority (op_at job (done_count (statuses job)))"

definition lock_retry :: "timeout list \<Rightarrow> exec_script \<Rightarrow> queued_job \<Rightarrow> queued_job \<Rightarrow> bool" where
  "lock_retry strategy script job job' \<longleftrightarrow> done_count (statuses job') = done_count (statuses job) \<and>
     (\<exists>c p. qj_cur_opctx job' = Some c \<and>
        retried strategy (start_strategy strategy job) (ctx_strategy c) p (cur_prio job') \<and>
        (no_prio_change script \<longrightarrow> p = cur_prio job))"

definition call_post ::
  "(json \<Rightarrow> opcode res) \<Rightarrow> (opcode \<Rightarrow> json) \<Rightarrow> timeout list \<Rightarrow> exec_script \<Rightarrow> queued_job \<Rightarrow> proc_result \<times> pstate \<Rightarrow> bool" where
  "call_post load getstate strategy script job r = (case r of (result, (q', job')) \<Rightarrow>
     proc_inv load getstate job' \<and> qj_id job' = qj_id job \<and> length (qj_ops job') = length (qj_ops job) \<and>
     done_count (statuses job) \<le> done_count (statuses job') \<and>
     (result = FINISHED \<longleftrightarrow> CalcStatus job' \<in> JOBS_FINALIZED) \<and>
     (result = FINISHED \<longrightarrow> dep_status_fn load q' (qj_id job') = Some (CalcStatus job')) \<and>
     (result = WAITDEP \<longrightarrow> JobWaiting (jq_waiters q') (qj_id job')) \<and>
     (result = DEFER \<longrightarrow>
        done_count (statuses job) < done_count (statuses job') \<and> qj_cur_opctx job' = None \<or>
        lock_retry strategy script job job'))"

lemma call_post_waiting:
  assumes i: "in_exec load getstate n m OP_STATUS_WAITING job2" and ctx: "ctx_ok ctx" "ctx_index ctx = n"
    and ctl: "qj_id job2 = qj_id job" "length (qj_ops job2) = length (qj_ops job)" "iter_le (Suc n) job2"
      "done_count (statuses job) = n"
    and wait: "if waitjob then JobWaiting (jq_waiters q) (qj_id job2)
        else fst (tw_Next (start_strategy strategy job)) \<noteq> None \<and>
          ctx_strategy ctx = snd (tw_Next (start_strategy strategy job))"
    and pr: "no_prio_change script \<longrightarrow> qo_priority (op_at job2 n) = qo_priority (op_at job n)"
  shows "\<exists>r. call_finish getstate strategy clock opcount waitjob ctx (q, job2) = Inr r \<and>
     call_post load getstate strategy script job r"
proof -
  obtain inc ctx1 op1 where ws: "wait_step strategy waitjob ctx (op_at job2 n) = (inc, ctx1, op1)"
    by (metis surj_pair)
  note W = wait_step_facts [OF ws]
  let ?job = "upd_op n (\<lambda>_. op1) job2"
  let ?job3 = "?job\<lparr>qj_cur_opctx := Some ctx1\<rparr>"
  obtain q' where run: "call_finish getstate strategy clock opcount waitjob ctx (q, job2) =
      Inr (if waitjob then WAITDEP else DEFER, (q', ?job3))" and w: "jq_waiters q' = jq_waiters q"
    using call_finish_waiting(1) [OF i ctx _ ws, of q clock opcount] wait by (auto split: if_splits)
  have i3: "in_exec load getstate n m OP_STATUS_WAITING ?job"
    using call_finish_waiting(2) [OF i ctx _ ws, of q] wait by (auto split: if_splits)
  note F = in_exec_facts [OF i] and F3 = in_exec_facts [OF i3]
  have "ctl_ok n ?job3" using W(1,2) ctx ctl(3) by (simp add: ctl_ok_def iter_le_def)
  then have inv: "proc_inv load getstate ?job3"
    using F3(1-3) by (intro proc_inv_active [of _ _ _ n m OP_STATUS_WAITING]) simp_all
  have p3: "cur_prio ?job3 = qo_priority op1" using F3(9) F(4) by (simp add: cur_prio_def)
  have "lock_retry strategy script job ?job3" if "\<not> waitjob"
  proof -
    have "retried strategy (start_strategy strategy job) (ctx_strategy ctx1) (qo_priority (op_at job2 n)) (qo_priority op1)"
      using ws wait that by (auto simp: wait_step_def retried_def CheckPriorityIncrease_def split_beta Let_def split: if_splits)
    then show ?thesis using pr p3 ctl(4) F3(9) by (auto simp: lock_retry_def cur_prio_def [of job])
  qed
  then have "call_post load getstate strategy script job (if waitjob then WAITDEP else DEFER, (q', ?job3))"
    using inv wait w ctl F3(6,9) by (auto simp: call_post_def finalized_defs split: if_splits)
  with run show ?thesis by blast
qed

lemma call_post_done:
  assumes d: "done_op load getstate n m t job2" and ctx: "ctx_index ctx = n" and "opcount = n + Suc m"
    and ctl: "qj_id job2 = qj_id job" "length (qj_ops job2) = length (qj_ops job)" "iter_le (Suc n) job2"
      "done_count (statuses job) = n"
  shows "\<exists>r. call_finish getstate strategy clock opcount False ctx (q, job2) = Inr r \<and>
     call_post load getstate strategy script job r"
proof -
  obtain result q' job' where run: "call_finish getstate strategy clock opcount False ctx (q, job2) = Inr (result, (q', job'))"
    and post: "finish_post load getstate n m job2 (result, (q', job'))"
    using call_finish_done [OF d ctx assms(3), of strategy clock q] by (metis surj_pair)
  have b: "job_base load getstate job'" "qj_id job' = qj_id job" "qj_cur_opctx job' = None"
    "qj_ops_iter job' = qj_ops_iter job2" "length (qj_ops job') = length (qj_ops job)"
    "dep_status_fn load q' (qj_id job') = Some (CalcStatus job')"
    using post ctl(1,2) unfolding finish_post_def prod.case by metis+
  consider (fin) n' m' s where "result = FINISHED" "qj_end_timestamp job' \<noteq> None" "qj_ops job' \<noteq> []" "s \<in> JOBS_FINALIZED"
      "job_form n' m' s job'" "n \<le> done_count (statuses job')"
    | (again) m' s where "result = DEFER" "qj_end_timestamp job' = None" "s \<in> {OP_STATUS_QUEUED, OP_STATUS_CANCELING}"
      "job_form (Suc n) m' s job'"
    using post unfolding finish_post_def prod.case by blast
  then have "call_post load getstate strategy script job (result, (q', job'))"
  proof cases
    case fin
    then show ?thesis using proc_inv_final [OF b(1) fin(2,5,4,3)] b ctl(4) by (simp add: call_post_def)
  next
    case again
    have "ctl_ok (Suc n) job'" using b(3,4) ctl(3) by (simp add: ctl_ok_def iter_le_def)
    then have "proc_inv load getstate job'"
      using again(3) by (intro proc_inv_active [OF b(1) again(2,4)]) auto
    moreover have "CalcStatus job' \<notin> JOBS_FINALIZED" using CalcStatus_form [OF again(4)] again(3) by (auto simp: finalized_defs)
    ultimately show ?thesis using again(1) b ctl(4) done_count_form [OF again(4)] by (simp add: call_post_def)
  qed
  with run show ?thesis by blast
qed

lemma iter_le_mono: "iter_le k job \<Longrightarrow> k \<le> k' \<Longrightarrow> iter_le k' job"
  by (auto simp: iter_le_def split: option.splits)

lemma same_ctl_iter: "same_ctl job job' \<Longrightarrow> iter_le k job' = iter_le k job"
  by (simp add: same_ctl_def iter_le_def)

lemma call_start:
  assumes "proc_inv load getstate job" and "job_form n m s job"
    and s: "s \<in> {OP_STATUS_QUEUED, OP_STATUS_WAITING, OP_STATUS_CANCELING}" and "ctl_ok n job"
  shows "\<exists>ctx job1. (case qj_cur_opctx job of
                Some ctx \<Rightarrow> Inr (ctx, job\<lparr>qj_cur_opctx := None\<rparr>)
              | None \<Rightarrow> FindNextOpcode strategy job) = Inr (ctx, job1) \<and>
     ctx_index ctx = n \<and> ctx_ok ctx \<and> ctx_strategy ctx = start_strategy strategy job \<and>
     job_base load getstate job1 \<and> job_form n m s job1 \<and> qj_ops job1 = qj_ops job \<and> qj_id job1 = qj_id job \<and>
     qj_end_timestamp job1 = qj_end_timestamp job \<and> iter_le (Suc n) job1"
proof (cases "qj_cur_opctx job")
  case None
  have b: "job_base load getstate job" using assms(1) by (simp add: proc_inv_def)
  have "s \<noteq> OP_STATUS_SUCCESS" using s by auto
  note F = job_form_facts [OF assms(2) this]
  have "iter_le n job" using assms(4) None by (simp add: ctl_ok_def)
  from FindNextOpcode_form [OF assms(2) s this, of strategy] show ?thesis
    using None b assms(2) op_ok_at [OF b F(1)]
    by (simp add: ctx_ok_fresh) (simp add: OpExecContext_def start_strategy_def iter_le_def)
next
  case (Some c)
  then show ?thesis using assms by (auto simp: ctl_ok_def start_strategy_def proc_inv_def iter_le_def)
qed

lemma in_exec_canceling:
  "job_base load getstate job \<Longrightarrow> qj_end_timestamp job = None \<Longrightarrow> job_form n m OP_STATUS_CANCELING job \<Longrightarrow>
   in_exec load getstate n m OP_STATUS_CANCELING job"
  by (simp add: in_exec_def)

lemma op_prio_parts: "parts job = parts job' \<Longrightarrow> n < length (qj_ops job) \<Longrightarrow>
    qo_priority (op_at job n) = qo_priority (op_at job' n)"
  unfolding parts_def op_at_def by (metis (no_types, lifting) fst_conv length_map nth_map)

lemma call_rest:
  assumes ctx: "ctx_index ctx = n" "ctx_ok ctx" "ctx_strategy ctx = start_strategy strategy job"
    and j1: "job_base load getstate job1" "job_form n m s job1" "qj_ops job1 = qj_ops job" "qj_id job1 = qj_id job"
      "qj_end_timestamp job1 = None" "iter_le (Suc n) job1"
    and s: "s \<in> {OP_STATUS_QUEUED, OP_STATUS_WAITING, OP_STATUS_CANCELING}"
    and script: "exec_protocol script" and n: "done_count (statuses job) = n"
  shows "\<exists>r. res_bind (if s \<noteq> OP_STATUS_CANCELING then call_attempt load getstate clock script ctx (q, job1)
               else Inr (False, ctx, (q, job1)))
       (\<lambda>(waitjob, ctx1, st1). call_finish getstate strategy clock (length (qj_ops job)) waitjob ctx1 st1) = Inr r \<and>
     call_post load getstate strategy script job r"
proof -
  have "s \<noteq> OP_STATUS_SUCCESS" using s by auto
  note F = job_form_facts [OF j1(2) this]
  have count: "length (qj_ops job) = n + Suc m" using F(2) j1(3) by simp
  show ?thesis
  proof (cases "s = OP_STATUS_CANCELING")
    case True
    have "done_op load getstate n m OP_STATUS_CANCELING job1"
      using in_exec_canceling [OF j1(1,5)] j1(2) True by (intro done_op_cancel) simp
    from call_post_done [OF this ctx(1) count j1(4) _ j1(6) n] j1(3) True show ?thesis by simp
  next
    case False
    then have "s \<in> {OP_STATUS_QUEUED, OP_STATUS_WAITING}" using s by auto
    from call_attempt_post [OF j1(1,5,2) this ctx(2,1) script, of clock q] obtain r where
      att: "call_attempt load getstate clock script ctx (q, job1) = Inr r"
      and post: "attempt_post load getstate n m job1 ctx r" by blast
    obtain wait ctx2 q2 job2 where r: "r = (wait, ctx2, (q2, job2))" by (metis surj_pair)
    have c: "same_ctl job1 job2" "ctx_ok ctx2" "ctx_index ctx2 = n" using post by (simp_all add: attempt_post_def r)
    have ctl: "qj_id job2 = qj_id job" "iter_le (Suc n) job2"
      using c(1) j1(4,6) same_ctl_iter [OF c(1)] by (simp_all add: same_ctl_def)
    have pr: "no_prio_change script \<longrightarrow> parts job2 = parts job"
      using parts_call_attempt att r j1(3) by (auto simp: parts_def)
    consider (w) "in_exec load getstate n m OP_STATUS_WAITING job2"
        "if wait then JobWaiting (jq_waiters q2) (qj_id job2)
         else fst (tw_Next (ctx_strategy ctx)) \<noteq> None \<and> ctx_strategy ctx2 = snd (tw_Next (ctx_strategy ctx))"
      | (d) t where "\<not> wait" "done_op load getstate n m t job2"
      using post unfolding attempt_post_def r prod.case by blast
    then have "\<exists>x. call_finish getstate strategy clock (length (qj_ops job)) wait ctx2 (q2, job2) = Inr x \<and>
        call_post load getstate strategy script job x"
    proof cases
      case w
      have len: "length (qj_ops job2) = n + Suc m"
        using job_form_facts(2) [OF in_exec_facts(3) [OF w(1)]] by simp
      have "no_prio_change script \<longrightarrow> qo_priority (op_at job2 n) = qo_priority (op_at job n)"
        using pr op_prio_parts [of job2 job n] len by simp
      with w(2) len count show ?thesis
        by (intro call_post_waiting [OF w(1) c(2,3) ctl(1) _ ctl(2) n]) (simp_all only: ctx(3))
    next
      case d
      have "length (qj_ops job2) = n + Suc m" using d(2) done_form_facts(1) by (auto simp: done_op_def)
      then show ?thesis using call_post_done [OF d(2) c(3) count ctl(1) _ ctl(2) n, of strategy clock q2 script] d(1) count by simp
    qed
    then show ?thesis using att r False by simp
  qed
qed

lemma JobProcessor_call_finalized:
  "CalcStatus job \<in> JOBS_FINALIZED \<Longrightarrow> qj_writable job \<Longrightarrow>
   JobProcessor_call load getstate strategy clock script (q, job) = Inr (FINISHED, (q, job))"
  by (simp add: JobProcessor_call_def)

lemma call_post_writable: "call_post load getstate strategy script job (r, (q', job')) \<Longrightarrow> qj_writable job'"
  by (simp add: call_post_def proc_inv_def job_base_def)

lemma JobProcessor_call_post:
  assumes inv: "proc_inv load getstate job" and "CalcStatus job \<notin> JOBS_FINALIZED" and script: "exec_protocol script"
  shows "\<exists>r. JobProcessor_call load getstate strategy clock script (q, job) = Inr r \<and>
     call_post load getstate strategy script job r"
proof -
  obtain n m s where f: "job_form n m s job" and s: "s \<in> {OP_STATUS_QUEUED, OP_STATUS_WAITING, OP_STATUS_CANCELING}"
    and n: "n = done_count (statuses job)" and ctl: "ctl_ok n job" and b: "job_base load getstate job"
    and e: "qj_end_timestamp job = None" using proc_inv_form [OF assms(1,2)] by blast
  obtain ctx job1 where st: "(case qj_cur_opctx job of
                Some ctx \<Rightarrow> Inr (ctx, job\<lparr>qj_cur_opctx := None\<rparr>)
              | None \<Rightarrow> FindNextOpcode strategy job) = Inr (ctx, job1)"
    and ctx: "ctx_index ctx = n" "ctx_ok ctx" "ctx_strategy ctx = start_strategy strategy job"
    and j1: "job_base load getstate job1" "job_form n m s job1" "qj_ops job1 = qj_ops job" "qj_id job1 = qj_id job"
      "qj_end_timestamp job1 = qj_end_timestamp job" "iter_le (Suc n) job1"
    using call_start [OF inv f s ctl, of strategy] by blast
  have "s \<noteq> OP_STATUS_SUCCESS" using s by auto
  note F = job_form_facts [OF j1(2) this]
  obtain r where rest: "res_bind (if s \<noteq> OP_STATUS_CANCELING then call_attempt load getstate clock script ctx (q, job1)
               else Inr (False, ctx, (q, job1)))
       (\<lambda>(waitjob, ctx1, st1). call_finish getstate strategy clock (length (qj_ops job)) waitjob ctx1 st1) = Inr r"
    and post: "call_post load getstate strategy script job r"
    using call_rest [OF ctx j1(1-4) _ j1(6) s script n [symmetric], of clock q] e j1(5) by auto
  obtain result q' job' where r: "r = (result, (q', job'))" by (metis surj_pair)
  have "op_ok (op_at job1 n)" by (rule op_ok_at [OF j1(1) F(1)])
  then have "JobProcessor_call load getstate strategy clock script (q, job) = Inr r"
    using assms(2) b st ctx(1) F(3) s later_ops_form [OF j1(2) s] rest call_post_writable post r
    by (simp add: JobProcessor_call_def job_base_def op_ok_def Let_def)
  with post show ?thesis by blast
qed

section \<open>Repeated calls\<close>

text \<open>The loop that calls the processor until it is finished; every call has its own clock
  readings and its own execution.\<close>

fun run_processor ::
  "(json \<Rightarrow> opcode res) \<Rightarrow> (opcode \<Rightarrow> json) \<Rightarrow> timeout list \<Rightarrow> ((clock_site \<Rightarrow> timestamp) \<times> exec_script) list \<Rightarrow>
   pstate \<Rightarrow> (proc_result \<times> pstate) res" where
  "run_processor load getstate strategy [] st = Inr (DEFER, st)"
| "run_processor load getstate strategy ((clock, script) # rounds) st =
     res_bind (JobProcessor_call load getstate strategy clock script st) (\<lambda>(result, st').
       if result = FINISHED then Inr (FINISHED, st')
       else run_processor load getstate strategy rounds st')"

text \<open>No opcode has dependencies.\<close>

definition no_deps :: "queued_job \<Rightarrow> bool" where
  "no_deps job \<longleftrightarrow> (\<forall>op \<in> set (qj_ops job). op_depends (qo_input op) \<in> {None, Some []}) \<and>
     (case qj_cur_opctx job of None \<Rightarrow> True | Some c \<Rightarrow> ctx_jobdeps c \<in> {None, Some []})"

lemma no_deps_parts:
  "no_deps job \<longleftrightarrow> (\<forall>x \<in> set (parts job). op_depends (snd x) \<in> {None, Some []}) \<and>
     (case qj_cur_opctx job of None \<Rightarrow> True | Some c \<Rightarrow> ctx_jobdeps c \<in> {None, Some []})"
  by (auto simp: no_deps_def parts_def)

lemma end_attempt_ctx: "end_attempt clock i w (ctx, q, job) = Inr (w', ctx', st') \<Longrightarrow> w' = w \<and> ctx' = ctx"
  by (auto simp: end_attempt_def Let_def res_simps split: if_splits)

lemma ExecOpCodeUnlocked_ctx:
  "ExecOpCodeUnlocked getstate script ctx st = Inr (r, ctx', st') \<Longrightarrow> ctx_jobdeps ctx' = ctx_jobdeps ctx"
  by (auto simp: ExecOpCodeUnlocked_def GetNextLockTimeout_eq Let_def res_simps
      split: prod.splits exec_outcome.splits if_splits)

lemma CheckDependencies_none:
  "ctx_jobdeps ctx \<in> {None, Some []} \<Longrightarrow> CheckDependencies load now ctx st = Inr (wait, ctx', st') \<Longrightarrow>
   \<not> wait \<and> ctx_jobdeps ctx' \<in> {None, Some []}"
  by (cases st) (auto simp: CheckDependencies_def)

lemma call_attempt_no_deps:
  assumes "ctx_jobdeps ctx \<in> {None, Some []}"
    and "call_attempt load getstate clock script ctx (q, job) = Inr (w, ctx', (q', job'))"
  shows "\<not> w \<and> ctx_jobdeps ctx' \<in> {None, Some []}"
  using assms(2) unfolding call_attempt_end Let_def
  by (elim res_bindE) (auto elim!: res_bindE dest!: end_attempt_ctx ExecOpCodeUnlocked_ctx
      CheckDependencies_none [OF assms(1)] split: if_splits)

definition inputs :: "queued_job \<Rightarrow> opcode list" where
  "inputs job = map qo_input (qj_ops job)"

lemma no_deps_inputs:
  "no_deps job \<longleftrightarrow> (\<forall>x \<in> set (inputs job). op_depends x \<in> {None, Some []}) \<and>
     (case qj_cur_opctx job of None \<Rightarrow> True | Some c \<Rightarrow> ctx_jobdeps c \<in> {None, Some []})"
  by (auto simp: no_deps_def inputs_def)

lemma inputs_parts: "parts job' = parts job \<Longrightarrow> inputs job' = inputs job"
  by (drule arg_cong [of _ _ "map snd"]) (simp add: inputs_def parts_def comp_def)

lemma inputs_upd: "qo_input (f (op_at job i)) = qo_input (op_at job i) \<Longrightarrow> inputs (upd_op i f job) = inputs job"
  unfolding inputs_def upd_op_def op_at_def by (simp add: map_upd_same)

lemma inputs_other [simp]:
  "inputs (job\<lparr>qj_cur_opctx := c\<rparr>) = inputs job" "inputs (Finalize now job) = inputs job"
  "inputs (job\<lparr>qj_ops_iter := k\<rparr>) = inputs job"
  by (simp_all add: inputs_def Finalize_def)

lemma Finalize_ctx [simp]: "qj_cur_opctx (Finalize now job) = qj_cur_opctx job"
  by (simp add: Finalize_def)

lemma MarkUnfinishedOps_inputs:
  assumes "MarkUnfinishedOps st x job = Inr job'"
  shows "inputs job' = inputs job \<and> qj_cur_opctx job' = qj_cur_opctx job"
  using assms parts_MarkUnfinishedOps [OF assms, THEN inputs_parts]
  by (auto simp: MarkUnfinishedOps_def res_simps)

lemma call_finish_no_deps:
  assumes run: "call_finish getstate strategy clock k False ctx (q, job) = Inr (result, (q', job'))"
    and deps: "\<forall>x \<in> set (inputs job). op_depends x \<in> {None, Some []}" "ctx_jobdeps ctx \<in> {None, Some []}"
  shows "result \<noteq> WAITDEP \<and> no_deps job'"
proof -
  obtain inc ctx1 op1 where ws: "CheckPriorityIncrease strategy ctx (op_at job (ctx_index ctx)) = (inc, ctx1, op1)"
    by (metis surj_pair)
  then have "wait_step strategy False ctx (op_at job (ctx_index ctx)) = (inc, ctx1, op1)" by (simp add: wait_step_def)
  then have op1: "qo_input op1 = qo_input (op_at job (ctx_index ctx))" by (rule wait_step_facts(6))
  have ctx1: "ctx_jobdeps ctx1 = ctx_jobdeps ctx"
    using ws by (auto simp: CheckPriorityIncrease_def split_beta Let_def split: if_splits)
  have upd: "inputs (upd_op (ctx_index ctx) (\<lambda>_. op1) job) = inputs job" using op1 by (rule inputs_upd)
  have "result \<noteq> WAITDEP \<and> inputs job' = inputs job \<and> qj_cur_opctx job' \<in> {None, Some ctx1}"
    using run unfolding call_finish_def Let_def prod.case
    by (auto elim!: res_bindE simp: ws upd dest!: MarkUnfinishedOps_inputs split: if_splits op_status.splits)
  then show ?thesis using deps ctx1 by (auto simp: no_deps_inputs)
qed

lemma FindNextOpcode_ctx:
  assumes "FindNextOpcode strategy job = Inr (ctx, job1)" and "no_deps job"
  shows "ctx_jobdeps ctx \<in> {None, Some []} \<and> inputs job1 = inputs job"
proof -
  have "find_next strategy k ops = Inr (ctx, n) \<Longrightarrow> \<exists>op \<in> set ops. \<exists>i. ctx = OpExecContext op i strategy" for k ops n
    by (induction ops arbitrary: k) (auto split: if_splits)
  then obtain op i where "op \<in> set (qj_ops job)" "ctx = OpExecContext op i strategy"
    using assms(1) by (fastforce simp: FindNextOpcode_def Let_def res_simps dest!: in_set_dropD)
  moreover have "inputs job1 = inputs job" using assms(1) by (auto simp: FindNextOpcode_def Let_def res_simps)
  ultimately show ?thesis using assms(2) by (force simp: no_deps_def OpExecContext_def)
qed

lemma JobProcessor_call_no_deps:
  assumes "no_deps job" and "no_prio_change script"
    and "JobProcessor_call load getstate strategy clock script (q, job) = Inr (result, (q', job'))"
  shows "result \<noteq> WAITDEP \<and> no_deps job'"
proof (cases "CalcStatus job \<in> JOBS_FINALIZED")
  case True
  with assms show ?thesis by (auto simp: JobProcessor_call_def elim!: res_bindE)
next
  case False
  have start: "ctx_jobdeps ctx \<in> {None, Some []} \<and> inputs job1 = inputs job"
    if "(case qj_cur_opctx job of Some ctx \<Rightarrow> Inr (ctx, job\<lparr>qj_cur_opctx := None\<rparr>)
          | None \<Rightarrow> FindNextOpcode strategy job) = Inr (ctx, job1)" for ctx job1
    using that assms(1) FindNextOpcode_ctx [of strategy job ctx job1]
    by (auto simp: no_deps_def split: option.splits)
  have att: "\<not> w \<and> ctx_jobdeps ctx' \<in> {None, Some []} \<and> inputs job2 = inputs job1"
    if "call_attempt load getstate clock script ctx (q, job1) = Inr (w, ctx', (q2, job2))"
      "ctx_jobdeps ctx \<in> {None, Some []}" for ctx job1 w ctx' q2 job2
    using call_attempt_no_deps [OF that(2,1)] parts_call_attempt [OF assms(2) that(1), THEN inputs_parts] by simp
  have deps: "\<forall>x \<in> set (inputs job). op_depends x \<in> {None, Some []}" using assms(1) by (simp add: no_deps_inputs)
  have fin: "res \<noteq> WAITDEP \<and> no_deps job3"
    if "call_finish getstate strategy clock k False ctx (q2, job2) = Inr (res, (q3, job3))"
      "inputs job2 = inputs job" "ctx_jobdeps ctx = None \<or> ctx_jobdeps ctx = Some []" for k ctx q2 job2 res q3 job3
    using call_finish_no_deps [OF that(1)] that(2,3) deps by simp
  show ?thesis
    using assms(3) False unfolding JobProcessor_call_def Let_def prod.case
    by (auto elim!: res_bindE split: if_splits dest!: start att) ((drule fin, simp, simp, simp)+)
qed

text \<open>
  How many more calls a job can need: each opcode may use up every lock timeout at each of the
  forty priorities.
\<close>

definition tw_rem :: "timeout_wrapper \<Rightarrow> nat" where
  "tw_rem w = length (tw_fn w) + (if tw_next w = None then 0 else 1)"

definition call_budget :: "timeout list \<Rightarrow> queued_job \<Rightarrow> nat" where
  "call_budget strategy job =
     (length (qj_ops job) - done_count (statuses job) - 1) * (40 * (length strategy + 1))
     + nat (cur_prio job + 20) * (length strategy + 1) + tw_rem (start_strategy strategy job)"

lemma tw_rem_init [simp]: "tw_rem (tw_init ts) = length ts"
  by (simp add: tw_rem_def tw_init_def)

lemma tw_rem_Next: "fst (tw_Next w) \<noteq> None \<Longrightarrow> tw_rem (snd (tw_Next w)) < tw_rem w"
  by (auto simp: tw_Next_def tw_Advance_def tw_rem_def Let_def split: option.splits list.splits)

lemma tw_rem_Peek [simp]: "tw_rem (snd (tw_Peek w)) = tw_rem w"
  by (auto simp: tw_Peek_def tw_Advance_def tw_rem_def Let_def split: option.splits list.splits)

lemma retried_less:
  assumes "retried strategy w w1 p p1" and "OP_PRIO_HIGHEST \<le> p" and "tw_rem w \<le> length strategy"
  shows "tw_rem w1 \<le> length strategy"
    and "nat (p1 + 20) * (length strategy + 1) + tw_rem w1 < nat (p + 20) * (length strategy + 1) + tw_rem w"
proof -
  have less: "tw_rem (snd (tw_Next w)) < tw_rem w" using assms(1) by (intro tw_rem_Next) (simp add: retried_def)
  consider "w1 = tw_init strategy" "p1 = p - 1" "OP_PRIO_HIGHEST < p"
    | "w1 = snd (tw_Peek (snd (tw_Next w)))" "p1 = p"
    using assms(1) by (auto simp: retried_def split_beta Let_def split: if_splits)
  then have "tw_rem w1 \<le> length strategy \<and>
     nat (p1 + 20) * (length strategy + 1) + tw_rem w1 < nat (p + 20) * (length strategy + 1) + tw_rem w"
  proof cases
    case 1
    then have "nat (p + 20) = Suc (nat (p1 + 20))" by (simp add: prio_defs)
    with 1 less show ?thesis by simp
  next
    case 2
    with less assms(3) show ?thesis by simp
  qed
  then show "tw_rem w1 \<le> length strategy"
    and "nat (p1 + 20) * (length strategy + 1) + tw_rem w1 < nat (p + 20) * (length strategy + 1) + tw_rem w" by simp_all
qed

lemma cur_prio_range:
  assumes "proc_inv load getstate job" and "CalcStatus job \<notin> JOBS_FINALIZED"
  shows "OP_PRIO_HIGHEST \<le> cur_prio job" and "nat (cur_prio job + 20) \<le> 39"
    and "done_count (statuses job) < length (qj_ops job)"
proof -
  obtain n m s where f: "job_form n m s job" and s: "s \<in> {OP_STATUS_QUEUED, OP_STATUS_WAITING, OP_STATUS_CANCELING}"
    and n: "n = done_count (statuses job)" and b: "job_base load getstate job"
    using proc_inv_form [OF assms] by blast
  have "s \<noteq> OP_STATUS_SUCCESS" using s by auto
  from job_form_facts(1) [OF f this] show l: "done_count (statuses job) < length (qj_ops job)" by (simp add: n)
  have "op_ok (op_at job (done_count (statuses job)))" by (rule op_ok_at [OF b l])
  then have "OP_PRIO_HIGHEST \<le> cur_prio job" "cur_prio job \<le> OP_PRIO_LOWEST"
    by (simp_all add: op_ok_def cur_prio_def)
  then show "OP_PRIO_HIGHEST \<le> cur_prio job" "nat (cur_prio job + 20) \<le> 39"
    by (simp_all add: prio_defs)
qed

lemma call_budget_bound:
  assumes "proc_inv load getstate job" and "CalcStatus job \<notin> JOBS_FINALIZED"
    and "tw_rem (start_strategy strategy job) \<le> length strategy"
  shows "call_budget strategy job < (length (qj_ops job) - done_count (statuses job)) * (40 * (length strategy + 1))"
proof -
  let ?L = "length strategy + 1"
  have "nat (cur_prio job + 20) * ?L \<le> 39 * ?L" using cur_prio_range(2) [OF assms(1,2)] by (rule mult_le_mono1)
  then have "nat (cur_prio job + 20) * ?L + tw_rem (start_strategy strategy job) < 39 * ?L + ?L"
    using assms(3) by (intro add_le_less_mono) simp_all
  then have rest: "nat (cur_prio job + 20) * ?L + tw_rem (start_strategy strategy job) < 40 * ?L" by simp
  obtain k where "length (qj_ops job) - done_count (statuses job) = Suc k"
    using cur_prio_range(3) [OF assms(1,2)] by (metis Suc_diff_Suc)
  with rest show ?thesis by (simp add: call_budget_def)
qed

lemma call_budget_decreases:
  assumes inv: "proc_inv load getstate job" "CalcStatus job \<notin> JOBS_FINALIZED"
    and post: "call_post load getstate strategy script job (DEFER, (q', job'))" and "no_prio_change script"
    and rem: "tw_rem (start_strategy strategy job) \<le> length strategy"
  shows "call_budget strategy job' < call_budget strategy job \<and> tw_rem (start_strategy strategy job') \<le> length strategy"
proof -
  have inv': "proc_inv load getstate job'" "CalcStatus job' \<notin> JOBS_FINALIZED"
    and len: "length (qj_ops job') = length (qj_ops job)" using post by (simp_all add: call_post_def)
  consider (step) "done_count (statuses job) < done_count (statuses job')" "qj_cur_opctx job' = None"
    | (retry) "lock_retry strategy script job job'" using post by (auto simp: call_post_def)
  then show ?thesis
  proof cases
    case step
    have r': "tw_rem (start_strategy strategy job') \<le> length strategy" using step(2) by (simp add: start_strategy_def)
    have "call_budget strategy job' < (length (qj_ops job) - done_count (statuses job')) * (40 * (length strategy + 1))"
      using call_budget_bound [OF inv' r'] by (simp add: len)
    also have "\<dots> \<le> (length (qj_ops job) - done_count (statuses job) - 1) * (40 * (length strategy + 1))"
      using step(1) by (intro mult_le_mono1) linarith
    also have "\<dots> \<le> call_budget strategy job" by (simp add: call_budget_def)
    finally show ?thesis using r' by simp
  next
    case retry
    then obtain c where n: "done_count (statuses job') = done_count (statuses job)" and c: "qj_cur_opctx job' = Some c"
      and r: "retried strategy (start_strategy strategy job) (ctx_strategy c) (cur_prio job) (cur_prio job')"
      using assms(4) by (auto simp: lock_retry_def)
    from retried_less [OF r cur_prio_range(1) [OF inv] rem] show ?thesis
      using n len c by (simp add: call_budget_def start_strategy_def)
  qed
qed

lemma run_processor_finishes:
  assumes "proc_inv load getstate job" and "no_deps job"
    and "\<And>clock script. (clock, script) \<in> set rounds \<Longrightarrow> exec_protocol script \<and> no_prio_change script"
    and "tw_rem (start_strategy strategy job) \<le> length strategy"
    and "CalcStatus job \<in> JOBS_FINALIZED \<and> rounds \<noteq> [] \<or> call_budget strategy job < length rounds"
  shows "\<exists>q' job'. run_processor load getstate strategy rounds (q, job) = Inr (FINISHED, (q', job')) \<and>
     proc_inv load getstate job' \<and> CalcStatus job' \<in> JOBS_FINALIZED \<and>
     (CalcStatus job \<notin> JOBS_FINALIZED \<longrightarrow> dep_status_fn load q' (qj_id job) = Some (CalcStatus job'))"
  using assms
proof (induction rounds arbitrary: q job)
  case (Cons r rounds)
  obtain clock script where r: "r = (clock, script)" by (cases r)
  have ok: "exec_protocol script" "no_prio_change script" using Cons.prems(3) [of clock script] r by simp_all
  show ?case
  proof (cases "CalcStatus job \<in> JOBS_FINALIZED")
    case True
    moreover have "qj_writable job" using Cons.prems(1) by (simp add: proc_inv_def job_base_def)
    ultimately show ?thesis using Cons.prems(1) by (simp add: r JobProcessor_call_finalized)
  next
    case False
    obtain result q1 job1 where call: "JobProcessor_call load getstate strategy clock script (q, job) = Inr (result, (q1, job1))"
      and post: "call_post load getstate strategy script job (result, (q1, job1))"
      using JobProcessor_call_post [OF Cons.prems(1) False ok(1), of strategy clock q] by (metis surj_pair)
    have inv1: "proc_inv load getstate job1" "qj_id job1 = qj_id job" using post by (simp_all add: call_post_def)
    have nd: "result \<noteq> WAITDEP" "no_deps job1"
      using JobProcessor_call_no_deps [OF Cons.prems(2) ok(2) call] by simp_all
    show ?thesis
    proof (cases "result = FINISHED")
      case True
      then show ?thesis using call post inv1 by (auto simp: r call_post_def)
    next
      case nf: False
      then have res: "result = DEFER" using nd(1) by (cases result) simp_all
      have fin1: "CalcStatus job1 \<notin> JOBS_FINALIZED" using post nf by (simp add: call_post_def)
      have b: "call_budget strategy job1 < call_budget strategy job" "tw_rem (start_strategy strategy job1) \<le> length strategy"
        using call_budget_decreases [OF Cons.prems(1) False post [unfolded res] ok(2) Cons.prems(4)] by simp_all
      have "\<exists>q' job'. run_processor load getstate strategy rounds (q1, job1) = Inr (FINISHED, (q', job')) \<and>
         proc_inv load getstate job' \<and> CalcStatus job' \<in> JOBS_FINALIZED \<and>
         (CalcStatus job1 \<notin> JOBS_FINALIZED \<longrightarrow> dep_status_fn load q' (qj_id job1) = Some (CalcStatus job'))"
      proof (rule Cons.IH [OF inv1(1) nd(2) _ b(2)])
        show "CalcStatus job1 \<in> JOBS_FINALIZED \<and> rounds \<noteq> [] \<or> call_budget strategy job1 < length rounds"
          using Cons.prems(5) False b(1) by simp
      qed (use Cons.prems(3) in auto)
      then show ?thesis using call res fin1 inv1(2) by (auto simp: r)
    qed
  qed
qed auto

section \<open>The job process\<close>

text \<open>
  The signals that arrived during one round: a cancel request (with the clock reading of the
  cancellation), and a priority change with the content of its file, \<open>None\<close> when the file
  cannot be read as a number.
\<close>

record main_signals =
  sig_cancel :: "timestamp option"
  sig_prio :: "int option option"

text \<open>
  \<^verbatim>\<open>JobQueue._memcache\<close> is a weak dictionary: the object that a request loaded is dropped when
  the request returns.
\<close>

definition drop_cache :: "jqueue \<Rightarrow> jqueue" where
  "drop_cache q = q\<lparr>jq_memcache := Map.empty\<rparr>"

text \<open>
  The loop's state: the queue, and the job object, \<open>None\<close> once the job could not be loaded
  again; the next call then fails on it.
\<close>

type_synonym main_state = "jqueue \<times> queued_job option"

definition main_cancel ::
  "(json \<Rightarrow> opcode res) \<Rightarrow> (opcode \<Rightarrow> json) \<Rightarrow> int \<Rightarrow> timestamp option \<Rightarrow> main_state \<Rightarrow> main_state res" where
  "main_cancel load getstate job_id cancel st = (case cancel of
     None \<Rightarrow> Inr st
   | Some now \<Rightarrow>
       res_bind (JobQueue_CancelJob load getstate now job_id (drop_cache (fst st))) (\<lambda>(_, q').
       res_bind (SafeLoadJobFromDisk load q' job_id False None) (\<lambda>job. Inr (drop_cache q', job))))"

text \<open>Every exception of the priority change is caught; the old job object is then kept.\<close>

definition main_prio ::
  "(json \<Rightarrow> opcode res) \<Rightarrow> (opcode \<Rightarrow> json) \<Rightarrow> int \<Rightarrow> int option option \<Rightarrow> main_state \<Rightarrow> main_state" where
  "main_prio load getstate job_id prio st = (case prio of
     Some (Some new_prio) \<Rightarrow>
       (case ChangeJobPriority load getstate job_id new_prio (drop_cache (fst st)) of
          Inl _ \<Rightarrow> st
        | Inr (_, q') \<Rightarrow>
            (case SafeLoadJobFromDisk load q' job_id False None of
               Inl _ \<Rightarrow> (drop_cache q', snd st)
             | Inr job \<Rightarrow> (drop_cache q', job)))
   | _ \<Rightarrow> st)"

text \<open>The loop; a round is the clock and the execution of the call, and the signals after it.\<close>

fun main_loop ::
  "(json \<Rightarrow> opcode res) \<Rightarrow> (opcode \<Rightarrow> json) \<Rightarrow> timeout list \<Rightarrow> int \<Rightarrow>
   ((clock_site \<Rightarrow> timestamp) \<times> exec_script \<times> main_signals) list \<Rightarrow> main_state \<Rightarrow> (proc_result \<times> main_state) res" where
  "main_loop load getstate strategy job_id [] st = Inr (DEFER, st)"
| "main_loop load getstate strategy job_id ((clock, script, sigs) # rounds) (q, None) =
     Inl (OtherError ''AttributeError'')"
| "main_loop load getstate strategy job_id ((clock, script, sigs) # rounds) (q, Some job) =
     res_bind (JobProcessor_call load getstate strategy clock script (q, job)) (\<lambda>(result, q1, job1).
     res_bind (main_cancel load getstate job_id (sig_cancel sigs) (q1, Some job1)) (\<lambda>st2.
       (let st3 = main_prio load getstate job_id (sig_prio sigs) st2 in
        if result = FINISHED then Inr (FINISHED, st3)
        else main_loop load getstate strategy job_id rounds st3)))"

definition exec_main ::
  "(json \<Rightarrow> opcode res) \<Rightarrow> (opcode \<Rightarrow> json) \<Rightarrow> timeout list \<Rightarrow> int \<Rightarrow> int \<Rightarrow>
   ((clock_site \<Rightarrow> timestamp) \<times> exec_script \<times> main_signals) list \<Rightarrow> jqueue \<Rightarrow> (proc_result \<times> main_state) res" where
  "exec_main load getstate strategy job_id pid rounds q =
     res_bind (SafeLoadJobFromDisk load q job_id False None) (\<lambda>found. case found of
       None \<Rightarrow> Inl (OtherError ''AttributeError'')
     | Some job \<Rightarrow> main_loop load getstate strategy job_id rounds (q, Some (SetPid pid job)))"

section \<open>Properties\<close>

definition no_signals :: main_signals where
  "no_signals = \<lparr>sig_cancel = None, sig_prio = None\<rparr>"

lemma main_loop_quiet:
  "main_loop load getstate strategy job_id (map (\<lambda>(c, s). (c, s, no_signals)) rounds) (q, Some job) =
     res_bind (run_processor load getstate strategy rounds (q, job)) (\<lambda>(r, q', job'). Inr (r, q', Some job'))"
proof (induction rounds arbitrary: q job)
  case (Cons r rounds)
  obtain clock script where r: "r = (clock, script)" by (cases r)
  show ?case
  proof (cases "JobProcessor_call load getstate strategy clock script (q, job)")
    case (Inr x)
    obtain res q1 job1 where "x = (res, q1, job1)" by (metis surj_pair)
    with Inr Cons.IH show ?thesis by (simp add: r main_cancel_def main_prio_def no_signals_def Let_def)
  qed (simp add: r)
qed simp

text \<open>A job as submitted.\<close>

definition valid_input :: "opcode \<Rightarrow> bool" where
  "valid_input op \<longleftrightarrow>
     (case op_priority op of None \<Rightarrow> True | Some p \<Rightarrow> OP_PRIO_HIGHEST \<le> p \<and> p \<le> OP_PRIO_LOWEST) \<and>
     (case op_depends op of None \<Rightarrow> True | Some ds \<Rightarrow> deps_ok ds)"

lemma add_reasons_ok:
  "add_reasons pickup i nano k ops = Inr ops' \<Longrightarrow>
   length ops' = length ops \<and> map qo_status ops' = map qo_status ops \<and> map qo_log ops' = map qo_log ops \<and>
   map qo_priority ops' = map qo_priority ops \<and> map qo_end_timestamp ops' = map qo_end_timestamp ops \<and>
   map (\<lambda>op. op_depends (qo_input op)) ops' = map (\<lambda>op. op_depends (qo_input op)) ops"
proof (induction ops arbitrary: k ops')
  case (Cons op ops)
  then obtain op1 ops1 where 1: "add_reason pickup i nano k op = Inr op1" "add_reasons pickup i nano (Suc k) ops = Inr ops1"
    "ops' = op1 # ops1" by (auto simp: res_simps)
  from Cons.IH [OF 1(2)] 1(1,3) show ?case by (auto simp: add_reason_def Let_def res_simps)
qed simp

lemma list_all_map_eq: "list_all P (map f xs) \<longleftrightarrow> list_all (\<lambda>x. P (f x)) xs"
  by (simp add: list_all_iff)

lemma QueuedJob_proc_inv:
  assumes "QueuedJob now nano i ops True = Inr job" and "0 \<le> i" and "list_all valid_input ops"
    and codec: "\<And>op. op \<in> set (qj_ops job) \<Longrightarrow> load (getstate (qo_input op)) = Inr (qo_input op)"
  shows "proc_inv load getstate job" and "CalcStatus job = OP_STATUS_QUEUED" and "qj_cur_opctx job = None"
proof -
  have ne: "ops \<noteq> []" using assms(1) by (auto simp: QueuedJob_def split: if_splits)
  obtain ops' where r: "add_reasons False i nano 0 (map QueuedOpCode ops) = Inr ops'"
    and job: "qj_ops job = ops'" "qj_id job = i" "qj_log_serial job = 0" "qj_ops_iter job = None" "qj_cur_opctx job = None"
      "qj_end_timestamp job = None" "qj_writable job" "\<not> qj_archived job"
    using assms(1) ne by (auto simp: QueuedJob_def AddReasons_def InitInMemory_def res_simps)
  note A = add_reasons_ok [OF r]
  have st: "statuses job = replicate (length ops) OP_STATUS_QUEUED"
    using A job(1) by (simp add: statuses_def QueuedOpCode_def comp_def map_replicate_const)
  have f: "job_form 0 (length ops - 1) OP_STATUS_QUEUED job"
    using ne by (simp add: job_form_def st tail_of_def)
  have log: "map qo_log ops' = replicate (length ops) []"
    using A by (simp add: QueuedOpCode_def comp_def map_replicate_const)
  have "storable load getstate job"
    using codec job log by (simp add: storable_def log_wf_def job_log_def)
  moreover have "list_all op_ok ops'"
  proof (rule list_all_length [THEN iffD2], intro allI impI)
    fix k assume k: "k < length ops'"
    let ?op = "QueuedOpCode (ops ! k)"
    have "valid_input (ops ! k)" using assms(3) k A by (simp add: list_all_length)
    moreover have "qo_priority (ops' ! k) = qo_priority ?op" "qo_end_timestamp (ops' ! k) = None"
      "op_depends (qo_input (ops' ! k)) = op_depends (ops ! k)"
      using A k by (auto simp: list_eq_iff_nth_eq QueuedOpCode_def)
    ultimately show "op_ok (ops' ! k)"
      by (auto simp: op_ok_def valid_input_def QueuedOpCode_def prio_defs split: option.splits)
  qed
  ultimately have b: "job_base load getstate job" using job assms(2) by (simp add: job_base_def)
  show "proc_inv load getstate job"
    using job by (intro proc_inv_active [OF b _ f]) (simp_all add: ctl_ok_def iter_le_def)
  show "CalcStatus job = OP_STATUS_QUEUED" by (rule CalcStatus_form [OF f])
  show "qj_cur_opctx job = None" by (rule job(5))
qed

section \<open>Interleaving calls and requests\<close>

lemma mark_job_form:
  assumes "job_form n m s job" and "s \<noteq> OP_STATUS_SUCCESS" and "st \<in> {OP_STATUS_CANCELED, OP_STATUS_CANCELING}"
  shows "job_form n m st (mark_job st r job)"
  using statuses_marked [of "qj_ops job" n s m st r] assms job_form_facts(5) [OF assms(1,2)]
  by (auto simp: mark_job_def job_form_def statuses_def Let_def)

lemma mark_job_base:
  assumes "job_base load getstate job" and "st \<in> {OP_STATUS_CANCELED, OP_STATUS_CANCELING}"
  shows "job_base load getstate (mark_job st r job)"
proof -
  have "list_all op_ok (qj_ops (mark_job st r job))"
    using assms unfolding job_base_def mark_job_def Let_def
    by (auto simp: list_all_iff op_ok_def dest: in_set_takeD in_set_dropD)
  then show ?thesis using assms(1) by (simp add: job_base_def storable_mark_job)
qed

lemma ctl_ok_ops [simp]: "ctl_ok n (job\<lparr>qj_ops := ops\<rparr>) = ctl_ok n job"
  by (simp add: ctl_ok_def iter_le_def split: option.split)

lemma mark_job_ctl: "ctl_ok n (mark_job st r job) = ctl_ok n job"
  by (simp add: mark_job_def Let_def)

lemma proc_inv_cancel:
  assumes inv: "proc_inv load getstate job"
  shows "proc_inv load getstate (snd (cancel_result now job))"
proof (cases "CalcStatus job \<in> {OP_STATUS_QUEUED, OP_STATUS_WAITING}")
  case False
  then show ?thesis using inv by (auto simp: cancel_result_def)
next
  case True
  then have nf: "CalcStatus job \<notin> JOBS_FINALIZED" by (auto simp: finalized_defs)
  obtain n m s where f: "job_form n m s job" and s: "s \<in> {OP_STATUS_QUEUED, OP_STATUS_WAITING, OP_STATUS_CANCELING}"
    and c: "ctl_ok n job" and b: "job_base load getstate job" and e: "qj_end_timestamp job = None"
    using proc_inv_form [OF inv nf] by blast
  have ns: "s \<noteq> OP_STATUS_SUCCESS" using s by auto
  show ?thesis
  proof (cases "CalcStatus job = OP_STATUS_QUEUED")
    case True
    let ?job = "mark_job OP_STATUS_CANCELED (JStr ''Job canceled by request'') job"
    have "job_form n m OP_STATUS_CANCELED (Finalize now ?job)"
      using mark_job_form [OF f ns, of OP_STATUS_CANCELED] by (simp add: job_form_def Finalize_def)
    moreover have "job_base load getstate (Finalize now ?job)"
      using mark_job_base [OF b, of OP_STATUS_CANCELED] by (simp add: Finalize_def)
    moreover have "qj_ops (Finalize now ?job) \<noteq> []"
      using inv by (auto simp: Finalize_def mark_job_def Let_def proc_inv_def)
    moreover have "qj_end_timestamp (Finalize now ?job) \<noteq> None" by (simp add: Finalize_def)
    ultimately have "proc_inv load getstate (Finalize now ?job)"
      by (intro proc_inv_final(1) [where n = n and m = m and s = OP_STATUS_CANCELED]) (simp_all add: finalized_defs)
    then show ?thesis using True by (simp add: cancel_result_def)
  next
    case w: False
    then have "CalcStatus job = OP_STATUS_WAITING" using True by simp
    moreover have "proc_inv load getstate (mark_job OP_STATUS_CANCELING JNull job)"
      by (rule proc_inv_active [OF mark_job_base [OF b] _ mark_job_form [OF f ns]])
        (use e c in \<open>simp_all add: mark_job_ctl\<close>)
    ultimately show ?thesis by (simp add: cancel_result_def)
  qed
qed

lemma op_ok_prio: "op_ok op \<Longrightarrow> p \<in> OP_PRIO_SUBMIT_VALID \<Longrightarrow> op_ok (set_pending_prio p op)"
  by (auto simp: op_ok_def set_pending_prio_def prio_defs)

lemma proc_inv_prio:
  assumes inv: "proc_inv load getstate job" and p: "p \<in> OP_PRIO_SUBMIT_VALID"
  shows "proc_inv load getstate (job\<lparr>qj_ops := map (set_pending_prio p) (qj_ops job)\<rparr>)"
proof -
  let ?ops = "map (set_pending_prio p) (qj_ops job)"
  let ?job = "job\<lparr>qj_ops := ?ops\<rparr>"
  have "storable load getstate ?job"
    by (rule storable_update_ops)
      (use inv in \<open>simp_all add: proc_inv_def job_base_def set_pending_prio_def comp_def if_distrib cong: if_cong\<close>)
  moreover have "list_all op_ok ?ops"
    using inv op_ok_prio [OF _ p] by (simp add: proc_inv_def job_base_def list_all_iff)
  moreover have "statuses ?job = statuses job"
    unfolding statuses_update statuses_set_pending_prio by (simp add: statuses_def)
  moreover from this have "CalcStatus ?job = CalcStatus job" by (simp only: CalcStatus_statuses)
  ultimately show ?thesis using inv by (simp add: proc_inv_def job_base_def)
qed

lemma proc_inv_loaded:
  assumes "proc_inv load getstate job"
  shows "proc_inv load getstate (loaded True False job)"
proof -
  have "storable load getstate (loaded True False job) = storable load getstate job"
    by (simp add: storable_def log_wf_def job_log_def loaded_def)
  moreover have "ctl_ok n (loaded True False job)" for n by (simp add: ctl_ok_def iter_le_def loaded_def)
  ultimately show ?thesis using assms by (simp add: proc_inv_def job_base_def)
qed

text \<open>
  The life of a job object: calls of the processor with an execution that follows the protocol,
  cancel and priority requests on the same object between the calls, and the restart of the job
  process, which works on the job as its file represents it.
\<close>

inductive job_step ::
  "(json \<Rightarrow> opcode res) \<Rightarrow> (opcode \<Rightarrow> json) \<Rightarrow> timeout list \<Rightarrow> pstate \<Rightarrow> pstate \<Rightarrow> bool"
  for load getstate strategy where
  call: "exec_protocol script \<Longrightarrow> JobProcessor_call load getstate strategy clock script st = Inr (r, st') \<Longrightarrow>
     job_step load getstate strategy st st'"
| cancel: "job_step load getstate strategy st (queue_modify getstate (Cancel now) st)"
| prio: "p \<in> OP_PRIO_SUBMIT_VALID \<Longrightarrow>
     job_step load getstate strategy st (queue_modify getstate (ChangePriority p) st)"
| restart: "job_step load getstate strategy (q, job) (q, loaded True False job)"

definition fresh_job :: "(json \<Rightarrow> opcode res) \<Rightarrow> (opcode \<Rightarrow> json) \<Rightarrow> pstate \<Rightarrow> bool" where
  "fresh_job load getstate st \<longleftrightarrow> (\<exists>now nano i ops.
     QueuedJob now nano i ops True = Inr (snd st) \<and> 0 \<le> i \<and> list_all valid_input ops) \<and>
     (\<forall>op \<in> set (qj_ops (snd st)). load (getstate (qo_input op)) = Inr (qo_input op))"

lemma JobProcessor_call_inv:
  assumes "proc_inv load getstate job" and "exec_protocol script"
  shows "\<exists>r q' job'. JobProcessor_call load getstate strategy clock script (q, job) = Inr (r, (q', job')) \<and>
     proc_inv load getstate job'"
proof (cases "CalcStatus job \<in> JOBS_FINALIZED")
  case True
  moreover have "qj_writable job" using assms(1) by (simp add: proc_inv_def job_base_def)
  ultimately show ?thesis using assms(1) by (auto simp: JobProcessor_call_finalized)
next
  case False
  from JobProcessor_call_post [OF assms(1) this assms(2), of strategy clock q] show ?thesis
    by (auto simp: call_post_def)
qed

lemma queue_modify_job:
  "mod_fn job = Inr ((ok, msg), job') \<Longrightarrow> snd (queue_modify getstate mod_fn (q, job)) = job'"
  by (simp add: queue_modify_def cb_Update_job)

lemma proc_inv_step:
  assumes "proc_inv load getstate (snd st)" and "job_step load getstate strategy st st'"
  shows "proc_inv load getstate (snd st')"
proof -
  obtain q job where st: "st = (q, job)" by (cases st)
  have inv: "proc_inv load getstate job" and sh: "ops_shape (statuses job)" using assms(1) by (simp_all add: st proc_inv_def)
  from assms(2) show ?thesis
  proof cases
    case (call script clock r)
    then show ?thesis using JobProcessor_call_inv [OF inv call(1), of strategy clock q] st by auto
  next
    case (cancel now)
    obtain ok msg job' where c: "cancel_result now job = ((ok, msg), job')" by (metis surj_pair)
    then have cj: "Cancel now job = Inr ((ok, msg), job')" by (simp add: Cancel_shape [OF sh])
    show ?thesis using proc_inv_cancel [OF inv, of now] c
      by (simp add: cancel st queue_modify_job [of "Cancel now", OF cj])
  next
    case (prio p)
    show ?thesis
    proof (cases "CalcStatus job \<in> {OP_STATUS_QUEUED, OP_STATUS_WAITING, OP_STATUS_RUNNING}")
      case True
      from ChangePriority_shape [OF sh [unfolded statuses_def] True, of p] obtain c msg where
        "ChangePriority p job = Inr ((c, msg), job\<lparr>qj_ops := map (set_pending_prio p) (qj_ops job)\<rparr>)" by blast
      from queue_modify_job [of "ChangePriority p", OF this] show ?thesis using proc_inv_prio [OF inv prio(2)] by (simp add: prio st)
    next
      case False
      then obtain msg where "ChangePriority p job = Inr ((False, msg), job)"
        by (cases "CalcStatus job") (auto simp: ChangePriority_def finalized_defs)
      from queue_modify_job [of "ChangePriority p", OF this] show ?thesis using inv by (simp add: prio st)
    qed
  next
    case (restart q1 job1)
    then show ?thesis using proc_inv_loaded [OF inv] st by simp
  qed
qed

interpretation job_life: inductive_invariant "fresh_job load getstate" "job_step load getstate strategy"
    "\<lambda>st. proc_inv load getstate (snd st)"
  for load :: "json \<Rightarrow> opcode res" and getstate :: "opcode \<Rightarrow> json" and strategy :: "timeout list"
proof unfold_locales
  fix st assume "fresh_job load getstate st"
  then show "proc_inv load getstate (snd st)" using QueuedJob_proc_inv(1) by (auto simp: fresh_job_def)
next
  fix s t assume "proc_inv load getstate (snd s)" and "job_step load getstate strategy s t"
  then show "proc_inv load getstate (snd t)" by (rule proc_inv_step)
qed






section \<open>Witnesses\<close>

definition sample_queued :: queued_job where
  "sample_queued = sample_job [sample_op OP_STATUS_QUEUED []] 0"

definition sample_clock :: "clock_site \<Rightarrow> timestamp" where
  "sample_clock c = (20, 0)"

definition sample_script :: exec_script where
  "sample_script t = ([EvPriority, EvStart (21, 0), EvFeedback (22, 0) [JStr ''working'']], Returned (JInt 3))"

definition sample_retry :: exec_script where
  "sample_retry t = ([EvStart (21, 0), EvRetry], TimedOut)"

lemma sample_script_protocol: "exec_protocol sample_script" "no_prio_change sample_script"
  by (simp_all add: exec_protocol_def no_prio_change_def sample_script_def)

lemma sample_queued_inv: "proc_inv sample_load sample_getstate sample_queued"
proof -
  have "job_form 0 0 OP_STATUS_QUEUED sample_queued"
    by (simp add: job_form_def statuses_def sample_queued_def sample_defs tail_of_def)
  moreover have "job_base sample_load sample_getstate sample_queued"
    by (simp add: job_base_def storable_def log_wf_def job_log_def op_ok_def sample_queued_def sample_defs prio_defs)
  ultimately show ?thesis
    by (intro proc_inv_active [where n = 0 and m = 0 and s = OP_STATUS_QUEUED])
      (simp_all add: sample_queued_def sample_defs ctl_ok_def iter_le_def)
qed

lemma sample_queued_simps: "no_deps sample_queued" "qj_cur_opctx sample_queued = None" "length (qj_ops sample_queued) = 1"
  by (simp_all add: no_deps_def sample_queued_def sample_defs)



definition sample_submitted :: queued_job where
  "sample_submitted = (case QueuedJob (1, 0) 0 7 [sample_opcode] True of Inr job \<Rightarrow> job | Inl _ \<Rightarrow> sample_queued)"

lemma sample_submitted: "QueuedJob (1, 0) 0 7 [sample_opcode] True = Inr sample_submitted"
  by code_simp

definition submitted_load :: "json \<Rightarrow> opcode res" where
  "submitted_load j = Inr (qo_input (hd (qj_ops sample_submitted)))"

lemma sample_fresh: "fresh_job submitted_load sample_getstate (sample_queue, sample_submitted)"
proof -
  have "length (qj_ops sample_submitted) = 1" by code_simp
  then obtain op where "qj_ops sample_submitted = [op]" by (auto simp: length_Suc_conv)
  moreover have "list_all valid_input [sample_opcode]" by (simp add: valid_input_def sample_opcode_def)
  ultimately show ?thesis using sample_submitted
    by (auto simp: fresh_job_def submitted_load_def intro!: exI)
qed



end
