(* ===== verification/Heapq.thy ===== *)
theory Heapq
  imports "HOL-Library.Multiset"
begin

text \<open>
  The functions of Python's \<^verbatim>\<open>heapq\<close> module that the lock and the worker pool use, on lists
  and with the sift loops of the module written out. Elements are compared through a
  \<open>key\<close>; the laws the clients rely on (the first element is a least one, pushing and
  popping change the contents by exactly one element, both keep the heap property) are the
  locale \<open>min_queue\<close>, which the list functions interpret.
\<close>

section \<open>The module's functions\<close>

definition parent_pos :: "nat \<Rightarrow> nat" where
  "parent_pos i = (i - 1) div 2"

lemma parent_pos_less [termination_simp]: "0 < i \<Longrightarrow> parent_pos i < i"
  by (simp add: parent_pos_def)

fun siftdown :: "('a \<Rightarrow> 'k::linorder) \<Rightarrow> 'a list \<Rightarrow> nat \<Rightarrow> 'a \<Rightarrow> 'a list" where
  "siftdown key h pos x =
     (if 0 < pos \<and> key x < key (h ! parent_pos pos)
      then siftdown key (h[pos := h ! parent_pos pos]) (parent_pos pos) x
      else h[pos := x])"

declare siftdown.simps [simp del]

definition smaller_child :: "('a \<Rightarrow> 'k::linorder) \<Rightarrow> 'a list \<Rightarrow> nat \<Rightarrow> nat" where
  "smaller_child key h pos =
     (let c = 2 * pos + 1
      in if c + 1 < length h \<and> \<not> key (h ! c) < key (h ! (c + 1)) then c + 1 else c)"

function siftup_hole :: "('a \<Rightarrow> 'k::linorder) \<Rightarrow> 'a list \<Rightarrow> nat \<Rightarrow> 'a list \<times> nat" where
  "siftup_hole key h pos =
     (if 2 * pos + 1 < length h
      then siftup_hole key (h[pos := h ! smaller_child key h pos]) (smaller_child key h pos)
      else (h, pos))"
  by pat_completeness auto
termination
  by (relation "measure (\<lambda>(key, h, pos). length h - pos)")
    (auto simp: smaller_child_def Let_def)

declare siftup_hole.simps [simp del]

definition heappush :: "('a \<Rightarrow> 'k::linorder) \<Rightarrow> 'a list \<Rightarrow> 'a \<Rightarrow> 'a list" where
  "heappush key h x = siftdown key (h @ [x]) (length h) x"

definition heappop :: "('a \<Rightarrow> 'k::linorder) \<Rightarrow> 'a list \<Rightarrow> ('a \<times> 'a list) option" where
  "heappop key h =
     (if h = [] then None
      else let lastelt = last h; rest = butlast h
           in if rest = [] then Some (lastelt, [])
              else case siftup_hole key (rest[0 := lastelt]) 0 of
                     (g, pos) \<Rightarrow> Some (hd rest, siftdown key g pos lastelt))"

section \<open>The heap property\<close>

definition heap_ok :: "('a \<Rightarrow> 'k::linorder) \<Rightarrow> 'a list \<Rightarrow> bool" where
  "heap_ok key h \<longleftrightarrow> (\<forall>i<length h. 0 < i \<longrightarrow> key (h ! parent_pos i) \<le> key (h ! i))"

text \<open>The heap property except at one position, whose value is about to be written.\<close>

definition hole_ok :: "('a \<Rightarrow> 'k::linorder) \<Rightarrow> 'a list \<Rightarrow> nat \<Rightarrow> bool" where
  "hole_ok key h pos \<longleftrightarrow>
     (\<forall>i<length h. 0 < i \<and> i \<noteq> pos \<and> parent_pos i \<noteq> pos \<longrightarrow> key (h ! parent_pos i) \<le> key (h ! i)) \<and>
     (\<forall>i<length h. 0 < i \<and> parent_pos i = pos \<and> 0 < pos \<longrightarrow> key (h ! parent_pos pos) \<le> key (h ! i))"

lemma parent_pos_iff: "0 < i \<Longrightarrow> parent_pos i = p \<longleftrightarrow> i = 2 * p + 1 \<or> i = 2 * p + 2"
  unfolding parent_pos_def by arith

lemma length_siftdown [simp]: "length (siftdown key h pos x) = length h"
proof (induction key h pos x rule: siftdown.induct)
  case (1 key h pos x)
  then show ?case by (subst siftdown.simps) simp
qed

lemma mset_move:
  "p \<noteq> q \<Longrightarrow> p < length h \<Longrightarrow> q < length h \<Longrightarrow> mset ((h[q := h ! p])[p := x]) = mset (h[q := x])"
  by (simp add: mset_update)

lemma siftdown_mset:
  "pos < length h \<Longrightarrow> mset (siftdown key h pos x) = mset (h[pos := x])"
proof (induction key h pos x rule: siftdown.induct)
  case (1 key h pos x)
  show ?case
  proof (cases "0 < pos \<and> key x < key (h ! parent_pos pos)")
    case False
    then show ?thesis by (subst siftdown.simps) auto
  next
    case True
    let ?p = "parent_pos pos"
    have p: "?p < pos" using True parent_pos_less by blast
    then have "siftdown key h pos x = siftdown key (h[pos := h ! ?p]) ?p x"
      using True by (subst siftdown.simps) simp
    moreover have "mset (siftdown key (h[pos := h ! ?p]) ?p x) = mset ((h[pos := h ! ?p])[?p := x])"
      using 1 True p by simp
    moreover have "mset ((h[pos := h ! ?p])[?p := x]) = mset (h[pos := x])"
      using p "1.prems" by (intro mset_move) simp_all
    ultimately show ?thesis by simp
  qed
qed

lemma siftdown_heap:
  assumes "hole_ok key h pos" "pos < length h"
    and "\<And>i. i < length h \<Longrightarrow> 0 < i \<Longrightarrow> parent_pos i = pos \<Longrightarrow> key x \<le> key (h ! i)"
  shows "heap_ok key (siftdown key h pos x)"
  using assms
proof (induction key h pos x rule: siftdown.induct)
  case (1 key h pos x)
  let ?p = "parent_pos pos"
  note prems = "1.prems"
  show ?case
  proof (cases "0 < pos \<and> key x < key (h ! ?p)")
    case False
    then have "heap_ok key (h[pos := x])"
      using prems unfolding heap_ok_def hole_ok_def
      by (auto simp: nth_list_update not_less parent_pos_def)
    with False show ?thesis by (subst siftdown.simps) auto
  next
    case True
    let ?g = "h[pos := h ! ?p]"
    have p: "?p < pos" using True parent_pos_less by blast
    have "hole_ok key ?g ?p"
      unfolding hole_ok_def
    proof (intro conjI allI impI)
      fix i assume i: "i < length ?g" "0 < i \<and> i \<noteq> ?p \<and> parent_pos i \<noteq> ?p"
      then show "key (?g ! parent_pos i) \<le> key (?g ! i)"
        using prems True by (auto simp: hole_ok_def nth_list_update)
    next
      fix i assume i: "i < length ?g" "0 < i \<and> parent_pos i = ?p \<and> 0 < ?p"
      have e1: "key (h ! parent_pos ?p) \<le> key (h ! ?p)"
        using prems p i parent_pos_less [of ?p] by (auto simp: hole_ok_def)
      have e2: "i \<noteq> pos \<Longrightarrow> key (h ! ?p) \<le> key (h ! i)"
        using prems(1) i p unfolding hole_ok_def by (metis length_list_update less_irrefl)
      have "parent_pos ?p < ?p" using i parent_pos_less by blast
      then show "key (?g ! parent_pos ?p) \<le> key (?g ! i)"
        using e1 e2 p i by (cases "i = pos") (auto simp: nth_list_update)
    qed
    moreover have "key x \<le> key (?g ! i)" if "i < length ?g" "0 < i" "parent_pos i = ?p" for i
    proof (cases "i = pos")
      case True
      with \<open>0 < pos \<and> key x < key (h ! ?p)\<close> that show ?thesis by simp
    next
      case False
      then have "key (h ! ?p) \<le> key (h ! i)"
        using prems(1) that p unfolding hole_ok_def by (metis length_list_update less_irrefl)
      moreover have "key x \<le> key (h ! ?p)" using True by (simp add: less_imp_le)
      ultimately show ?thesis using False that by (simp add: order_trans)
    qed
    ultimately have "heap_ok key (siftdown key ?g ?p x)"
      using "1.IH" True p prems(2) by (metis length_list_update less_trans)
    then show ?thesis using True by (subst siftdown.simps) simp
  qed
qed

lemma smaller_child_props:
  assumes "2 * pos + 1 < length h"
  shows "smaller_child key h pos < length h" "pos < smaller_child key h pos"
    and "parent_pos (smaller_child key h pos) = pos"
    and "i < length h \<Longrightarrow> 0 < i \<Longrightarrow> parent_pos i = pos \<Longrightarrow> key (h ! smaller_child key h pos) \<le> key (h ! i)"
  using assms by (auto simp: smaller_child_def Let_def parent_pos_def [of "Suc _"] parent_pos_iff not_less)

lemma siftup_hole_props:
  assumes "hole_ok key h pos" "pos < length h" "siftup_hole key h pos = (g, q)"
  shows "hole_ok key g q \<and> q < length g \<and> length g = length h \<and> length g \<le> 2 * q + 1 \<and>
    mset (g[q := x]) = mset (h[pos := x])"
  using assms
proof (induction key h pos rule: siftup_hole.induct)
  case (1 key h pos)
  show ?case
  proof (cases "2 * pos + 1 < length h")
    case False
    with "1.prems" show ?thesis by (simp add: siftup_hole.simps [of key h pos])
  next
    case True
    let ?c = "smaller_child key h pos"
    let ?g = "h[pos := h ! ?c]"
    note c = smaller_child_props [where key = key, OF True]
    have "hole_ok key ?g ?c"
      unfolding hole_ok_def
    proof (intro conjI allI impI)
      fix i assume i: "i < length ?g" "0 < i \<and> i \<noteq> ?c \<and> parent_pos i \<noteq> ?c"
      consider "i = pos" | "i \<noteq> pos" "parent_pos i = pos" | "i \<noteq> pos" "parent_pos i \<noteq> pos" by blast
      then show "key (?g ! parent_pos i) \<le> key (?g ! i)"
      proof cases
        case a: 1
        then show ?thesis
          using "1.prems"(1,2) c i parent_pos_less [of i] by (auto simp: hole_ok_def nth_list_update)
      next
        case 2
        with i c(4) [of i] "1.prems"(2) show ?thesis by simp
      next
        case 3
        with i "1.prems"(1) show ?thesis by (simp add: hole_ok_def)
      qed
    next
      fix i assume i: "i < length ?g" "0 < i \<and> parent_pos i = ?c \<and> 0 < ?c"
      then have "i \<noteq> pos" using c(2) parent_pos_less [of i] by auto
      moreover have "key (h ! ?c) \<le> key (h ! i)"
        using i "1.prems"(1) c(2) \<open>i \<noteq> pos\<close> by (auto simp: hole_ok_def)
      ultimately show "key (?g ! parent_pos ?c) \<le> key (?g ! i)"
        using c(3) "1.prems"(2) by simp
    qed
    moreover have "siftup_hole key ?g ?c = (g, q)"
      using "1.prems"(3) True by (simp add: siftup_hole.simps [of key h pos])
    ultimately have IH: "hole_ok key g q \<and> q < length g \<and> length g = length ?g \<and> length g \<le> 2 * q + 1 \<and>
        mset (g[q := x]) = mset (?g[?c := x])"
      using "1.IH" [OF True] c(1) by simp
    moreover have "mset (?g[?c := x]) = mset (h[pos := x])"
      using c(1,2) "1.prems"(2) by (intro mset_move) simp_all
    ultimately show ?thesis using IH by simp
  qed
qed

lemma heap_ok_Nil [simp]: "heap_ok key []"
  by (simp add: heap_ok_def)

lemma heap_ok_least:
  assumes "heap_ok key h" "i < length h"
  shows "key (h ! 0) \<le> key (h ! i)"
  using assms(2)
proof (induction i rule: less_induct)
  case (less i)
  show ?case
  proof (cases "i = 0")
    case False
    then have "key (h ! 0) \<le> key (h ! parent_pos i)"
      using less parent_pos_less [of i] by simp
    also have "\<dots> \<le> key (h ! i)" using assms(1) less.prems False by (simp add: heap_ok_def)
    finally show ?thesis .
  qed simp
qed

lemma heap_ok_hd_least: "heap_ok key h \<Longrightarrow> x \<in> set h \<Longrightarrow> key (hd h) \<le> key x"
  by (metis heap_ok_least hd_conv_nth in_set_conv_nth length_greater_0_conv length_pos_if_in_set)

lemma heappush_mset [simp]: "mset (heappush key h x) = add_mset x (mset h)"
  by (simp add: heappush_def siftdown_mset)

lemma heappush_heap:
  assumes "heap_ok key h"
  shows "heap_ok key (heappush key h x)"
  unfolding heappush_def
proof (rule siftdown_heap)
  have "key ((h @ [x]) ! parent_pos i) \<le> key ((h @ [x]) ! i)" if "i < length h" "0 < i" for i
    using assms that parent_pos_less [of i] by (simp add: heap_ok_def nth_append)
  moreover have "parent_pos i \<noteq> length h" if "i < Suc (length h)" "0 < i" for i
    using that parent_pos_less [of i] by simp
  ultimately show "hole_ok key (h @ [x]) (length h)"
    unfolding hole_ok_def by (metis length_append_singleton less_SucE)
  show "key x \<le> key ((h @ [x]) ! i)"
    if "i < length (h @ [x])" "0 < i" "parent_pos i = length h" for i
    using that parent_pos_less [of i] by simp
qed simp

lemma heappop_props:
  assumes "heap_ok key h" "h \<noteq> []"
  shows "\<exists>g. heappop key h = Some (hd h, g) \<and> heap_ok key g \<and> mset h = add_mset (hd h) (mset g)"
proof (cases "butlast h = []")
  case True
  with assms(2) obtain a where "h = [a]" by (cases h) (auto split: if_splits)
  then show ?thesis by (simp add: heappop_def)
next
  case False
  define r where "r = butlast h"
  define x where "x = last h"
  have h: "h = r @ [x]" using assms(2) by (simp add: r_def x_def)
  have r: "r \<noteq> []" using False by (simp add: r_def)
  obtain g q where gq: "siftup_hole key (r[0 := x]) 0 = (g, q)" by (cases "siftup_hole key (r[0 := x]) 0")
  have "key (r ! parent_pos i) \<le> key (r ! i)" if "i < length r" "0 < i" for i
  proof -
    have "key (h ! parent_pos i) \<le> key (h ! i)"
      using assms(1) that by (simp add: h heap_ok_def)
    then show ?thesis using that parent_pos_less [of i] by (simp add: h nth_append)
  qed
  then have "hole_ok key (r[0 := x]) 0"
    by (simp add: hole_ok_def)
  from siftup_hole_props [OF this _ gq, of x] r
  have g: "hole_ok key g q" "q < length g" "length g \<le> 2 * q + 1" "mset (g[q := x]) = mset (r[0 := x])"
    by auto
  have "heap_ok key (siftdown key g q x)"
    using g by (intro siftdown_heap) (auto simp: parent_pos_iff)
  moreover have "mset (siftdown key g q x) = mset (r[0 := x])"
    using g by (simp add: siftdown_mset)
  moreover have "mset h = add_mset (hd h) (mset (r[0 := x]))"
    using r by (cases r) (simp_all add: h)
  moreover have "heappop key h = Some (hd h, siftdown key g q x)"
    using r gq unfolding h by (simp add: heappop_def Let_def)
  ultimately show ?thesis by auto
qed

section \<open>The contract\<close>

text \<open>
  A mutable priority queue: \<open>peek\<close> reads a least element, \<open>pop\<close> removes that element.
  A client that empties the queue sees the elements in key order, each exactly once.
\<close>

fun drain :: "('q \<Rightarrow> ('a \<times> 'q) option) \<Rightarrow> nat \<Rightarrow> 'q \<Rightarrow> 'a list" where
  "drain pop 0 q = []"
| "drain pop (Suc n) q = (case pop q of None \<Rightarrow> [] | Some (x, q') \<Rightarrow> x # drain pop n q')"

locale min_queue =
  fixes key :: "'a \<Rightarrow> 'k::linorder"
    and push :: "'q \<Rightarrow> 'a \<Rightarrow> 'q"
    and pop :: "'q \<Rightarrow> ('a \<times> 'q) option"
    and elems :: "'q \<Rightarrow> 'a multiset"
    and ok :: "'q \<Rightarrow> bool"
  assumes push_ok: "ok q \<Longrightarrow> ok (push q x)"
    and push_elems: "elems (push q x) = add_mset x (elems q)"
    and pop_ok: "ok q \<Longrightarrow> pop q = Some (x, q') \<Longrightarrow> ok q'"
    and pop_elems: "ok q \<Longrightarrow> pop q = Some (x, q') \<Longrightarrow> elems q = add_mset x (elems q')"
    and pop_least: "ok q \<Longrightarrow> pop q = Some (x, q') \<Longrightarrow> y \<in># elems q \<Longrightarrow> key x \<le> key y"
    and pop_None: "ok q \<Longrightarrow> pop q = None \<longleftrightarrow> elems q = {#}"
begin

lemma drain_elems: "ok q \<Longrightarrow> size (elems q) \<le> n \<Longrightarrow> mset (drain pop n q) = elems q"
proof (induction n arbitrary: q)
  case (Suc n)
  show ?case
  proof (cases "pop q")
    case None
    then show ?thesis using Suc.prems pop_None [of q] by simp
  next
    case (Some a)
    then show ?thesis
      using Suc pop_elems [of q "fst a" "snd a"] pop_ok [of q "fst a" "snd a"] by (cases a) simp
  qed
qed simp

lemma drain_subset: "ok q \<Longrightarrow> set (drain pop n q) \<subseteq> set_mset (elems q)"
proof (induction n arbitrary: q)
  case (Suc n)
  show ?case
  proof (cases "pop q")
    case (Some a)
    then show ?thesis
      using Suc pop_elems [of q "fst a" "snd a"] pop_ok [of q "fst a" "snd a"] by (cases a) auto
  qed simp
qed simp

lemma drain_sorted: "ok q \<Longrightarrow> sorted (map key (drain pop n q))"
proof (induction n arbitrary: q)
  case (Suc n)
  show ?case
  proof (cases "pop q")
    case (Some a)
    obtain x q' where a: "a = (x, q')" by (cases a)
    have "set (drain pop n q') \<subseteq> set_mset (elems q)"
      using Suc.prems Some a drain_subset [of q' n] pop_elems [of q x q'] pop_ok [of q x q'] by auto
    then show ?thesis
      using Suc Some a pop_least [of q x q'] pop_ok [of q x q'] by auto
  qed simp
qed simp

end

lemma heap_min_queue: "min_queue key (heappush key) (heappop key) mset (heap_ok key)"
proof
  fix q :: "'a list" and x y q'
  assume ok: "heap_ok key q"
  show "heap_ok key (heappush key q x)" using ok by (rule heappush_heap)
  have "heappop key q = None \<longleftrightarrow> q = []" using heappop_props [OF ok] by (auto simp: heappop_def)
  then show "heappop key q = None \<longleftrightarrow> mset q = {#}" by simp
  assume p: "heappop key q = Some (x, q')"
  then have "q \<noteq> []" by (auto simp: heappop_def)
  with heappop_props [OF ok] p have q: "x = hd q" "heap_ok key q'" "mset q = add_mset x (mset q')" by auto
  then show "heap_ok key q'" "mset q = add_mset x (mset q')" by auto
  show "key x \<le> key y" if "y \<in># mset q" using that ok q(1) by (simp add: heap_ok_hd_least)
qed simp

interpretation heap_q: min_queue key "heappush key" "heappop key" mset "heap_ok key"
  for key :: "'a \<Rightarrow> 'k::linorder"
  by (rule heap_min_queue)

section \<open>Comparisons that raise\<close>

text \<open>
  Comparing two elements may raise: the comparison is then \<open>None\<close>. The module's functions
  swap elements in place, so a failing comparison leaves the list as the swaps so far made
  it; the flag tells whether all comparisons succeeded.
\<close>

definition swap_pos :: "'a list \<Rightarrow> nat \<Rightarrow> nat \<Rightarrow> 'a list" where
  "swap_pos h i j = h[i := h ! j, j := h ! i]"

fun siftdown_cmp :: "('a \<Rightarrow> 'a \<Rightarrow> bool option) \<Rightarrow> 'a list \<Rightarrow> nat \<Rightarrow> bool \<times> 'a list" where
  "siftdown_cmp lt h pos =
     (if 0 < pos
      then case lt (h ! pos) (h ! parent_pos pos) of
             None \<Rightarrow> (False, h)
           | Some smaller \<Rightarrow>
               if smaller then siftdown_cmp lt (swap_pos h pos (parent_pos pos)) (parent_pos pos)
               else (True, h)
      else (True, h))"

declare siftdown_cmp.simps [simp del]

function siftup_cmp :: "('a \<Rightarrow> 'a \<Rightarrow> bool option) \<Rightarrow> 'a list \<Rightarrow> nat \<Rightarrow> bool \<times> 'a list \<times> nat" where
  "siftup_cmp lt h pos =
     (if 2 * pos + 1 < length h
      then case (if 2 * pos + 2 < length h then lt (h ! (2 * pos + 1)) (h ! (2 * pos + 2)) else Some True) of
             None \<Rightarrow> (False, h, pos)
           | Some smaller \<Rightarrow>
               siftup_cmp lt (swap_pos h pos (if smaller then 2 * pos + 1 else 2 * pos + 2))
                 (if smaller then 2 * pos + 1 else 2 * pos + 2)
      else (True, h, pos))"
  by pat_completeness auto
termination
  by (relation "measure (\<lambda>(lt, h, pos). length h - pos)") (auto simp: swap_pos_def)

declare siftup_cmp.simps [simp del]

definition heappush_cmp :: "('a \<Rightarrow> 'a \<Rightarrow> bool option) \<Rightarrow> 'a list \<Rightarrow> 'a \<Rightarrow> bool \<times> 'a list" where
  "heappush_cmp lt h x = siftdown_cmp lt (h @ [x]) (length h)"

text \<open>For a non-empty list: the element taken out, unless a comparison failed.\<close>

definition heappop_cmp :: "('a \<Rightarrow> 'a \<Rightarrow> bool option) \<Rightarrow> 'a list \<Rightarrow> 'a option \<times> 'a list" where
  "heappop_cmp lt h =
     (let lastelt = last h; rest = butlast h
      in if rest = [] then (Some lastelt, [])
         else case siftup_cmp lt (rest[0 := lastelt]) 0 of
                (up, g, pos) \<Rightarrow>
                  if up
                  then case siftdown_cmp lt g pos of
                         (down, g') \<Rightarrow> (if down then Some (hd rest) else None, g')
                  else (None, g))"

text \<open>
  A comparison that is the one by key wherever the keys differ. On lists whose keys are
  distinct it never raises, and the functions agree with those above.
\<close>

definition by_key :: "('a \<Rightarrow> 'a \<Rightarrow> bool option) \<Rightarrow> ('a \<Rightarrow> 'k::linorder) \<Rightarrow> 'a list \<Rightarrow> bool" where
  "by_key lt key h \<longleftrightarrow>
     (\<forall>x \<in> set h. \<forall>y \<in> set h. key x \<noteq> key y \<longrightarrow> lt x y = Some (key x < key y))"

lemma by_key_nth:
  "by_key lt key h \<Longrightarrow> i < length h \<Longrightarrow> j < length h \<Longrightarrow> key (h ! i) \<noteq> key (h ! j) \<Longrightarrow>
   lt (h ! i) (h ! j) = Some (key (h ! i) < key (h ! j))"
  by (simp add: by_key_def)

lemma by_key_mset: "by_key lt key h \<Longrightarrow> mset g = mset h \<Longrightarrow> by_key lt key g"
  unfolding by_key_def by (metis set_mset_mset)

lemma swap_pos_mset: "i < length h \<Longrightarrow> j < length h \<Longrightarrow> mset (swap_pos h i j) = mset h"
  unfolding swap_pos_def by (rule mset_swap)

lemma length_swap_pos [simp]: "length (swap_pos h i j) = length h"
  by (simp add: swap_pos_def)

lemma distinct_keys_mset:
  "distinct (map key h) \<Longrightarrow> mset g = mset h \<Longrightarrow> distinct (map key g)"
  by (metis mset_eq_imp_distinct_iff mset_map)

lemma siftdown_overwrite: "siftdown key (h[pos := y]) pos x = siftdown key h pos x"
proof -
  have "parent_pos pos \<noteq> pos" if "0 < pos" using parent_pos_less [OF that] by simp
  then show ?thesis by (subst (1 2) siftdown.simps) auto
qed

lemma siftdown_cmp_key:
  "distinct (map key h) \<Longrightarrow> by_key lt key h \<Longrightarrow> pos < length h \<Longrightarrow>
   siftdown_cmp lt h pos = (True, siftdown key h pos (h ! pos))"
proof (induction lt h pos rule: siftdown_cmp.induct)
  case (1 lt h pos)
  let ?p = "parent_pos pos"
  show ?case
  proof (cases "0 < pos")
    case False
    then show ?thesis by (subst siftdown_cmp.simps, subst siftdown.simps) simp
  next
    case True
    then have p: "?p < pos" by (rule parent_pos_less)
    then have ne: "key (h ! pos) \<noteq> key (h ! ?p)"
      using "1.prems" nth_eq_iff_index_eq [of "map key h" pos ?p] by simp
    then have lt: "lt (h ! pos) (h ! ?p) = Some (key (h ! pos) < key (h ! ?p))"
      using "1.prems" p by (intro by_key_nth) auto
    show ?thesis
    proof (cases "key (h ! pos) < key (h ! ?p)")
      case less: True
      let ?g = "swap_pos h pos ?p"
      have m: "mset ?g = mset h" using "1.prems" p by (intro swap_pos_mset) auto
      have "?g ! ?p = h ! pos" using p "1.prems"(3) by (simp add: swap_pos_def)
      then have "siftdown_cmp lt ?g ?p = (True, siftdown key ?g ?p (h ! pos))"
        using "1.IH" [OF True lt less] distinct_keys_mset [OF "1.prems"(1) m] by_key_mset [OF "1.prems"(2) m] p "1.prems"(3)
        by simp
      moreover have "siftdown key ?g ?p (h ! pos) = siftdown key (h[pos := h ! ?p]) ?p (h ! pos)"
        by (simp add: swap_pos_def siftdown_overwrite)
      ultimately show ?thesis
        using True lt less by (subst siftdown_cmp.simps, subst siftdown.simps) simp
    next
      case False
      then show ?thesis
        using True lt by (subst siftdown_cmp.simps, subst siftdown.simps) simp
    qed
  qed
qed

lemma heappush_cmp_key:
  "distinct (map key (h @ [x])) \<Longrightarrow> by_key lt key (h @ [x]) \<Longrightarrow>
   heappush_cmp lt h x = (True, heappush key h x)"
  using siftdown_cmp_key [of key "h @ [x]" lt "length h"] by (simp add: heappush_cmp_def heappush_def)

lemma siftup_hole_overwrite:
  assumes "siftup_hole key h pos = (g, q)" "pos < length h"
  shows "\<exists>g'. siftup_hole key (h[pos := y]) pos = (g', q) \<and> g'[q := x] = g[q := x]"
proof (cases "2 * pos + 1 < length h")
  case False
  then have "siftup_hole key (h[pos := y]) pos = (h[pos := y], pos)" "siftup_hole key h pos = (h, pos)"
    by (subst siftup_hole.simps, simp)+
  with assms show ?thesis by auto
next
  case True
  have "smaller_child key (h[pos := y]) pos = smaller_child key h pos"
    by (simp add: smaller_child_def Let_def)
  moreover have "smaller_child key h pos \<noteq> pos"
    using smaller_child_props(2) [where key = key, OF True] by simp
  ultimately have "siftup_hole key (h[pos := y]) pos = siftup_hole key h pos"
    using True by (subst (1 2) siftup_hole.simps) simp
  then show ?thesis using assms by auto
qed

lemma siftup_hole_length: "siftup_hole key h pos = (g, q) \<Longrightarrow> length g = length h"
proof (induction key h pos rule: siftup_hole.induct)
  case (1 key h pos)
  then show ?case by (auto simp: siftup_hole.simps [of key h pos] split: if_splits)
qed

lemma siftup_cmp_key:
  assumes "distinct (map key h)" "by_key lt key h" "pos < length h" "siftup_hole key h pos = (g, q)"
  shows "siftup_cmp lt h pos = (True, g[q := h ! pos], q) \<and> q < length h \<and> mset (g[q := h ! pos]) = mset h"
  using assms
proof (induction lt h pos arbitrary: g q rule: siftup_cmp.induct)
  case (1 lt h pos)
  show ?case
  proof (cases "2 * pos + 1 < length h")
    case False
    with "1.prems" show ?thesis by (subst siftup_cmp.simps) (simp add: siftup_hole.simps [of key h pos])
  next
    case True
    let ?c = "smaller_child key h pos"
    let ?h = "swap_pos h pos ?c"
    note c = smaller_child_props [where key = key, OF True]
    have ne: "key (h ! (2 * pos + 1)) \<noteq> key (h ! (2 * pos + 2))" if "2 * pos + 2 < length h"
      using "1.prems"(1) that nth_eq_iff_index_eq [of "map key h" "2 * pos + 1" "2 * pos + 2"] by simp
    define b where "b = (2 * pos + 2 < length h \<longrightarrow> key (h ! (2 * pos + 1)) < key (h ! (2 * pos + 2)))"
    have lt: "(if 2 * pos + 2 < length h then lt (h ! (2 * pos + 1)) (h ! (2 * pos + 2)) else Some True) = Some b"
      using ne by_key_nth [OF "1.prems"(2), of "2 * pos + 1" "2 * pos + 2"] by (simp add: b_def)
    have cb: "(if b then 2 * pos + 1 else 2 * pos + 2) = ?c"
      by (auto simp: smaller_child_def b_def)
    have step: "siftup_cmp lt h pos = siftup_cmp lt ?h ?c"
      using True lt cb by (subst siftup_cmp.simps) simp
    have hole: "siftup_hole key (h[pos := h ! ?c]) ?c = (g, q)"
      using "1.prems"(4) True by (simp add: siftup_hole.simps [of key h pos])
    from siftup_hole_overwrite [OF hole, of "h ! pos" "h ! pos"] c(1) obtain g' where g':
      "siftup_hole key ?h ?c = (g', q)" "g'[q := h ! pos] = g[q := h ! pos]"
      by (auto simp: swap_pos_def)
    have m: "mset ?h = mset h" using c(1) "1.prems"(3) by (intro swap_pos_mset) auto
    have x: "?h ! ?c = h ! pos" using c(1) by (simp add: swap_pos_def)
    have "siftup_cmp lt ?h ?c = (True, g'[q := ?h ! ?c], q) \<and> q < length ?h \<and>
        mset (g'[q := ?h ! ?c]) = mset ?h"
      using "1.IH" [OF True lt, unfolded cb, OF distinct_keys_mset [OF "1.prems"(1) m] by_key_mset [OF "1.prems"(2) m] _ g'(1)] c(1)
      by simp
    then show ?thesis using step m x g'(2) by simp
  qed
qed

lemma heappop_cmp_key:
  assumes "distinct (map key h)" "by_key lt key h" "heappop key h = Some (x, g)"
  shows "heappop_cmp lt h = (Some x, g)"
proof (cases "butlast h = []")
  case True
  with assms(3) show ?thesis by (simp add: heappop_def heappop_cmp_def Let_def split: if_splits)
next
  case False
  define r where "r = butlast h"
  define z where "z = last h"
  have "h \<noteq> []" using False by auto
  then have h: "h = r @ [z]" by (simp add: r_def z_def)
  have r: "r \<noteq> []" using False by (simp add: r_def)
  obtain g0 q where gq: "siftup_hole key (r[0 := z]) 0 = (g0, q)" by (cases "siftup_hole key (r[0 := z]) 0")
  have x: "x = hd r" "g = siftdown key g0 q z"
    using assms(3) r gq unfolding h by (auto simp: heappop_def Let_def)
  have "distinct (map key (r[0 := z]))"
    using assms(1) r unfolding h by (cases r) auto
  moreover have bk: "by_key lt key (r[0 := z])"
    using assms(2) r unfolding h by (cases r) (auto simp: by_key_def)
  ultimately have up0: "siftup_cmp lt (r[0 := z]) 0 = (True, g0[q := (r[0 := z]) ! 0], q) \<and> q < length (r[0 := z]) \<and>
      mset (g0[q := (r[0 := z]) ! 0]) = mset (r[0 := z])"
    using r by (intro siftup_cmp_key [OF _ _ _ gq]) auto
  with r
  have up: "siftup_cmp lt (r[0 := z]) 0 = (True, g0[q := z], q)" "q < length r"
    "mset (g0[q := z]) = mset (r[0 := z])" by auto
  have "distinct (map key (g0[q := z]))"
    using \<open>distinct (map key (r[0 := z]))\<close> up(3) by (rule distinct_keys_mset)
  moreover have "length g0 = length r" using siftup_hole_length [OF gq] by simp
  ultimately have "siftdown_cmp lt (g0[q := z]) q = (True, siftdown key g0 q z)"
    using siftdown_cmp_key [of key "g0[q := z]" lt q] by_key_mset [OF bk up(3)] up(2) by (simp add: siftdown_overwrite)
  then show ?thesis
    using r up(1) x unfolding h by (simp add: heappop_cmp_def Let_def)
qed

end
