(* ===== verification/Shared_Lock.thy ===== *)
theory Shared_Lock
  imports Complex_Main Ganeti_Prelude Heapq
begin

text \<open>
  The shared lock of \<^verbatim>\<open>lib/locking.py\<close>: the one-shot pipe condition, the pipe condition
  that counts its waiters, and \<^verbatim>\<open>SharedLock\<close> with its priority queue of pending acquires.

  Every method runs under the lock's internal \<^verbatim>\<open>threading.Lock\<close>; the only point at which
  a thread gives it up is the wait on a condition. A method is therefore one atomic step,
  except for an acquire that has to wait, which is a first step up to the wait and one more
  step per wake-up. The locals of a waiting acquire are kept in \<open>sl_waiting\<close>. Conditions,
  one-shot conditions and per-priority queues are objects that several places refer to, so
  they live in a store indexed by numbers, and \<^verbatim>\<open>__pending\<close>, \<^verbatim>\<open>__pending_by_prio\<close> and the
  local variable \<^verbatim>\<open>prioqueue\<close> hold the number of the same queue.

  The invariant of the lock under every interleaving of its operations gives: an exclusive
  owner is alone, no operation fails on an internal assertion, a lock without owner that
  has pending acquires has woken all the waiters of the first one, and a deleted lock has
  woken everybody.
\<close>

type_synonym thread = nat

section \<open>Conditions\<close>

text \<open>
  \<^verbatim>\<open>SingleNotifyPipeCondition\<close>: the two ends of the pipe are open or not; a waiter polls
  the reading end for the hang-up that closing the writing end causes.
\<close>

record single_cond =
  sn_read_fd :: bool
  sn_write_fd :: bool
  sn_nwaiters :: int
  sn_notified :: bool

definition SingleNotifyPipeCondition :: single_cond where
  "SingleNotifyPipeCondition =
     \<lparr>sn_read_fd = False, sn_write_fd = False, sn_nwaiters = 0, sn_notified = False\<rparr>"

definition check_unnotified :: "single_cond \<Rightarrow> unit res" where
  "check_unnotified c = check (\<not> sn_notified c) RuntimeError"

definition single_Cleanup :: "single_cond \<Rightarrow> single_cond" where
  "single_Cleanup c = c\<lparr>sn_read_fd := False, sn_write_fd := False\<rparr>"

text \<open>\<^verbatim>\<open>wait\<close> up to and after the point at which the lock is given up.\<close>

definition single_wait_enter :: "single_cond \<Rightarrow> single_cond res" where
  "single_wait_enter c =
     res_bind (check_unnotified c) (\<lambda>_.
       let c = c\<lparr>sn_nwaiters := sn_nwaiters c + 1\<rparr>
       in Inr (if sn_read_fd c then c else c\<lparr>sn_read_fd := True, sn_write_fd := True\<rparr>))"

definition single_wait_leave :: "single_cond \<Rightarrow> single_cond" where
  "single_wait_leave c =
     (let c = c\<lparr>sn_nwaiters := sn_nwaiters c - 1\<rparr>
      in if sn_nwaiters c = 0 then single_Cleanup c else c)"

definition single_notify_all :: "single_cond \<Rightarrow> single_cond res" where
  "single_notify_all c =
     res_bind (check_unnotified c) (\<lambda>_. Inr (c\<lparr>sn_notified := True, sn_write_fd := False\<rparr>))"

text \<open>\<^verbatim>\<open>_PipeConditionWithMode\<close>: the waiters, the current one-shot condition, the mode.\<close>

record pipe_cond =
  pc_waiters :: "thread set"
  pc_single :: nat
  pc_shared :: bool

section \<open>The lock\<close>

text \<open>The locals of an acquire that waits; \<open>w_delete\<close> tells that \<^verbatim>\<open>delete\<close> called it.\<close>

record waiter =
  w_cond :: nat
  w_single :: nat
  w_queue :: nat
  w_shared :: bool
  w_timeout :: "rat option"
  w_prio :: int
  w_start :: rat
  w_delete :: bool

record slock =
  sl_name :: string
  sl_pending :: "(int \<times> nat) list"
  sl_pending_by_prio :: "int \<rightharpoonup> nat"
  sl_pending_shared :: "int \<rightharpoonup> nat"
  sl_shr :: "thread set"
  sl_exc :: "thread option"
  sl_deleted :: bool
  sl_queues :: "nat \<Rightarrow> nat list"
  sl_conds :: "nat \<Rightarrow> pipe_cond"
  sl_singles :: "nat \<Rightarrow> single_cond"
  sl_next :: nat
  sl_waiting :: "thread \<rightharpoonup> waiter"

definition SharedLock :: "string \<Rightarrow> slock" where
  "SharedLock name =
     \<lparr>sl_name = name, sl_pending = [], sl_pending_by_prio = Map.empty,
      sl_pending_shared = Map.empty, sl_shr = {}, sl_exc = None, sl_deleted = False,
      sl_queues = (\<lambda>_. []),
      sl_conds = (\<lambda>_. \<lparr>pc_waiters = {}, pc_single = 0, pc_shared = False\<rparr>),
      sl_singles = (\<lambda>_. SingleNotifyPipeCondition), sl_next = 0, sl_waiting = Map.empty\<rparr>"

definition LOCK_ACQUIRE_MIN_TIMEOUT :: rat where
  "LOCK_ACQUIRE_MIN_TIMEOUT = 1 / 1000"

definition TimeoutExpired :: "rat \<Rightarrow> rat \<Rightarrow> rat \<Rightarrow> bool" where
  "TimeoutExpired epoch timeout now \<longleftrightarrow> now > epoch + timeout"

subsection \<open>Condition methods on the store\<close>

text \<open>Creation of a \<^verbatim>\<open>_PipeConditionWithMode\<close>, which creates its one-shot condition.\<close>

definition new_cond :: "bool \<Rightarrow> (slock, nat) meth" where
  "new_cond shared s =
     (Inr (sl_next s),
      s\<lparr>sl_conds := (sl_conds s)(sl_next s :=
            \<lparr>pc_waiters = {}, pc_single = sl_next s, pc_shared = shared\<rparr>),
        sl_singles := (sl_singles s)(sl_next s := SingleNotifyPipeCondition),
        sl_next := sl_next s + 1\<rparr>)"

definition cond_notify_all :: "nat \<Rightarrow> (slock, unit) meth" where
  "cond_notify_all c s =
     (case single_notify_all (sl_singles s (pc_single (sl_conds s c))) of
        Inl e \<Rightarrow> (Inl e, s)
      | Inr sc \<Rightarrow>
          (Inr (),
           s\<lparr>sl_singles := (sl_singles s)(pc_single (sl_conds s c) := sc,
                                          sl_next s := SingleNotifyPipeCondition),
             sl_conds := (sl_conds s)(c := (sl_conds s c)\<lparr>pc_single := sl_next s\<rparr>),
             sl_next := sl_next s + 1\<rparr>))"

definition has_waiting :: "nat \<Rightarrow> slock \<Rightarrow> bool" where
  "has_waiting c s \<longleftrightarrow> pc_waiters (sl_conds s c) \<noteq> {}"

text \<open>
  \<^verbatim>\<open>PipeCondition.wait\<close> up to the point at which the lock is given up, with the locals of
  the acquire put aside, and from the point at which the lock is held again.
\<close>

definition cond_wait_enter :: "thread \<Rightarrow> waiter \<Rightarrow> (slock, unit) meth" where
  "cond_wait_enter t w s =
     (let c = w_cond w; x = pc_single (sl_conds s c)
      in case single_wait_enter (sl_singles s x) of
           Inl e \<Rightarrow> (Inl e, s)
         | Inr sc \<Rightarrow>
             (Inr (),
              s\<lparr>sl_conds := (sl_conds s)(c := (sl_conds s c)\<lparr>pc_waiters := insert t (pc_waiters (sl_conds s c))\<rparr>),
                sl_singles := (sl_singles s)(x := sc),
                sl_waiting := (sl_waiting s)(t \<mapsto> w\<lparr>w_single := x\<rparr>)\<rparr>))"

definition cond_wait_leave :: "thread \<Rightarrow> waiter \<Rightarrow> (slock, unit) meth" where
  "cond_wait_leave t w s =
     (let c = w_cond w;
          s' = s\<lparr>sl_singles := (sl_singles s)(w_single w := single_wait_leave (sl_singles s (w_single w))),
                 sl_waiting := (sl_waiting s)(t := None)\<rparr>
      in if t \<in> pc_waiters (sl_conds s c)
         then (Inr (), s'\<lparr>sl_conds := (sl_conds s)(c := (sl_conds s c)\<lparr>pc_waiters := pc_waiters (sl_conds s c) - {t}\<rparr>)\<rparr>)
         else (Inl KeyError, s'))"

text \<open>Whether the pipe a waiting thread polls has hung up.\<close>

definition woken :: "slock \<Rightarrow> waiter \<Rightarrow> bool" where
  "woken s w \<longleftrightarrow> \<not> sn_write_fd (sl_singles s (w_single w))"

subsection \<open>Ownership\<close>

definition check_deleted :: "(slock, unit) meth" where
  "check_deleted s =
     (if sl_deleted s then (Inl (LockError (''Deleted lock '' @ sl_name s)), s) else (Inr (), s))"

definition is_sharer :: "thread \<Rightarrow> slock \<Rightarrow> bool" where
  "is_sharer t s \<longleftrightarrow> t \<in> sl_shr s"

definition is_exclusive :: "thread \<Rightarrow> slock \<Rightarrow> bool" where
  "is_exclusive t s \<longleftrightarrow> sl_exc s = Some t"

definition is_owned :: "thread \<Rightarrow> int \<Rightarrow> slock \<Rightarrow> bool" where
  "is_owned t shared s \<longleftrightarrow>
     (if shared < 0 then is_sharer t s \<or> is_exclusive t s
      else if shared \<noteq> 0 then is_sharer t s
      else is_exclusive t s)"

definition do_acquire :: "thread \<Rightarrow> bool \<Rightarrow> slock \<Rightarrow> slock" where
  "do_acquire t shared s =
     (if shared then s\<lparr>sl_shr := insert t (sl_shr s)\<rparr> else s\<lparr>sl_exc := Some t\<rparr>)"

definition can_acquire :: "bool \<Rightarrow> slock \<Rightarrow> bool" where
  "can_acquire shared s \<longleftrightarrow>
     (if shared then sl_exc s = None else sl_shr s = {} \<and> sl_exc s = None)"

definition locked :: "slock \<Rightarrow> bool" where
  "locked s \<longleftrightarrow> sl_exc s \<noteq> None \<or> sl_shr s \<noteq> {}"

subsection \<open>The queue of pending acquires\<close>

definition count_pending :: "slock \<Rightarrow> nat" where
  "count_pending s = sum_list (map (\<lambda>(_, q). length (sl_queues s q)) (sl_pending s))"

lemma heappop_length: "heappop key h = Some (x, g) \<Longrightarrow> length g < length h"
proof -
  have l: "length (fst (siftup_hole key h pos)) = length h" for h :: "'a list" and pos
    by (induction key h pos rule: siftup_hole.induct) (subst siftup_hole.simps, simp)
  show "heappop key h = Some (x, g) \<Longrightarrow> length g < length h"
    using l [of "(butlast h)[0 := last h]" 0]
    by (cases h rule: rev_cases) (auto simp: heappop_def Let_def split: if_splits prod.splits)
qed

function find_first_pending_queue :: "(slock, (int \<times> nat) option) meth" where
  "find_first_pending_queue s =
     (case sl_pending s of
        [] \<Rightarrow> (Inr None, s)
      | (priority, prioqueue) # _ \<Rightarrow>
          if sl_queues s prioqueue \<noteq> [] then (Inr (Some (priority, prioqueue)), s)
          else (case heappop fst (sl_pending s) of
                  None \<Rightarrow> (Inl IndexError, s)
                | Some (_, rest) \<Rightarrow>
                    let s1 = s\<lparr>sl_pending := rest\<rparr>
                    in if sl_pending_by_prio s1 priority = None then (Inl KeyError, s1)
                       else
                         let s2 = s1\<lparr>sl_pending_by_prio := (sl_pending_by_prio s1)(priority := None)\<rparr>
                         in if sl_pending_shared s2 priority \<noteq> None then (Inl AssertionError, s2)
                            else find_first_pending_queue s2))"
  by pat_completeness auto
termination
  by (relation "measure (\<lambda>s. length (sl_pending s))") (auto dest: heappop_length)

declare find_first_pending_queue.simps [simp del]

definition check_empty :: "(slock, bool) meth" where
  "check_empty = st_bind find_first_pending_queue
     (\<lambda>first. st_get (\<lambda>s. \<not> (first \<noteq> None \<or> sl_pending s \<noteq> [] \<or> sl_pending_by_prio s \<noteq> Map.empty \<or>
        sl_pending_shared s \<noteq> Map.empty)))"

text \<open>\<^verbatim>\<open>prioqueue[0]\<close> of no queue at all is a \<^verbatim>\<open>TypeError\<close>.\<close>

definition is_on_top :: "nat \<Rightarrow> (slock, bool) meth" where
  "is_on_top c = st_bind find_first_pending_queue
     (\<lambda>first s. case first of
        None \<Rightarrow> (Inl TypeError, s)
      | Some (_, q) \<Rightarrow> (Inr (c = hd (sl_queues s q)), s))"

definition queue_remove :: "nat \<Rightarrow> nat \<Rightarrow> (slock, unit) meth" where
  "queue_remove q c s =
     (if c \<in> set (sl_queues s q)
      then (Inr (), s\<lparr>sl_queues := (sl_queues s)(q := remove1 c (sl_queues s q))\<rparr>)
      else (Inl ValueError, s))"

definition notify_topmost :: "(slock, unit) meth" where
  "notify_topmost = st_bind find_first_pending_queue
     (\<lambda>first s. case first of
        None \<Rightarrow> (Inr (), s)
      | Some (priority, q) \<Rightarrow>
          let c = hd (sl_queues s q)
          in st_bind (cond_notify_all c)
               (\<lambda>_ s. (Inr (), if pc_shared (sl_conds s c)
                         then s\<lparr>sl_pending_shared := (sl_pending_shared s)(priority := None)\<rparr>
                         else s)) s)"

subsection \<open>Acquiring\<close>

datatype acquire_result = Returned bool | Waits

text \<open>The \<^verbatim>\<open>finally\<close> part of an acquire.\<close>

definition acquire_cleanup :: "waiter \<Rightarrow> (slock, unit) meth" where
  "acquire_cleanup w s =
     (if has_waiting (w_cond w) s then (Inr (), s)
      else st_bind (queue_remove (w_queue w) (w_cond w))
             (\<lambda>_ s. (Inr (), if pc_shared (sl_conds s (w_cond w))
                       then s\<lparr>sl_pending_shared := (sl_pending_shared s)(w_prio w := None)\<rparr>
                       else s)) s)"

text \<open>One round of the waiting loop: acquire, give up, or wait (again).\<close>

definition acquire_round :: "thread \<Rightarrow> waiter \<Rightarrow> rat \<Rightarrow> (slock, acquire_result) meth" where
  "acquire_round t w now =
     st_bind (is_on_top (w_cond w)) (\<lambda>top s.
       if top \<and> can_acquire (w_shared w) s then (Inr (Returned True), do_acquire t (w_shared w) s)
       else if w_timeout w \<noteq> None \<and> TimeoutExpired (w_start w) (the (w_timeout w)) now
       then (Inr (Returned False), s)
       else st_bind (cond_wait_enter t w) (\<lambda>_. st_return Waits) s)"

definition acquire_loop :: "thread \<Rightarrow> waiter \<Rightarrow> rat \<Rightarrow> (slock, acquire_result) meth" where
  "acquire_loop t w now s =
     (case acquire_round t w now s of
        (Inr Waits, s') \<Rightarrow> (Inr Waits, s')
      | (r, s') \<Rightarrow> st_finally (\<lambda>s. (r, s)) (acquire_cleanup w) s')"

text \<open>The queue of a priority, created when there is none.\<close>

definition get_prioqueue :: "int \<Rightarrow> (slock, nat) meth" where
  "get_prioqueue priority s =
     (case sl_pending_by_prio s priority of
        Some q \<Rightarrow> (Inr q, s)
      | None \<Rightarrow>
          (Inr (sl_next s),
           s\<lparr>sl_queues := (sl_queues s)(sl_next s := []),
             sl_pending := heappush fst (sl_pending s) (priority, sl_next s),
             sl_pending_by_prio := (sl_pending_by_prio s)(priority \<mapsto> sl_next s),
             sl_next := sl_next s + 1\<rparr>))"

text \<open>The wait condition of an acquire: the pending shared one of the priority, or a new one.\<close>

definition get_wait_condition :: "bool \<Rightarrow> int \<Rightarrow> (slock, nat \<times> nat) meth" where
  "get_wait_condition shared priority s =
     (case (if shared then sl_pending_shared s priority else None) of
        Some c \<Rightarrow>
          (case sl_pending_by_prio s priority of
             None \<Rightarrow> (Inl TypeError, s)
           | Some q \<Rightarrow>
               if pc_shared (sl_conds s c) \<and> c \<in> set (sl_queues s q) then (Inr (c, q), s)
               else (Inl AssertionError, s))
      | None \<Rightarrow>
          st_bind (get_prioqueue priority) (\<lambda>q.
          st_bind (new_cond shared) (\<lambda>c.
          st_bind (st_do (\<lambda>s. s\<lparr>sl_queues := (sl_queues s)(q := sl_queues s q @ [c])\<rparr>)) (\<lambda>_.
          st_bind (st_do (\<lambda>s. if shared then s\<lparr>sl_pending_shared := (sl_pending_shared s)(priority \<mapsto> c)\<rparr> else s)) (\<lambda>_.
          st_return (c, q))))) s)"

definition acquire_unlocked ::
  "thread \<Rightarrow> bool \<Rightarrow> bool \<Rightarrow> rat option \<Rightarrow> int \<Rightarrow> rat \<Rightarrow> (slock, acquire_result) meth" where
  "acquire_unlocked t from_delete shared timeout priority now =
     st_bind check_deleted (\<lambda>_.
     st_bind (st_assert (\<lambda>s. \<not> is_owned t (-1) s) AssertionError) (\<lambda>_.
     st_bind find_first_pending_queue (\<lambda>_ s.
       if sl_pending s = [] \<and> can_acquire shared s
       then (Inr (Returned True), do_acquire t shared s)
       else if timeout \<noteq> None \<and> the timeout < LOCK_ACQUIRE_MIN_TIMEOUT
       then (Inr (Returned False), s)
       else st_bind (get_wait_condition shared priority) (\<lambda>(c, q).
              acquire_loop t
                \<lparr>w_cond = c, w_single = 0, w_queue = q, w_shared = shared, w_timeout = timeout,
                 w_prio = priority, w_start = now, w_delete = from_delete\<rparr> now) s)))"

text \<open>The continuation of an acquire whose wait has ended.\<close>

definition acquire_resume :: "thread \<Rightarrow> waiter \<Rightarrow> rat \<Rightarrow> (slock, acquire_result) meth" where
  "acquire_resume t w now s =
     (case st_bind (cond_wait_leave t w) (\<lambda>_. check_deleted) s of
        (Inl e, s') \<Rightarrow> st_finally (st_raise e) (acquire_cleanup w) s'
      | (Inr _, s') \<Rightarrow> acquire_loop t w now s')"

definition acquire ::
  "thread \<Rightarrow> bool \<Rightarrow> rat option \<Rightarrow> int option \<Rightarrow> rat \<Rightarrow> (slock, acquire_result) meth" where
  "acquire t shared timeout priority now =
     acquire_unlocked t False shared timeout (case priority of None \<Rightarrow> 0 | Some p \<Rightarrow> p) now"

subsection \<open>Releasing, downgrading and deleting\<close>

definition release :: "thread \<Rightarrow> (slock, unit) meth" where
  "release t =
     st_bind (st_assert (\<lambda>s. is_exclusive t s \<or> is_sharer t s) AssertionError) (\<lambda>_ s.
       if is_exclusive t s then notify_topmost (s\<lparr>sl_exc := None\<rparr>)
       else let s' = s\<lparr>sl_shr := sl_shr s - {t}\<rparr>
            in if sl_shr s' = {} then notify_topmost s' else (Inr (), s'))"

text \<open>
  Pending shared acquires of the topmost priority go ahead of the queue after an exclusive
  owner became a sharer.
\<close>

definition downgrade_notify :: "(slock, unit) meth" where
  "downgrade_notify =
     st_bind find_first_pending_queue (\<lambda>first s.
       case first of
         None \<Rightarrow> (Inr (), s)
       | Some (priority, q) \<Rightarrow>
           (case sl_pending_shared s priority of
              None \<Rightarrow> (Inr (), s)
            | Some c \<Rightarrow>
                let s1 = s\<lparr>sl_pending_shared := (sl_pending_shared s)(priority := None)\<rparr>
                in if pc_shared (sl_conds s1 c) \<and> c \<in> set (sl_queues s1 q)
                   then cond_notify_all c
                          (if length (sl_queues s1 q) > 1
                           then s1\<lparr>sl_queues := (sl_queues s1)(q := c # remove1 c (sl_queues s1 q))\<rparr>
                           else s1)
                   else (Inl AssertionError, s1)))"

definition downgrade :: "thread \<Rightarrow> (slock, bool) meth" where
  "downgrade t =
     st_bind (st_assert (is_owned t (-1)) AssertionError) (\<lambda>_.
     st_bind (\<lambda>s. if is_exclusive t s then downgrade_notify (do_acquire t True (s\<lparr>sl_exc := None\<rparr>))
                   else (Inr (), s)) (\<lambda>_.
     st_bind (st_assert (\<lambda>s. \<not> is_exclusive t s \<and> is_sharer t s) AssertionError) (\<lambda>_.
     st_return True)))"

fun notify_conds :: "nat list \<Rightarrow> (slock, unit) meth" where
  "notify_conds [] = st_return ()"
| "notify_conds (c # cs) = st_bind (cond_notify_all c) (\<lambda>_. notify_conds cs)"

definition delete_mark :: "thread \<Rightarrow> (slock, unit) meth" where
  "delete_mark t =
     st_bind (st_assert (\<lambda>s. is_exclusive t s \<and> \<not> is_sharer t s) AssertionError) (\<lambda>_.
     st_bind (st_do (\<lambda>s. s\<lparr>sl_deleted := True, sl_exc := None\<rparr>)) (\<lambda>_.
     st_bind (st_assert (\<lambda>s. sl_exc s = None \<and> sl_shr s = {}) AssertionError) (\<lambda>_ s.
       notify_conds (concat (map (\<lambda>(_, q). sl_queues s q) (sl_pending s))) s)))"

definition delete_finish :: "thread \<Rightarrow> acquire_result \<Rightarrow> (slock, acquire_result) meth" where
  "delete_finish t r =
     (if r = Returned True then st_bind (delete_mark t) (\<lambda>_. st_return r) else st_return r)"

definition delete_lock :: "thread \<Rightarrow> rat option \<Rightarrow> int option \<Rightarrow> rat \<Rightarrow> (slock, acquire_result) meth" where
  "delete_lock t timeout priority now =
     st_bind (st_assert (\<lambda>s. \<not> is_sharer t s) AssertionError) (\<lambda>_.
     st_bind check_deleted (\<lambda>_.
     st_bind (\<lambda>s. if is_exclusive t s then (Inr (Returned True), s)
                   else acquire_unlocked t True False timeout (case priority of None \<Rightarrow> 0 | Some p \<Rightarrow> p) now s) (\<lambda>r.
     delete_finish t r)))"

text \<open>The wake-up of a thread that waits in \<^verbatim>\<open>acquire\<close> or \<^verbatim>\<open>delete\<close>.\<close>

definition lock_resume :: "thread \<Rightarrow> waiter \<Rightarrow> rat \<Rightarrow> (slock, acquire_result) meth" where
  "lock_resume t w now =
     st_bind (acquire_resume t w now) (\<lambda>r. if w_delete w then delete_finish t r else st_return r)"

definition release_save :: "thread \<Rightarrow> (slock, bool) meth" where
  "release_save t s = (let shared = is_sharer t s in st_bind (release t) (\<lambda>_. st_return shared) s)"

definition acquire_restore :: "thread \<Rightarrow> bool \<Rightarrow> rat \<Rightarrow> (slock, acquire_result) meth" where
  "acquire_restore t shared now = acquire t shared None None now"

subsection \<open>Lock information\<close>

text \<open>
  \<^verbatim>\<open>GetLockInfo\<close>, with the requested fields as three flags. Owners and waiters are Python
  sets: the order in which their names are listed is left open, so they are multisets.
\<close>

record lock_info =
  li_name :: string
  li_mode :: "string option"
  li_owner_names :: "string multiset option"
  li_pending :: "(string \<times> string multiset) list option"

definition names_of :: "(thread \<Rightarrow> string) \<Rightarrow> thread set \<Rightarrow> string multiset" where
  "names_of nm ts = image_mset nm (mset_set ts)"

definition lock_mode_text :: "bool \<Rightarrow> string" where
  "lock_mode_text shared = (if shared then ''shared'' else ''exclusive'')"

definition GetLockInfo ::
  "(thread \<Rightarrow> string) \<Rightarrow> bool \<Rightarrow> bool \<Rightarrow> bool \<Rightarrow> slock \<Rightarrow> lock_info res" where
  "GetLockInfo nm want_mode want_owner want_pending s =
     (let owner = (case sl_exc s of Some t \<Rightarrow> {t} | None \<Rightarrow> sl_shr s)
      in res_bind (check (\<not> (want_mode \<and> sl_deleted s \<and> (sl_exc s \<noteq> None \<or> sl_shr s \<noteq> {}))) AssertionError) (\<lambda>_.
         res_bind (check (\<not> (want_owner \<and> owner \<noteq> {} \<and> sl_deleted s)) AssertionError) (\<lambda>_.
         Inr \<lparr>li_name = sl_name s,
              li_mode = (if \<not> want_mode then None
                         else if sl_deleted s then Some ''deleted''
                         else if sl_exc s \<noteq> None then Some (lock_mode_text False)
                         else if sl_shr s \<noteq> {} then Some (lock_mode_text True)
                         else None),
              li_owner_names = (if want_owner \<and> owner \<noteq> {} then Some (names_of nm owner) else None),
              li_pending = (if want_pending
                 then Some (concat (map (\<lambda>(_, q). map (\<lambda>c. (lock_mode_text (pc_shared (sl_conds s c)),
                               names_of nm (pc_waiters (sl_conds s c)))) (sl_queues s q))
                             (sort_key fst (sl_pending s))))
                 else None)\<rparr>)))"

section \<open>The invariant\<close>

text \<open>The conditions that are queued, and the one at the head of the most urgent queue.\<close>

definition live :: "slock \<Rightarrow> nat set" where
  "live s = (\<Union>(p, q) \<in> set (sl_pending s). set (sl_queues s q))"

definition is_top :: "slock \<Rightarrow> nat \<Rightarrow> bool" where
  "is_top s c \<longleftrightarrow>
     (\<exists>p q. (p, q) \<in> set (sl_pending s) \<and> sl_queues s q \<noteq> [] \<and> hd (sl_queues s q) = c \<and>
        (\<forall>p' q'. (p', q') \<in> set (sl_pending s) \<longrightarrow> sl_queues s q' \<noteq> [] \<longrightarrow> p \<le> p'))"

text \<open>The per-priority queues: \<^verbatim>\<open>__pending\<close> and \<^verbatim>\<open>__pending_by_prio\<close> agree.\<close>

definition queue_inv :: "slock \<Rightarrow> bool" where
  "queue_inv s \<longleftrightarrow>
     heap_ok fst (sl_pending s) \<and> distinct (sl_pending s) \<and>
     (\<forall>p q. sl_pending_by_prio s p = Some q \<longleftrightarrow> (p, q) \<in> set (sl_pending s)) \<and>
     (\<forall>p q. (p, q) \<in> set (sl_pending s) \<longrightarrow> q < sl_next s \<and> distinct (sl_queues s q)) \<and>
     (\<forall>p p' q q'. (p, q) \<in> set (sl_pending s) \<longrightarrow> (p', q') \<in> set (sl_pending s) \<longrightarrow>
        (q = q' \<or> set (sl_queues s q) \<inter> set (sl_queues s q') \<noteq> {}) \<longrightarrow> p = p') \<and>
     (\<forall>p c. sl_pending_shared s p = Some c \<longrightarrow>
        (\<exists>q. (p, q) \<in> set (sl_pending s) \<and> c \<in> set (sl_queues s q) \<and> pc_shared (sl_conds s c)))"

text \<open>Every queued condition has its own one-shot condition, not notified so far.\<close>

definition cond_inv :: "slock \<Rightarrow> bool" where
  "cond_inv s \<longleftrightarrow>
     (\<forall>c \<in> live s. c < sl_next s \<and> pc_single (sl_conds s c) < sl_next s \<and>
        \<not> sn_notified (sl_singles s (pc_single (sl_conds s c)))) \<and>
     inj_on (\<lambda>c. pc_single (sl_conds s c)) (live s) \<and>
     (\<forall>x. sn_notified (sl_singles s x) \<longrightarrow> \<not> sn_write_fd (sl_singles s x))"

text \<open>What holds of the locals of a waiting thread.\<close>

definition waiter_ok :: "slock \<Rightarrow> thread \<Rightarrow> waiter \<Rightarrow> bool" where
  "waiter_ok s t w \<longleftrightarrow>
     (w_prio w, w_queue w) \<in> set (sl_pending s) \<and> w_cond w \<in> set (sl_queues s (w_queue w)) \<and>
     t \<in> pc_waiters (sl_conds s (w_cond w)) \<and> w_shared w = pc_shared (sl_conds s (w_cond w)) \<and>
     w_single w < sl_next s \<and>
     (w_single w = pc_single (sl_conds s (w_cond w)) \<or> sn_notified (sl_singles s (w_single w))) \<and>
     t \<notin> sl_shr s \<and> sl_exc s \<noteq> Some t \<and> (w_delete w \<longrightarrow> \<not> w_shared w)"

text \<open>
  The waiting threads are the waiters of the queued conditions. A condition in \<open>X\<close> may be
  queued without waiters, as it is while its last waiter looks at the lock.
\<close>

definition waiter_inv :: "nat set \<Rightarrow> slock \<Rightarrow> bool" where
  "waiter_inv X s \<longleftrightarrow>
     (\<forall>t w. sl_waiting s t = Some w \<longrightarrow> waiter_ok s t w) \<and>
     (\<forall>c \<in> live s. \<forall>t \<in> pc_waiters (sl_conds s c). \<exists>w. sl_waiting s t = Some w \<and> w_cond w = c) \<and>
     (\<forall>c \<in> live s - X. pc_waiters (sl_conds s c) \<noteq> {})"

definition owner_inv :: "slock \<Rightarrow> bool" where
  "owner_inv s \<longleftrightarrow>
     (sl_exc s \<noteq> None \<longrightarrow> sl_shr s = {}) \<and> (sl_deleted s \<longrightarrow> \<not> locked s)"

text \<open>Wake-ups are not lost: a free lock has woken the waiters at the head of its queue.\<close>

definition all_woken :: "slock \<Rightarrow> nat \<Rightarrow> bool" where
  "all_woken s c \<longleftrightarrow>
     (\<forall>t w. sl_waiting s t = Some w \<longrightarrow> w_cond w = c \<longrightarrow> sn_notified (sl_singles s (w_single w)))"

definition wake_inv :: "slock \<Rightarrow> bool" where
  "wake_inv s \<longleftrightarrow>
     (\<not> locked s \<longrightarrow> (\<forall>c. is_top s c \<longrightarrow> all_woken s c)) \<and>
     (sl_deleted s \<longrightarrow> (\<forall>c. all_woken s c))"

definition base_inv :: "nat set \<Rightarrow> slock \<Rightarrow> bool" where
  "base_inv X s \<longleftrightarrow> queue_inv s \<and> cond_inv s \<and> waiter_inv X s \<and> owner_inv s"

definition lock_inv :: "slock \<Rightarrow> bool" where
  "lock_inv s \<longleftrightarrow> base_inv {} s \<and> wake_inv s"

lemmas inv_defs = base_inv_def queue_inv_def cond_inv_def waiter_inv_def owner_inv_def

lemma SharedLock_inv: "lock_inv (SharedLock name)"
  by (simp add: lock_inv_def inv_defs wake_inv_def SharedLock_def live_def is_top_def locked_def
      SingleNotifyPipeCondition_def)

section \<open>Removing empty queues\<close>

text \<open>\<open>s'\<close> is \<open>s\<close> with some empty per-priority queues forgotten.\<close>

definition trimmed :: "slock \<Rightarrow> slock \<Rightarrow> bool" where
  "trimmed s s' \<longleftrightarrow>
     sl_name s' = sl_name s \<and> sl_pending_shared s' = sl_pending_shared s \<and> sl_shr s' = sl_shr s \<and>
     sl_exc s' = sl_exc s \<and> sl_deleted s' = sl_deleted s \<and> sl_queues s' = sl_queues s \<and>
     sl_conds s' = sl_conds s \<and> sl_singles s' = sl_singles s \<and> sl_next s' = sl_next s \<and>
     sl_waiting s' = sl_waiting s \<and> set (sl_pending s') \<subseteq> set (sl_pending s) \<and>
     (\<forall>p q. (p, q) \<in> set (sl_pending s) \<longrightarrow> sl_queues s q \<noteq> [] \<longrightarrow> (p, q) \<in> set (sl_pending s'))"

lemma trimmed_refl [simp]: "trimmed s s"
  by (simp add: trimmed_def)

lemma trimmed_trans: "trimmed s s' \<Longrightarrow> trimmed s' s'' \<Longrightarrow> trimmed s s''"
  unfolding trimmed_def by (elim conjE) (intro conjI; force)

lemma trimmed_entry:
  "trimmed s s' \<Longrightarrow> sl_queues s q \<noteq> [] \<Longrightarrow> (p, q) \<in> set (sl_pending s') \<longleftrightarrow> (p, q) \<in> set (sl_pending s)"
  unfolding trimmed_def by blast

lemma live_iff: "c \<in> live s \<longleftrightarrow> (\<exists>p q. (p, q) \<in> set (sl_pending s) \<and> c \<in> set (sl_queues s q))"
  by (auto simp: live_def)

lemma trimmed_live:
  assumes "trimmed s s'"
  shows "live s' = live s"
proof -
  have "c \<in> live s' \<longleftrightarrow> c \<in> live s" for c
    using assms trimmed_entry [OF assms] unfolding live_iff trimmed_def
    by (metis empty_iff empty_set)
  then show ?thesis by blast
qed

lemma trimmed_top:
  assumes "trimmed s s'"
  shows "is_top s' c \<longleftrightarrow> is_top s c"
proof -
  have q: "sl_queues s' = sl_queues s" using assms by (simp add: trimmed_def)
  show ?thesis unfolding is_top_def q using trimmed_entry [OF assms] by blast
qed

lemma find_first_pending_queue_ok:
  assumes "queue_inv s"
  shows "\<exists>r s'. find_first_pending_queue s = (Inr r, s') \<and> trimmed s s' \<and> queue_inv s' \<and>
    (case r of None \<Rightarrow> sl_pending s' = []
     | Some (p, q) \<Rightarrow> (p, q) \<in> set (sl_pending s') \<and> sl_queues s' q \<noteq> [] \<and>
         (\<forall>(p', q') \<in> set (sl_pending s'). p \<le> p'))"
  using assms
proof (induction s rule: find_first_pending_queue.induct)
  case (1 s)
  show ?case
  proof (cases "sl_pending s")
    case Nil
    then show ?thesis
      using "1.prems" by (subst find_first_pending_queue.simps) simp
  next
    case (Cons e es)
    obtain p q where e: "e = (p, q)" by (cases e)
    have heap: "heap_ok fst (sl_pending s)" using "1.prems" by (simp add: queue_inv_def)
    show ?thesis
    proof (cases "sl_queues s q = []")
      case False
      then have "find_first_pending_queue s = (Inr (Some (p, q)), s)"
        using Cons e by (subst find_first_pending_queue.simps) simp
      moreover have "\<forall>(p', q') \<in> set (sl_pending s). p \<le> p'"
        using heap_ok_hd_least [OF heap] Cons e by fastforce
      ultimately show ?thesis using "1.prems" False Cons e by auto
    next
      case True
      from heappop_props [OF heap] Cons e obtain rest where pop:
        "heappop fst (sl_pending s) = Some ((p, q), rest)" "heap_ok fst rest"
        "mset (sl_pending s) = add_mset (p, q) (mset rest)" by auto
      define s2 where "s2 = s\<lparr>sl_pending := rest, sl_pending_by_prio := (sl_pending_by_prio s)(p := None)\<rparr>"
      have set: "set (sl_pending s) = insert (p, q) (set rest)"
        using pop(3) by (metis set_mset_add_mset_insert set_mset_mset)
      have dist: "distinct rest" "(p, q) \<notin> set rest"
        using "1.prems" pop(3) by (auto simp: queue_inv_def dest!: mset_eq_imp_distinct_iff [of _ "(p, q) # rest", simplified])
      have notp: "\<forall>q'. (p, q') \<notin> set rest"
        using "1.prems" dist set unfolding queue_inv_def by (metis insertCI option.inject)
      have sh: "sl_pending_shared s p = None"
        using "1.prems" True unfolding queue_inv_def by (metis Cons e empty_iff empty_set list.set_intros(1) not_None_eq option.inject)
      have "queue_inv s2"
        using "1.prems" pop(2) dist notp sh True unfolding queue_inv_def s2_def set
        by (auto simp: fun_upd_def split: if_splits)
          (metis empty_iff empty_set)
      moreover have "trimmed s s2"
        using set True by (auto simp: trimmed_def s2_def)
      moreover have "sl_pending_by_prio s p = Some q"
        using "1.prems" set by (simp add: queue_inv_def)
      moreover from this have "find_first_pending_queue s = find_first_pending_queue s2"
        using Cons e True pop(1) sh
        by (subst find_first_pending_queue.simps) (simp add: s2_def Let_def)
      ultimately show ?thesis
        using "1.IH" [OF Cons e [symmetric] _ pop(1) refl refl _ refl] True sh trimmed_trans [of s s2]
        by (simp add: s2_def) (metis (no_types, lifting))
    qed
  qed
qed


lemma trimmed_base:
  assumes "trimmed s s'" "queue_inv s'" "base_inv X s"
  shows "base_inv X s'"
proof -
  have eqs: "sl_shr s' = sl_shr s" "sl_exc s' = sl_exc s" "sl_deleted s' = sl_deleted s" "sl_queues s' = sl_queues s"
    "sl_conds s' = sl_conds s" "sl_singles s' = sl_singles s" "sl_next s' = sl_next s" "sl_waiting s' = sl_waiting s"
    using assms(1) by (auto simp: trimmed_def)
  have "waiter_ok s' t w" if "waiter_ok s t w" for t w
    using that trimmed_entry [OF assms(1)] unfolding waiter_ok_def eqs
    by (metis empty_iff empty_set)
  then have "waiter_inv X s'"
    using assms(3) unfolding base_inv_def waiter_inv_def eqs trimmed_live [OF assms(1)] by blast
  then show ?thesis
    using assms(2,3) unfolding base_inv_def cond_inv_def owner_inv_def eqs trimmed_live [OF assms(1)] locked_def
    by blast
qed

lemma trimmed_wake:
  assumes "trimmed s s'"
  shows "wake_inv s' = wake_inv s"
proof -
  have eqs: "sl_shr s' = sl_shr s" "sl_exc s' = sl_exc s" "sl_deleted s' = sl_deleted s"
    "sl_singles s' = sl_singles s" "sl_waiting s' = sl_waiting s"
    using assms by (auto simp: trimmed_def)
  show ?thesis unfolding wake_inv_def all_woken_def locked_def eqs trimmed_top [OF assms] ..
qed

lemma find_first_cases:
  assumes "base_inv X s"
  obtains (Empty) s' where "find_first_pending_queue s = (Inr None, s')" "trimmed s s'"
      "base_inv X s'" "sl_pending s' = []"
    | (First) p q s' where "find_first_pending_queue s = (Inr (Some (p, q)), s')" "trimmed s s'"
      "base_inv X s'" "(p, q) \<in> set (sl_pending s')" "sl_queues s' q \<noteq> []" "is_top s' (hd (sl_queues s' q))"
      "\<forall>(p', q') \<in> set (sl_pending s'). p \<le> p'"
proof -
  have "queue_inv s" using assms by (simp add: base_inv_def)
  from find_first_pending_queue_ok [OF this] obtain r s' where r:
    "find_first_pending_queue s = (Inr r, s')" "trimmed s s'" "queue_inv s'"
    "case r of None \<Rightarrow> sl_pending s' = []
     | Some (p, q) \<Rightarrow> (p, q) \<in> set (sl_pending s') \<and> sl_queues s' q \<noteq> [] \<and>
         (\<forall>(p', q') \<in> set (sl_pending s'). p \<le> p')" by blast
  note b = trimmed_base [OF r(2,3) assms]
  show thesis
  proof (cases r)
    case None
    with r b show ?thesis by (intro Empty [of s']) auto
  next
    case (Some e)
    obtain p q where "e = (p, q)" by (cases e)
    with r Some have pq: "(p, q) \<in> set (sl_pending s')" "sl_queues s' q \<noteq> []"
      "\<forall>(p', q') \<in> set (sl_pending s'). p \<le> p'" by auto
    then have "is_top s' (hd (sl_queues s' q))" unfolding is_top_def by blast
    with r b Some pq \<open>e = (p, q)\<close> show ?thesis by (intro First [of p q s']) simp_all
  qed
qed

lemma is_top_unique:
  assumes "queue_inv s" "is_top s c" "is_top s d"
  shows "c = d"
proof -
  from assms(2) obtain p q where p: "(p, q) \<in> set (sl_pending s)" "sl_queues s q \<noteq> []" "hd (sl_queues s q) = c"
    "\<forall>p' q'. (p', q') \<in> set (sl_pending s) \<longrightarrow> sl_queues s q' \<noteq> [] \<longrightarrow> p \<le> p'"
    unfolding is_top_def by blast
  from assms(3) obtain p' q' where p': "(p', q') \<in> set (sl_pending s)" "sl_queues s q' \<noteq> []" "hd (sl_queues s q') = d"
    "\<forall>p'' q''. (p'', q'') \<in> set (sl_pending s) \<longrightarrow> sl_queues s q'' \<noteq> [] \<longrightarrow> p' \<le> p''"
    unfolding is_top_def by blast
  have "p = p'" using p p' by (meson order_antisym)
  then have "q = q'" using p(1) p'(1) assms(1) unfolding queue_inv_def by (metis option.inject)
  then show ?thesis using p(3) p'(3) by simp
qed

lemma is_on_top_ok:
  assumes "base_inv X s" "c \<in> live s"
  shows "\<exists>s'. is_on_top c s = (Inr (is_top s c), s') \<and> trimmed s s' \<and> base_inv X s'"
  using assms(1)
proof (cases rule: find_first_cases)
  case (Empty s')
  then have "live s' = {}" by (simp add: live_def)
  with assms(2) trimmed_live [OF Empty(2)] show ?thesis by simp
next
  case (First p q s')
  have "queue_inv s'" using First(3) by (simp add: base_inv_def)
  then have "is_top s c \<longleftrightarrow> c = hd (sl_queues s' q)"
    using is_top_unique First(6) trimmed_top [OF First(2)] by blast
  with First show ?thesis by (simp add: is_on_top_def st_bind_def)
qed

section \<open>Notification\<close>

definition same_but_conds :: "slock \<Rightarrow> slock \<Rightarrow> bool" where
  "same_but_conds s s' \<longleftrightarrow>
     sl_name s' = sl_name s \<and> sl_pending s' = sl_pending s \<and> sl_pending_by_prio s' = sl_pending_by_prio s \<and>
     sl_pending_shared s' = sl_pending_shared s \<and> sl_shr s' = sl_shr s \<and> sl_exc s' = sl_exc s \<and>
     sl_deleted s' = sl_deleted s \<and> sl_queues s' = sl_queues s \<and> sl_waiting s' = sl_waiting s \<and>
     (\<forall>d. pc_shared (sl_conds s' d) = pc_shared (sl_conds s d))"

lemma cond_notify_all_ok:
  assumes "base_inv X s" "c \<in> live s"
  shows "\<exists>s'. cond_notify_all c s = (Inr (), s') \<and> base_inv X s' \<and> same_but_conds s s' \<and>
    all_woken s' c \<and> (\<forall>d. all_woken s d \<longrightarrow> all_woken s' d)"
proof -
  let ?x = "pc_single (sl_conds s c)"
  let ?n = "sl_next s"
  define s' where "s' = s\<lparr>sl_singles := (sl_singles s)(?x := (sl_singles s ?x)\<lparr>sn_notified := True, sn_write_fd := False\<rparr>,
                                          ?n := SingleNotifyPipeCondition),
             sl_conds := (sl_conds s)(c := (sl_conds s c)\<lparr>pc_single := ?n\<rparr>), sl_next := ?n + 1\<rparr>"
  have x: "?x < ?n" "\<not> sn_notified (sl_singles s ?x)" "c < ?n"
    using assms by (auto simp: base_inv_def cond_inv_def)
  have run: "cond_notify_all c s = (Inr (), s')"
    using x by (simp add: cond_notify_all_def single_notify_all_def check_unnotified_def s'_def)
  have live: "live s' = live s" by (simp add: live_def s'_def)
  have q: "queue_inv s'" using assms(1) unfolding base_inv_def queue_inv_def by (auto simp: s'_def intro: less_SucI)
  have other: "pc_single (sl_conds s d) \<noteq> ?x" if "d \<in> live s" "d \<noteq> c" for d
    using assms that unfolding base_inv_def cond_inv_def inj_on_def by blast
  have lt: "pc_single (sl_conds s d) < ?n" "d < ?n" if "d \<in> live s" for d
    using assms(1) that unfolding base_inv_def cond_inv_def by auto
  have pcs: "pc_single (sl_conds s' d) = (if d = c then ?n else pc_single (sl_conds s d))" for d
    by (simp add: s'_def)
  have ntf: "sn_notified (sl_singles s' y) \<longleftrightarrow> y \<noteq> ?n \<and> (y = ?x \<or> sn_notified (sl_singles s y))" for y
    by (simp add: s'_def SingleNotifyPipeCondition_def)
  have un: "\<not> sn_notified (sl_singles s (pc_single (sl_conds s d)))" if "d \<in> live s" for d
    using assms(1) that unfolding base_inv_def cond_inv_def by blast
  have co: "cond_inv s'"
    unfolding cond_inv_def live
  proof (intro conjI ballI inj_onI allI impI)
    fix d assume d: "d \<in> live s"
    show "d < sl_next s'" "pc_single (sl_conds s' d) < sl_next s'"
      using lt [OF d] by (simp_all add: s'_def)
    show "\<not> sn_notified (sl_singles s' (pc_single (sl_conds s' d)))"
      using un [OF d] other [OF d] by (simp add: pcs ntf)
    fix e assume e: "e \<in> live s" "pc_single (sl_conds s' d) = pc_single (sl_conds s' e)"
    have "inj_on (\<lambda>c. pc_single (sl_conds s c)) (live s)"
      using assms(1) unfolding base_inv_def cond_inv_def by blast
    then show "d = e"
      using e d lt [OF d] lt [OF e(1)] by (auto simp: pcs inj_on_def split: if_splits)
  next
    fix y assume "sn_notified (sl_singles s' y)"
    then show "\<not> sn_write_fd (sl_singles s' y)"
      using assms(1) unfolding ntf base_inv_def cond_inv_def by (auto simp: s'_def)
  qed
  have "waiter_ok s' t w" if "waiter_ok s t w" for t w
    using that x by (auto simp: waiter_ok_def s'_def)
  then have w: "waiter_inv X s'"
    using assms(1) unfolding base_inv_def waiter_inv_def live
    by (simp add: s'_def)
  have "owner_inv s'" using assms(1) by (simp add: base_inv_def owner_inv_def s'_def locked_def)
  moreover have "all_woken s' c"
    using assms(1) x unfolding base_inv_def waiter_inv_def all_woken_def waiter_ok_def
    by (fastforce simp: s'_def)
  moreover have "all_woken s' d" if "all_woken s d" for d
    using that assms(1) unfolding base_inv_def waiter_inv_def all_woken_def waiter_ok_def
    by (fastforce simp: s'_def)
  moreover have "same_but_conds s s'" by (simp add: same_but_conds_def s'_def)
  ultimately show ?thesis using run q co w by (auto simp: base_inv_def)
qed

lemma same_but_conds_top: "same_but_conds s s' \<Longrightarrow> is_top s' c \<longleftrightarrow> is_top s c"
  by (simp add: same_but_conds_def is_top_def)

lemma same_but_conds_live: "same_but_conds s s' \<Longrightarrow> live s' = live s"
  by (simp add: same_but_conds_def live_def)

lemma live_frame [simp]:
  "live (s\<lparr>sl_pending_shared := m\<rparr>) = live s" "live (s\<lparr>sl_exc := x\<rparr>) = live s"
  "live (s\<lparr>sl_shr := T\<rparr>) = live s" "live (s\<lparr>sl_deleted := b\<rparr>) = live s"
  by (simp_all add: live_def)

lemma top_frame [simp]:
  "is_top (s\<lparr>sl_pending_shared := m\<rparr>) = is_top s" "is_top (s\<lparr>sl_exc := x\<rparr>) = is_top s"
  "is_top (s\<lparr>sl_shr := T\<rparr>) = is_top s" "is_top (s\<lparr>sl_deleted := b\<rparr>) = is_top s"
  by (simp_all add: is_top_def fun_eq_iff)

lemma woken_frame [simp]:
  "all_woken (s\<lparr>sl_pending_shared := m\<rparr>) = all_woken s" "all_woken (s\<lparr>sl_exc := x\<rparr>) = all_woken s"
  "all_woken (s\<lparr>sl_shr := T\<rparr>) = all_woken s" "all_woken (s\<lparr>sl_deleted := b\<rparr>) = all_woken s"
  by (simp_all add: all_woken_def fun_eq_iff)

lemma queue_frame [simp]:
  "queue_inv (s\<lparr>sl_exc := x\<rparr>) = queue_inv s" "queue_inv (s\<lparr>sl_shr := T\<rparr>) = queue_inv s"
  "queue_inv (s\<lparr>sl_deleted := b\<rparr>) = queue_inv s"
  by (simp_all add: queue_inv_def)

lemma cond_frame [simp]:
  "cond_inv (s\<lparr>sl_pending_shared := m\<rparr>) = cond_inv s" "cond_inv (s\<lparr>sl_exc := x\<rparr>) = cond_inv s"
  "cond_inv (s\<lparr>sl_shr := T\<rparr>) = cond_inv s" "cond_inv (s\<lparr>sl_deleted := b\<rparr>) = cond_inv s"
  by (simp_all add: cond_inv_def)

lemma waiter_frame [simp]:
  "waiter_inv X (s\<lparr>sl_pending_shared := m\<rparr>) = waiter_inv X s"
  "waiter_inv X (s\<lparr>sl_deleted := b\<rparr>) = waiter_inv X s"
  by (simp_all add: waiter_inv_def waiter_ok_def)

lemma shared_pop_base:
  assumes "base_inv X s"
  shows "base_inv X (s\<lparr>sl_pending_shared := (sl_pending_shared s)(p := None)\<rparr>)"
proof -
  have "queue_inv (s\<lparr>sl_pending_shared := (sl_pending_shared s)(p := None)\<rparr>)"
    using assms unfolding base_inv_def queue_inv_def by simp
  then show ?thesis using assms by (simp add: base_inv_def owner_inv_def locked_def)
qed

lemma shared_pop_wake:
  "wake_inv (s\<lparr>sl_pending_shared := m\<rparr>) = wake_inv s"
  by (simp add: wake_inv_def locked_def)

lemma top_live: "is_top s c \<Longrightarrow> c \<in> live s"
  unfolding is_top_def live_iff by (metis hd_in_set)

lemma notify_topmost_ok:
  assumes "base_inv {} s" "sl_deleted s \<longrightarrow> (\<forall>c. all_woken s c)"
  shows "\<exists>s'. notify_topmost s = (Inr (), s') \<and> lock_inv s' \<and> sl_shr s' = sl_shr s \<and>
    sl_exc s' = sl_exc s \<and> sl_deleted s' = sl_deleted s \<and> sl_waiting s' = sl_waiting s"
  using assms(1)
proof (cases rule: find_first_cases)
  case (Empty s')
  then have "\<not> is_top s' c" for c by (simp add: is_top_def)
  moreover have "all_woken s' c" if "sl_deleted s'" for c
    using that assms(2) Empty(2) by (simp add: trimmed_def all_woken_def)
  ultimately have "wake_inv s'" by (simp add: wake_inv_def)
  with Empty show ?thesis
    by (auto simp: notify_topmost_def st_bind_def lock_inv_def trimmed_def)
next
  case (First p q s1)
  let ?c = "hd (sl_queues s1 q)"
  from cond_notify_all_ok [OF First(3) top_live [OF First(6)]] obtain s2 where s2:
    "cond_notify_all ?c s1 = (Inr (), s2)" "base_inv {} s2" "same_but_conds s1 s2" "all_woken s2 ?c"
    "\<forall>d. all_woken s1 d \<longrightarrow> all_woken s2 d" by blast
  define s3 where "s3 = (if pc_shared (sl_conds s2 ?c)
                         then s2\<lparr>sl_pending_shared := (sl_pending_shared s2)(p := None)\<rparr> else s2)"
  have run: "notify_topmost s = (Inr (), s3)"
    using First(1) s2(1) by (simp add: notify_topmost_def st_bind_def s3_def)
  have "queue_inv s1" using First(3) by (simp add: base_inv_def)
  then have "c = ?c" if "is_top s2 c" for c
    using that First(6) is_top_unique same_but_conds_top [OF s2(3)] by blast
  moreover have "all_woken s2 c" if "sl_deleted s2" for c
    using that assms(2) First(2) s2(3,5) by (simp add: trimmed_def same_but_conds_def all_woken_def)
  ultimately have "wake_inv s2" using s2(4) by (auto simp: wake_inv_def)
  then have "lock_inv s3"
    using s2(2) by (simp add: s3_def lock_inv_def shared_pop_base shared_pop_wake)
  moreover have "sl_shr s3 = sl_shr s \<and> sl_exc s3 = sl_exc s \<and> sl_deleted s3 = sl_deleted s \<and>
    sl_waiting s3 = sl_waiting s"
    using First(2) s2(3) by (simp add: s3_def trimmed_def same_but_conds_def)
  ultimately show ?thesis using run by blast
qed

section \<open>Releasing\<close>

lemma owner_shrink_base:
  assumes "base_inv X s"
  shows "base_inv X (s\<lparr>sl_exc := None\<rparr>)" "base_inv X (s\<lparr>sl_shr := sl_shr s - T\<rparr>)"
proof -
  have "waiter_inv X (s\<lparr>sl_exc := None\<rparr>)" "waiter_inv X (s\<lparr>sl_shr := sl_shr s - T\<rparr>)"
    using assms by (auto simp: base_inv_def waiter_inv_def waiter_ok_def)
  then show "base_inv X (s\<lparr>sl_exc := None\<rparr>)" "base_inv X (s\<lparr>sl_shr := sl_shr s - T\<rparr>)"
    using assms by (simp_all add: base_inv_def owner_inv_def locked_def)
qed

lemma release_ok:
  assumes "lock_inv s" "is_owned t (-1) s"
  shows "\<exists>s'. release t s = (Inr (), s') \<and> lock_inv s' \<and> \<not> is_owned t (-1) s' \<and>
    sl_shr s' = sl_shr s - {t} \<and> sl_exc s' = (if sl_exc s = Some t then None else sl_exc s) \<and>
    sl_deleted s' = sl_deleted s \<and> sl_waiting s' = sl_waiting s"
proof -
  have b: "base_inv {} s" and nd: "\<not> sl_deleted s"
    using assms by (auto simp: lock_inv_def base_inv_def owner_inv_def locked_def is_owned_def
        is_sharer_def is_exclusive_def)
  show ?thesis
  proof (cases "is_exclusive t s")
    case True
    from notify_topmost_ok [OF owner_shrink_base(1) [OF b]] nd obtain s' where
      "notify_topmost (s\<lparr>sl_exc := None\<rparr>) = (Inr (), s')" "lock_inv s'" "sl_shr s' = sl_shr s"
      "sl_exc s' = None" "\<not> sl_deleted s'" "sl_waiting s' = sl_waiting s" by auto
    moreover have "sl_shr s = {}"
      using b True by (simp add: base_inv_def owner_inv_def is_exclusive_def)
    ultimately show ?thesis
      using True nd by (auto simp: release_def st_bind_def st_assert_def is_owned_def is_exclusive_def is_sharer_def)
  next
    case False
    then have t: "t \<in> sl_shr s" using assms(2) by (simp add: is_owned_def is_sharer_def)
    then have e: "sl_exc s = None" using b by (auto simp: base_inv_def owner_inv_def)
    let ?s = "s\<lparr>sl_shr := sl_shr s - {t}\<rparr>"
    show ?thesis
    proof (cases "sl_shr ?s = {}")
      case True
      from notify_topmost_ok [OF owner_shrink_base(2) [OF b, of "{t}"]] nd obtain s' where
        "notify_topmost ?s = (Inr (), s')" "lock_inv s'" "sl_shr s' = sl_shr s - {t}"
        "sl_exc s' = sl_exc s" "\<not> sl_deleted s'" "sl_waiting s' = sl_waiting s" by auto
      then show ?thesis
        using False True nd t e
        by (auto simp: release_def st_bind_def st_assert_def is_owned_def is_exclusive_def is_sharer_def)
    next
      case F: False
      have "lock_inv ?s"
        using owner_shrink_base(2) [OF b, of "{t}"] F nd by (simp add: lock_inv_def wake_inv_def locked_def)
      then show ?thesis
        using False F nd t e
        by (auto simp: release_def st_bind_def st_assert_def is_owned_def is_exclusive_def is_sharer_def)
    qed
  qed
qed

lemma release_not_owner: "\<not> is_owned t (-1) s \<Longrightarrow> release t s = (Inl AssertionError, s)"
  by (simp add: release_def st_bind_def st_assert_def is_owned_def)


section \<open>Downgrading and deleting\<close>

lemma permute_base:
  assumes "base_inv X s" "set xs = set (sl_queues s q)" "distinct xs" "(p, q) \<in> set (sl_pending s)"
  shows "base_inv X (s\<lparr>sl_queues := (sl_queues s)(q := xs)\<rparr>)"
proof -
  let ?s = "s\<lparr>sl_queues := (sl_queues s)(q := xs)\<rparr>"
  have sets: "set (sl_queues ?s q') = set (sl_queues s q')" for q' using assms(2) by simp
  then have live: "live ?s = live s" by (simp add: live_def)
  have "queue_inv ?s"
    using assms(1,3) unfolding base_inv_def queue_inv_def sets by simp
  moreover have "waiter_ok ?s t w \<longleftrightarrow> waiter_ok s t w" for t w
    unfolding waiter_ok_def sets by simp
  ultimately show ?thesis
    using assms(1) unfolding base_inv_def cond_inv_def waiter_inv_def owner_inv_def live
    by (simp add: locked_def)
qed

lemma shared_in_queue:
  assumes "queue_inv s" "(p, q) \<in> set (sl_pending s)" "sl_pending_shared s p = Some c"
  shows "c \<in> set (sl_queues s q)" "pc_shared (sl_conds s c)" "sl_pending_by_prio s p = Some q"
proof -
  from assms obtain q' where q': "(p, q') \<in> set (sl_pending s)" "c \<in> set (sl_queues s q')" "pc_shared (sl_conds s c)"
    unfolding queue_inv_def by blast
  moreover have "q' = q" using assms(1,2) q'(1) unfolding queue_inv_def by (metis option.inject)
  ultimately show "c \<in> set (sl_queues s q)" "pc_shared (sl_conds s c)" by auto
  show "sl_pending_by_prio s p = Some q" using assms(1,2) unfolding queue_inv_def by blast
qed

lemma downgrade_notify_ok:
  assumes "base_inv {} s"
  shows "\<exists>s'. downgrade_notify s = (Inr (), s') \<and> base_inv {} s' \<and> sl_shr s' = sl_shr s \<and>
    sl_exc s' = sl_exc s \<and> sl_deleted s' = sl_deleted s \<and> sl_waiting s' = sl_waiting s"
  using assms
proof (cases rule: find_first_cases)
  case (Empty s')
  then show ?thesis by (auto simp: downgrade_notify_def st_bind_def trimmed_def)
next
  case (First p q s1)
  show ?thesis
  proof (cases "sl_pending_shared s1 p")
    case None
    with First show ?thesis by (auto simp: downgrade_notify_def st_bind_def trimmed_def)
  next
    case (Some c)
    have q1: "queue_inv s1" using First(3) by (simp add: base_inv_def)
    note c = shared_in_queue [OF q1 First(4) Some]
    define s2 where "s2 = s1\<lparr>sl_pending_shared := (sl_pending_shared s1)(p := None)\<rparr>"
    define s3 where "s3 = (if length (sl_queues s2 q) > 1
      then s2\<lparr>sl_queues := (sl_queues s2)(q := c # remove1 c (sl_queues s2 q))\<rparr> else s2)"
    have b2: "base_inv {} s2" using First(3) by (simp add: s2_def shared_pop_base)
    have d: "distinct (sl_queues s2 q)" using q1 First(4) by (auto simp: queue_inv_def s2_def)
    have "base_inv {} s3"
      using permute_base [OF b2, of "c # remove1 c (sl_queues s2 q)" q p] b2 c(1) d First(4)
      by (auto simp: s3_def s2_def)
    moreover have "c \<in> live s3"
      using c(1) First(4) unfolding live_iff by (intro exI [of _ p] exI [of _ q]) (simp add: s3_def s2_def)
    ultimately obtain s4 where s4: "cond_notify_all c s3 = (Inr (), s4)" "base_inv {} s4" "same_but_conds s3 s4"
      using cond_notify_all_ok by blast
    have "downgrade_notify s = (Inr (), s4)"
      using First(1) Some c s4(1) by (simp add: downgrade_notify_def st_bind_def Let_def s3_def s2_def split: if_splits)
    moreover have "sl_shr s4 = sl_shr s \<and> sl_exc s4 = sl_exc s \<and> sl_deleted s4 = sl_deleted s \<and> sl_waiting s4 = sl_waiting s"
      using s4(3) First(2) by (simp add: same_but_conds_def trimmed_def s3_def s2_def)
    ultimately show ?thesis using s4(2) by blast
  qed
qed

lemma downgrade_ok:
  assumes "lock_inv s" "is_owned t (-1) s"
  shows "\<exists>s'. downgrade t s = (Inr True, s') \<and> lock_inv s' \<and> sl_exc s' = None \<and>
    sl_shr s' = insert t (sl_shr s) \<and> sl_deleted s' = sl_deleted s \<and> sl_waiting s' = sl_waiting s"
proof (cases "is_exclusive t s")
  case True
  have b: "base_inv {} s" using assms(1) by (simp add: lock_inv_def)
  have e: "sl_exc s = Some t" "sl_shr s = {}" "\<not> sl_deleted s"
    using b True by (auto simp: is_exclusive_def base_inv_def owner_inv_def locked_def)
  let ?s = "s\<lparr>sl_exc := None, sl_shr := {t}\<rparr>"
  have "waiter_ok ?s u w" if "waiter_ok s u w" for u w
    using that e by (auto simp: waiter_ok_def)
  then have "waiter_inv {} ?s"
    using b unfolding base_inv_def waiter_inv_def by simp
  then have "base_inv {} ?s"
    using b e by (simp add: base_inv_def owner_inv_def locked_def)
  from downgrade_notify_ok [OF this] obtain s' where s': "downgrade_notify ?s = (Inr (), s')" "base_inv {} s'"
    "sl_shr s' = {t}" "sl_exc s' = None" "sl_deleted s' = sl_deleted s" "sl_waiting s' = sl_waiting s"
    by auto
  moreover have "lock_inv s'"
    using s' e by (simp add: lock_inv_def wake_inv_def locked_def)
  ultimately show ?thesis
    using e by (simp add: downgrade_def st_bind_def st_assert_def st_return_def is_owned_def
        is_exclusive_def is_sharer_def do_acquire_def)
next
  case False
  then have t: "t \<in> sl_shr s" using assms(2) by (simp add: is_owned_def is_sharer_def)
  then have "sl_exc s = None" using assms(1) by (auto simp: lock_inv_def base_inv_def owner_inv_def)
  with t False assms show ?thesis
    by (auto simp: downgrade_def st_bind_def st_assert_def st_return_def is_owned_def is_exclusive_def is_sharer_def)
qed

lemma downgrade_not_owner: "\<not> is_owned t (-1) s \<Longrightarrow> downgrade t s = (Inl AssertionError, s)"
  by (simp add: downgrade_def st_bind_def st_assert_def)

lemma notify_conds_ok:
  "base_inv X s \<Longrightarrow> set cs \<subseteq> live s \<Longrightarrow>
   \<exists>s'. notify_conds cs s = (Inr (), s') \<and> base_inv X s' \<and> same_but_conds s s' \<and>
     (\<forall>d. d \<in> set cs \<or> all_woken s d \<longrightarrow> all_woken s' d)"
proof (induction cs arbitrary: s)
  case Nil
  then show ?case by (simp add: st_return_def same_but_conds_def)
next
  case (Cons c cs)
  from Cons.prems cond_notify_all_ok [of X s c] obtain s1 where s1:
    "cond_notify_all c s = (Inr (), s1)" "base_inv X s1" "same_but_conds s s1" "all_woken s1 c"
    "\<forall>d. all_woken s d \<longrightarrow> all_woken s1 d" by auto
  have "set cs \<subseteq> live s1" using Cons.prems(2) same_but_conds_live [OF s1(3)] by simp
  from Cons.IH [OF s1(2) this] obtain s2 where s2: "notify_conds cs s1 = (Inr (), s2)" "base_inv X s2"
    "same_but_conds s1 s2" "\<forall>d. d \<in> set cs \<or> all_woken s1 d \<longrightarrow> all_woken s2 d" by blast
  have "same_but_conds s s2" using s1(3) s2(3) by (simp add: same_but_conds_def)
  moreover have "all_woken s2 d" if "d \<in> set (c # cs) \<or> all_woken s d" for d
    using that s1(4,5) s2(4) by auto
  moreover have "notify_conds (c # cs) s = (Inr (), s2)"
    using s1(1) s2(1) by (simp add: st_bind_def)
  ultimately show ?case using s2(2) by blast
qed

lemma delete_mark_ok:
  assumes "base_inv {} s" "sl_exc s = Some t"
  shows "\<exists>s'. delete_mark t s = (Inr (), s') \<and> lock_inv s' \<and> sl_deleted s' \<and> \<not> locked s' \<and>
    sl_waiting s' = sl_waiting s"
proof -
  have shr: "sl_shr s = {}" using assms by (auto simp: base_inv_def owner_inv_def)
  define s1 where "s1 = s\<lparr>sl_deleted := True, sl_exc := None\<rparr>"
  define cs where "cs = concat (map (\<lambda>(_, q). sl_queues s1 q) (sl_pending s1))"
  have s1: "s1 = (s\<lparr>sl_exc := None\<rparr>)\<lparr>sl_deleted := True\<rparr>" by (simp add: s1_def)
  have b: "base_inv {} s1" unfolding s1
    using owner_shrink_base(1) [OF assms(1)] shr by (simp add: base_inv_def owner_inv_def locked_def s1_def)
  have cs: "set cs = live s1" by (auto simp: cs_def live_def)
  from notify_conds_ok [OF b, of cs] cs obtain s2 where s2: "notify_conds cs s1 = (Inr (), s2)" "base_inv {} s2"
    "same_but_conds s1 s2" "\<forall>d \<in> live s1. all_woken s2 d" by auto
  have w: "sl_waiting s2 = sl_waiting s" and del: "sl_deleted s2" and nl: "\<not> locked s2"
    using s2(3) shr by (auto simp: same_but_conds_def s1_def locked_def)
  have "w_cond w \<in> live s1" if "sl_waiting s2 t = Some w" for t w
    using that s2(2) same_but_conds_live [OF s2(3)] unfolding base_inv_def waiter_inv_def waiter_ok_def
    by (metis live_iff)
  then have "all_woken s2 c" for c
    using s2(4) unfolding all_woken_def by blast
  then have "lock_inv s2" using s2(2) by (simp add: lock_inv_def wake_inv_def)
  moreover have "delete_mark t s = (Inr (), s2)"
    using s2(1) assms(2) shr
    by (simp add: delete_mark_def st_bind_def st_assert_def st_do_def is_exclusive_def is_sharer_def s1_def cs_def)
  ultimately show ?thesis using w del nl by blast
qed

section \<open>Waiting\<close>

text \<open>A thread that runs inside an acquire whose condition is queued.\<close>

definition placed :: "slock \<Rightarrow> thread \<Rightarrow> waiter \<Rightarrow> bool" where
  "placed s t w \<longleftrightarrow>
     (w_prio w, w_queue w) \<in> set (sl_pending s) \<and> w_cond w \<in> set (sl_queues s (w_queue w)) \<and>
     w_shared w = pc_shared (sl_conds s (w_cond w)) \<and> (w_delete w \<longrightarrow> \<not> w_shared w) \<and>
     t \<notin> sl_shr s \<and> sl_exc s \<noteq> Some t \<and> sl_waiting s t = None"

lemma placed_live: "placed s t w \<Longrightarrow> w_cond w \<in> live s"
  unfolding placed_def live_iff by blast

lemma single_enter: "\<not> sn_notified c \<Longrightarrow>
  \<exists>c'. single_wait_enter c = Inr c' \<and> \<not> sn_notified c' \<and> sn_nwaiters c' = sn_nwaiters c + 1"
  by (simp add: single_wait_enter_def check_unnotified_def Let_def)

lemma single_leave:
  "sn_notified (single_wait_leave c) = sn_notified c"
  "sn_write_fd (single_wait_leave c) \<Longrightarrow> sn_write_fd c"
  by (auto simp: single_wait_leave_def single_Cleanup_def Let_def split: if_splits)

lemma cond_wait_enter_ok:
  assumes "base_inv {w_cond w} s" "placed s t w" "wake_inv s" "\<not> sl_deleted s"
    and "\<not> locked s \<longrightarrow> \<not> is_top s (w_cond w)"
  shows "\<exists>s' w'. cond_wait_enter t w s = (Inr (), s') \<and> lock_inv s' \<and> sl_shr s' = sl_shr s \<and>
    sl_exc s' = sl_exc s \<and> \<not> sl_deleted s' \<and> sl_waiting s' = (sl_waiting s)(t \<mapsto> w') \<and>
    w' = w\<lparr>w_single := w_single w'\<rparr>"
proof -
  let ?c = "w_cond w"
  let ?x = "pc_single (sl_conds s ?c)"
  have c: "?c \<in> live s" using assms(2) by (rule placed_live)
  then have x: "?x < sl_next s" "\<not> sn_notified (sl_singles s ?x)"
    using assms(1) unfolding base_inv_def cond_inv_def by auto
  from single_enter [OF x(2)] obtain sc where sc: "single_wait_enter (sl_singles s ?x) = Inr sc"
    "\<not> sn_notified sc" by blast
  define w' where "w' = w\<lparr>w_single := ?x\<rparr>"
  define s' where "s' = s\<lparr>sl_conds := (sl_conds s)(?c := (sl_conds s ?c)\<lparr>pc_waiters := insert t (pc_waiters (sl_conds s ?c))\<rparr>),
                sl_singles := (sl_singles s)(?x := sc), sl_waiting := (sl_waiting s)(t \<mapsto> w')\<rparr>"
  have run: "cond_wait_enter t w s = (Inr (), s')"
    using sc(1) by (simp add: cond_wait_enter_def s'_def w'_def Let_def)
  have live: "live s' = live s" and top: "is_top s' = is_top s"
    by (simp_all add: live_def is_top_def s'_def fun_eq_iff)
  have ntf: "sn_notified (sl_singles s' y) = sn_notified (sl_singles s y)" for y
    using sc(2) x(2) by (simp add: s'_def)
  have pcs: "pc_single (sl_conds s' d) = pc_single (sl_conds s d)"
    "pc_shared (sl_conds s' d) = pc_shared (sl_conds s d)" for d by (simp_all add: s'_def)
  have "queue_inv s'" using assms(1) unfolding base_inv_def queue_inv_def pcs by (simp add: s'_def)
  moreover have "cond_inv s'"
  proof -
    have "sn_notified (sl_singles s' y) \<longrightarrow> \<not> sn_write_fd (sl_singles s' y)" for y
      using assms(1) sc(2) unfolding base_inv_def cond_inv_def by (simp add: s'_def)
    then show ?thesis
      using assms(1) unfolding base_inv_def cond_inv_def live ntf pcs by (simp add: s'_def)
  qed
  moreover have "waiter_inv {} s'"
    unfolding waiter_inv_def live
  proof (intro conjI allI impI ballI)
    fix u v assume uv: "sl_waiting s' u = Some v"
    show "waiter_ok s' u v"
    proof (cases "u = t")
      case True
      with uv assms(2) x show ?thesis
        unfolding waiter_ok_def placed_def ntf pcs by (auto simp: s'_def w'_def)
    next
      case False
      with uv have "waiter_ok s u v"
        using assms(1) unfolding base_inv_def waiter_inv_def by (simp add: s'_def)
      then show ?thesis unfolding waiter_ok_def ntf pcs by (auto simp: s'_def)
    qed
  next
    fix d u assume du: "d \<in> live s" "u \<in> pc_waiters (sl_conds s' d)"
    have old: "\<exists>v. sl_waiting s u = Some v \<and> w_cond v = d" if "u \<in> pc_waiters (sl_conds s d)"
      using assms(1) du(1) that unfolding base_inv_def waiter_inv_def by blast
    have "sl_waiting s t = None" using assms(2) by (simp add: placed_def)
    with du old show "\<exists>v. sl_waiting s' u = Some v \<and> w_cond v = d"
      by (auto simp: s'_def w'_def split: if_splits)
  next
    fix d assume "d \<in> live s - {}"
    then show "pc_waiters (sl_conds s' d) \<noteq> {}"
      using assms(1) unfolding base_inv_def waiter_inv_def by (auto simp: s'_def)
  qed
  moreover have "owner_inv s'" using assms(1) by (simp add: base_inv_def owner_inv_def s'_def locked_def)
  moreover have "wake_inv s'"
    using assms(3-5) unfolding wake_inv_def top all_woken_def ntf
    by (auto simp: s'_def locked_def w'_def)
  moreover have "w' = w\<lparr>w_single := w_single w'\<rparr>" by (simp add: w'_def)
  ultimately show ?thesis
    using run assms(4) by (auto simp: lock_inv_def base_inv_def s'_def intro!: exI [of _ w'])
qed

lemma cond_wait_leave_ok:
  assumes "lock_inv s" "sl_waiting s t = Some w"
  shows "\<exists>s'. cond_wait_leave t w s = (Inr (), s') \<and> base_inv {w_cond w} s' \<and> placed s' t w \<and> wake_inv s' \<and>
    sl_shr s' = sl_shr s \<and> sl_exc s' = sl_exc s \<and> sl_deleted s' = sl_deleted s \<and> sl_name s' = sl_name s \<and>
    sl_waiting s' = (sl_waiting s)(t := None) \<and> (\<forall>c. is_top s' c = is_top s c)"
proof -
  let ?c = "w_cond w"
  let ?x = "w_single w"
  have b: "base_inv {} s" using assms(1) by (simp add: lock_inv_def)
  have ok: "waiter_ok s t w" using b assms(2) by (simp add: base_inv_def waiter_inv_def)
  define s' where "s' = s\<lparr>sl_singles := (sl_singles s)(?x := single_wait_leave (sl_singles s ?x)),
      sl_waiting := (sl_waiting s)(t := None),
      sl_conds := (sl_conds s)(?c := (sl_conds s ?c)\<lparr>pc_waiters := pc_waiters (sl_conds s ?c) - {t}\<rparr>)\<rparr>"
  have run: "cond_wait_leave t w s = (Inr (), s')"
    using ok by (simp add: cond_wait_leave_def s'_def waiter_ok_def Let_def)
  have live: "live s' = live s" and top: "is_top s' = is_top s"
    by (simp_all add: live_def is_top_def s'_def fun_eq_iff)
  have ntf: "sn_notified (sl_singles s' y) = sn_notified (sl_singles s y)" for y
    by (simp add: s'_def single_leave)
  have pcs: "pc_single (sl_conds s' d) = pc_single (sl_conds s d)"
    "pc_shared (sl_conds s' d) = pc_shared (sl_conds s d)" for d by (simp_all add: s'_def)
  have "queue_inv s'" using b unfolding base_inv_def queue_inv_def pcs by (simp add: s'_def)
  moreover have "cond_inv s'"
  proof -
    have "sn_notified (sl_singles s' y) \<longrightarrow> \<not> sn_write_fd (sl_singles s' y)" for y
      using b single_leave(2) unfolding ntf base_inv_def cond_inv_def by (auto simp: s'_def)
    then show ?thesis
      using b unfolding base_inv_def cond_inv_def live ntf pcs by (simp add: s'_def)
  qed
  moreover have "waiter_inv {?c} s'"
    unfolding waiter_inv_def live
  proof (intro conjI allI impI ballI)
    fix u v assume uv: "sl_waiting s' u = Some v"
    then have "u \<noteq> t" "waiter_ok s u v"
      using b unfolding base_inv_def waiter_inv_def by (auto simp: s'_def split: if_splits)
    then show "waiter_ok s' u v" unfolding waiter_ok_def ntf pcs by (auto simp: s'_def)
  next
    fix d u assume du: "d \<in> live s" "u \<in> pc_waiters (sl_conds s' d)"
    then have "u \<in> pc_waiters (sl_conds s d)" by (auto simp: s'_def split: if_splits)
    then obtain v where "sl_waiting s u = Some v" "w_cond v = d"
      using b du(1) unfolding base_inv_def waiter_inv_def by blast
    with du assms(2) show "\<exists>v. sl_waiting s' u = Some v \<and> w_cond v = d"
      by (auto simp: s'_def split: if_splits)
  next
    fix d assume "d \<in> live s - {?c}"
    then show "pc_waiters (sl_conds s' d) \<noteq> {}"
      using b unfolding base_inv_def waiter_inv_def by (auto simp: s'_def)
  qed
  moreover have "owner_inv s'" using b by (simp add: base_inv_def owner_inv_def s'_def locked_def)
  moreover have "wake_inv s'"
    using assms(1) unfolding lock_inv_def wake_inv_def top all_woken_def ntf
    by (auto simp: s'_def locked_def)
  moreover have "placed s' t w" using ok unfolding placed_def waiter_ok_def by (auto simp: s'_def)
  ultimately show ?thesis using run top by (auto simp: base_inv_def s'_def)
qed


section \<open>Acquiring\<close>

lemma is_top_remove:
  assumes "queue_inv s" "(p, q) \<in> set (sl_pending s)" "c \<in> set (sl_queues s q)" "\<not> is_top s c"
    and "is_top (s\<lparr>sl_queues := (sl_queues s)(q := remove1 c (sl_queues s q))\<rparr>) d"
  shows "is_top s d"
proof -
  let ?Q = "(sl_queues s)(q := remove1 c (sl_queues s q))"
  from assms(5) obtain p1 q1 where d: "(p1, q1) \<in> set (sl_pending s)" "?Q q1 \<noteq> []" "hd (?Q q1) = d"
    "\<And>p' q'. (p', q') \<in> set (sl_pending s) \<Longrightarrow> ?Q q' \<noteq> [] \<Longrightarrow> p1 \<le> p'"
    unfolding is_top_def by auto
  have ne: "sl_queues s q \<noteq> []" using assms(3) by auto
  have le: "p1 \<le> p"
  proof (rule ccontr)
    assume "\<not> p1 \<le> p"
    then have "?Q q = []" using d(4) [OF assms(2)] by fastforce
    then have "sl_queues s q = [c]"
      using assms(3) by (cases "sl_queues s q") (auto split: if_splits)
    moreover have "p \<le> p'" if "(p', q') \<in> set (sl_pending s)" "sl_queues s q' \<noteq> []" for p' q'
    proof (cases "q' = q")
      case True
      with that assms(1,2) have "p' = p" unfolding queue_inv_def by blast
      then show ?thesis by simp
    next
      case False
      then show ?thesis using d(4) [OF that(1)] that(2) \<open>\<not> p1 \<le> p\<close> by simp
    qed
    ultimately have "is_top s c"
      unfolding is_top_def using assms(2) by (metis list.sel(1) list.simps(3))
    with assms(4) show False by simp
  qed
  have least: "p1 \<le> p'" if "(p', q') \<in> set (sl_pending s)" "sl_queues s q' \<noteq> []" for p' q'
  proof (cases "q' = q")
    case True
    with that assms(1,2) have "p' = p" unfolding queue_inv_def by blast
    with le show ?thesis by simp
  next
    case False
    then show ?thesis using d(4) [OF that(1)] that(2) by simp
  qed
  have "sl_queues s q1 \<noteq> []" using d(2) ne by (auto split: if_splits)
  moreover have "hd (sl_queues s q1) = d"
  proof (cases "q1 = q")
    case True
    have "hd (sl_queues s q) \<noteq> c"
      using assms(4) d(1) least True ne unfolding is_top_def by blast
    then show ?thesis using d(3) True by (cases "sl_queues s q") auto
  next
    case False
    then show ?thesis using d(3) by simp
  qed
  ultimately show ?thesis using d(1) least unfolding is_top_def by blast
qed

lemma remove_base:
  assumes "base_inv {c} s" "(p, q) \<in> set (sl_pending s)" "c \<in> set (sl_queues s q)"
    and "pc_waiters (sl_conds s c) = {}" "pc_shared (sl_conds s c) \<longrightarrow> sl_pending_shared s p = None"
  shows "base_inv {} (s\<lparr>sl_queues := (sl_queues s)(q := remove1 c (sl_queues s q))\<rparr>)"
proof -
  define s' where "s' = s\<lparr>sl_queues := (sl_queues s)(q := remove1 c (sl_queues s q))\<rparr>"
  have q: "queue_inv s" using assms(1) by (simp add: base_inv_def)
  have dq: "distinct (sl_queues s q)" using q assms(2) unfolding queue_inv_def by blast
  have other: "q' = q" if "(p', q') \<in> set (sl_pending s)" "c \<in> set (sl_queues s q')" for p' q'
  proof -
    have "p' = p" using q assms(2,3) that unfolding queue_inv_def by blast
    then show ?thesis using q assms(2) that(1) unfolding queue_inv_def by (metis option.inject)
  qed
  have sets: "set (sl_queues s' q') = set (sl_queues s q') - {c}" if "(p', q') \<in> set (sl_pending s)" for p' q'
    using other [OF that] dq by (auto simp: s'_def)
  have live: "live s' = live s - {c}"
    using sets unfolding live_def by (auto simp: s'_def)
  have qi: "queue_inv s'"
  proof -
    have "\<exists>q'. (p', q') \<in> set (sl_pending s') \<and> d \<in> set (sl_queues s' q') \<and> pc_shared (sl_conds s' d)"
      if sh: "sl_pending_shared s' p' = Some d" for p' d
    proof -
      from sh have "sl_pending_shared s p' = Some d" by (simp add: s'_def)
      then obtain q' where q': "(p', q') \<in> set (sl_pending s)" "d \<in> set (sl_queues s q')" "pc_shared (sl_conds s d)"
        using q unfolding queue_inv_def by blast
      have "d \<noteq> c"
      proof
        assume "d = c"
        then have "p' = p" using q' q assms(2,3) unfolding queue_inv_def by blast
        then show False using assms(5) sh q'(3) \<open>d = c\<close> by (simp add: s'_def)
      qed
      with q' sets [OF q'(1)] have "d \<in> set (sl_queues s' q')" by simp
      with q' show ?thesis by (auto simp: s'_def)
    qed
    moreover have "p1 = p2" if "(p1, q1) \<in> set (sl_pending s)" "(p2, q2) \<in> set (sl_pending s)"
      "q1 = q2 \<or> set (sl_queues s' q1) \<inter> set (sl_queues s' q2) \<noteq> {}" for p1 p2 q1 q2
      using q that sets [OF that(1)] sets [OF that(2)] unfolding queue_inv_def by blast
    moreover have "distinct (sl_queues s' q')" if "(p', q') \<in> set (sl_pending s)" for p' q'
      using q that unfolding queue_inv_def by (auto simp: s'_def)
    ultimately show ?thesis
      using q unfolding queue_inv_def by (simp add: s'_def)
  qed
  have wo: "waiter_ok s' t w" if "waiter_ok s t w" for t w
  proof -
    have "w_cond w \<noteq> c" using that assms(4) by (auto simp: waiter_ok_def)
    then show ?thesis using that unfolding waiter_ok_def by (auto simp: s'_def)
  qed
  have "waiter_inv {} s'"
    using assms(1) wo unfolding base_inv_def waiter_inv_def live by (simp add: s'_def)
  moreover have "cond_inv s'"
    using assms(1) unfolding base_inv_def cond_inv_def live inj_on_def by (simp add: s'_def)
  ultimately show ?thesis
    using qi assms(1) unfolding s'_def [symmetric] by (simp add: base_inv_def owner_inv_def s'_def locked_def)
qed


lemma wake_remove:
  assumes "queue_inv s" "(p, q) \<in> set (sl_pending s)" "c \<in> set (sl_queues s q)" "wake_inv s"
    and "\<not> locked s \<and> \<not> sl_deleted s \<longrightarrow> \<not> is_top s c"
  shows "wake_inv (s\<lparr>sl_queues := (sl_queues s)(q := remove1 c (sl_queues s q))\<rparr>)"
proof -
  let ?s = "s\<lparr>sl_queues := (sl_queues s)(q := remove1 c (sl_queues s q))\<rparr>"
  have aw: "all_woken ?s d = all_woken s d" for d by (simp add: all_woken_def)
  have "all_woken s d" if "\<not> locked s" "is_top ?s d" for d
  proof (cases "sl_deleted s")
    case True
    then show ?thesis using assms(4) by (simp add: wake_inv_def)
  next
    case False
    then have "is_top s d" using is_top_remove [OF assms(1-3)] assms(5) that by blast
    then show ?thesis using assms(4) that(1) by (simp add: wake_inv_def)
  qed
  then show ?thesis using assms(4) unfolding wake_inv_def aw by (simp add: locked_def)
qed

lemma acquire_cleanup_ok:
  assumes "base_inv {w_cond w} s" "wake_inv s"
    and "(w_prio w, w_queue w) \<in> set (sl_pending s)" "w_cond w \<in> set (sl_queues s (w_queue w))"
    and "\<not> locked s \<and> \<not> sl_deleted s \<longrightarrow> \<not> is_top s (w_cond w)"
  shows "\<exists>s'. acquire_cleanup w s = (Inr (), s') \<and> lock_inv s' \<and> sl_shr s' = sl_shr s \<and>
    sl_exc s' = sl_exc s \<and> sl_deleted s' = sl_deleted s \<and> sl_waiting s' = sl_waiting s"
proof (cases "has_waiting (w_cond w) s")
  case True
  then have "base_inv {} s"
    using assms(1) unfolding base_inv_def waiter_inv_def has_waiting_def by blast
  with True assms(2) show ?thesis by (auto simp: acquire_cleanup_def lock_inv_def)
next
  case False
  let ?c = "w_cond w"
  let ?q = "w_queue w"
  define s1 where "s1 = (if pc_shared (sl_conds s ?c)
     then s\<lparr>sl_pending_shared := (sl_pending_shared s)(w_prio w := None)\<rparr> else s)"
  define s2 where "s2 = s1\<lparr>sl_queues := (sl_queues s1)(?q := remove1 ?c (sl_queues s1 ?q))\<rparr>"
  have b1: "base_inv {?c} s1" using assms(1) by (simp add: s1_def shared_pop_base)
  have w1: "wake_inv s1" using assms(2) by (simp add: s1_def shared_pop_wake)
  have f1: "sl_pending s1 = sl_pending s" "sl_queues s1 = sl_queues s" "sl_conds s1 = sl_conds s"
    "locked s1 = locked s" "is_top s1 = is_top s" "sl_deleted s1 = sl_deleted s"
    by (simp_all add: s1_def locked_def)
  have "base_inv {} s2"
    unfolding s2_def using b1 assms(3,4) False
    by (intro remove_base) (auto simp: f1 has_waiting_def s1_def)
  moreover have "wake_inv s2"
    unfolding s2_def using b1 w1 assms(3-5)
    by (intro wake_remove) (auto simp: f1 base_inv_def)
  moreover have "acquire_cleanup w s = (Inr (), s2)"
    using False assms(4)
    by (simp add: acquire_cleanup_def queue_remove_def st_bind_def s2_def s1_def)
  ultimately show ?thesis by (auto simp: lock_inv_def s2_def s1_def)
qed

text \<open>
  One round of the waiting loop: the lock is taken only from the head of the most urgent
  queue, the acquire gives up only if it has a timeout, and otherwise it waits.
\<close>

definition owners_after :: "thread \<Rightarrow> bool \<Rightarrow> slock \<Rightarrow> slock \<Rightarrow> bool" where
  "owners_after t shared s s' \<longleftrightarrow>
     (if shared then sl_shr s' = insert t (sl_shr s) \<and> sl_exc s' = sl_exc s
      else sl_shr s' = sl_shr s \<and> sl_exc s' = Some t)"

lemma do_acquire_ok:
  assumes "base_inv X s" "can_acquire shared s" "\<not> sl_deleted s" "sl_waiting s t = None"
  shows "base_inv X (do_acquire t shared s)" "wake_inv (do_acquire t shared s)" "locked (do_acquire t shared s)"
    "owners_after t shared s (do_acquire t shared s)"
proof -
  have w: "waiter_ok (do_acquire t shared s) u w" if "sl_waiting s u = Some w" "waiter_ok s u w" for u w
    using that assms(4) by (auto simp: waiter_ok_def do_acquire_def)
  have f: "sl_waiting (do_acquire t shared s) = sl_waiting s" "live (do_acquire t shared s) = live s"
    "sl_conds (do_acquire t shared s) = sl_conds s" "queue_inv (do_acquire t shared s) = queue_inv s"
    "cond_inv (do_acquire t shared s) = cond_inv s"
    by (simp_all add: do_acquire_def)
  have "waiter_inv X (do_acquire t shared s)"
    using assms(1) w unfolding base_inv_def waiter_inv_def f by blast
  moreover have "owner_inv (do_acquire t shared s)"
    using assms(2,3) by (auto simp: owner_inv_def can_acquire_def do_acquire_def)
  ultimately show "base_inv X (do_acquire t shared s)"
    using assms(1) by (simp add: base_inv_def f)
  show "locked (do_acquire t shared s)" by (simp add: locked_def do_acquire_def)
  then show "wake_inv (do_acquire t shared s)"
    using assms(3) by (simp add: wake_inv_def do_acquire_def)
  show "owners_after t shared s (do_acquire t shared s)" by (simp add: owners_after_def do_acquire_def)
qed

lemma placed_trimmed:
  assumes "trimmed s s'" "placed s t w"
  shows "placed s' t w"
proof -
  have "sl_queues s (w_queue w) \<noteq> []" using assms(2) by (auto simp: placed_def)
  then show ?thesis using assms trimmed_entry [OF assms(1)] by (auto simp: placed_def trimmed_def)
qed


definition acquire_post :: "thread \<Rightarrow> bool \<Rightarrow> rat option \<Rightarrow> slock \<Rightarrow> acquire_result \<Rightarrow> slock \<Rightarrow> bool" where
  "acquire_post t shared timeout s r s' \<longleftrightarrow>
     lock_inv s' \<and> \<not> sl_deleted s' \<and>
     (case r of
        Returned True \<Rightarrow> owners_after t shared s s' \<and> can_acquire shared s \<and> sl_waiting s' t = None
      | Returned False \<Rightarrow> timeout \<noteq> None \<and> sl_shr s' = sl_shr s \<and> sl_exc s' = sl_exc s \<and> sl_waiting s' t = None
      | Waits \<Rightarrow> sl_shr s' = sl_shr s \<and> sl_exc s' = sl_exc s \<and> sl_waiting s' t \<noteq> None) \<and>
     (\<forall>u. u \<noteq> t \<longrightarrow> sl_waiting s' u = sl_waiting s u)"

lemma can_acquire_trimmed: "trimmed s s' \<Longrightarrow> can_acquire shared s' = can_acquire shared s"
  by (simp add: trimmed_def can_acquire_def)

lemma locked_trimmed: "trimmed s s' \<Longrightarrow> locked s' = locked s"
  by (simp add: trimmed_def locked_def)

lemma not_locked_can_acquire: "\<not> locked s \<Longrightarrow> can_acquire shared s"
  by (simp add: locked_def can_acquire_def)

lemma acquire_loop_ok:
  assumes "base_inv {w_cond w} s" "placed s t w" "wake_inv s" "\<not> sl_deleted s"
  shows "\<exists>r s'. acquire_loop t w now s = (Inr r, s') \<and> acquire_post t (w_shared w) (w_timeout w) s r s' \<and>
    (r = Returned True \<longleftrightarrow> is_top s (w_cond w) \<and> can_acquire (w_shared w) s) \<and>
    (r = Returned False \<longrightarrow> now > w_start w + the (w_timeout w)) \<and>
    (r = Waits \<longrightarrow> (\<exists>x. sl_waiting s' t = Some (w\<lparr>w_single := x\<rparr>)))"
proof -
  let ?c = "w_cond w"
  from is_on_top_ok [OF assms(1) placed_live [OF assms(2)]] obtain s1 where s1:
    "is_on_top ?c s = (Inr (is_top s ?c), s1)" "trimmed s s1" "base_inv {?c} s1" by blast
  have p1: "placed s1 t w" by (rule placed_trimmed [OF s1(2) assms(2)])
  have w1: "wake_inv s1" using trimmed_wake [OF s1(2)] assms(3) by simp
  have d1: "\<not> sl_deleted s1" and f1: "sl_shr s1 = sl_shr s" "sl_exc s1 = sl_exc s" "sl_waiting s1 = sl_waiting s"
    using s1(2) assms(4) by (auto simp: trimmed_def)
  note tr = trimmed_top [OF s1(2)] can_acquire_trimmed [OF s1(2)] locked_trimmed [OF s1(2)]
  have wt: "sl_waiting s t = None" using assms(2) by (simp add: placed_def)
  show ?thesis
  proof (cases "is_top s ?c \<and> can_acquire (w_shared w) s")
    case True
    define s2 where "s2 = do_acquire t (w_shared w) s1"
    have "sl_waiting s1 t = None" using wt f1 by simp
    note a = do_acquire_ok [OF s1(3) _ d1 this, of "w_shared w", folded s2_def]
    have round: "acquire_round t w now s = (Inr (Returned True), s2)"
      using s1(1) True tr by (simp add: acquire_round_def st_bind_def s2_def)
    have f2: "sl_pending s2 = sl_pending s1" "sl_queues s2 = sl_queues s1" "sl_waiting s2 = sl_waiting s1"
      "sl_deleted s2 = sl_deleted s1"
      by (simp_all add: s2_def do_acquire_def)
    from acquire_cleanup_ok [of w s2] a True tr p1 f2 obtain s3 where s3: "acquire_cleanup w s2 = (Inr (), s3)"
      "lock_inv s3" "sl_shr s3 = sl_shr s2" "sl_exc s3 = sl_exc s2" "sl_deleted s3 = sl_deleted s2" "sl_waiting s3 = sl_waiting s2"
      by (auto simp: placed_def)
    have "acquire_loop t w now s = (Inr (Returned True), s3)"
      using round s3(1) by (simp add: acquire_loop_def st_finally_def)
    moreover have "acquire_post t (w_shared w) (w_timeout w) s (Returned True) s3"
      using s3 a(4) True tr d1 f1 f2 wt by (simp add: acquire_post_def owners_after_def)
    ultimately show ?thesis using True by blast
  next
    case nt: False
    then have ntop: "\<not> locked s1 \<longrightarrow> \<not> is_top s1 ?c"
      using tr not_locked_can_acquire by blast
    show ?thesis
    proof (cases "w_timeout w \<noteq> None \<and> TimeoutExpired (w_start w) (the (w_timeout w)) now")
      case True
      have round: "acquire_round t w now s = (Inr (Returned False), s1)"
        using s1(1) True nt tr by (simp add: acquire_round_def st_bind_def)
      from acquire_cleanup_ok [OF s1(3) w1] p1 ntop obtain s3 where s3: "acquire_cleanup w s1 = (Inr (), s3)"
        "lock_inv s3" "sl_shr s3 = sl_shr s1" "sl_exc s3 = sl_exc s1" "sl_deleted s3 = sl_deleted s1" "sl_waiting s3 = sl_waiting s1"
        by (auto simp: placed_def)
      have "acquire_loop t w now s = (Inr (Returned False), s3)"
        using round s3(1) by (simp add: acquire_loop_def st_finally_def)
      moreover have "acquire_post t (w_shared w) (w_timeout w) s (Returned False) s3"
        using s3 True d1 f1 wt by (simp add: acquire_post_def)
      ultimately show ?thesis using True nt by (auto simp: TimeoutExpired_def)
    next
      case False
      from cond_wait_enter_ok [OF s1(3) p1 w1 d1 ntop] obtain s3 w' where s3: "cond_wait_enter t w s1 = (Inr (), s3)"
        "lock_inv s3" "sl_shr s3 = sl_shr s1" "sl_exc s3 = sl_exc s1" "\<not> sl_deleted s3"
        "sl_waiting s3 = (sl_waiting s1)(t \<mapsto> w')" "w' = w\<lparr>w_single := w_single w'\<rparr>" by blast
      have "acquire_round t w now s = (Inr Waits, s3)"
        using s1(1) False nt tr s3(1) by (auto simp: acquire_round_def st_bind_def st_return_def)
      then have "acquire_loop t w now s = (Inr Waits, s3)" by (simp add: acquire_loop_def)
      moreover have "acquire_post t (w_shared w) (w_timeout w) s Waits s3"
        using s3 f1 by (simp add: acquire_post_def)
      moreover have "sl_waiting s3 t = Some (w\<lparr>w_single := w_single w'\<rparr>)" using s3(6,7) by simp
      ultimately show ?thesis using nt by blast
    qed
  qed
qed

text \<open>The rest of the lock is the same in both states.\<close>

definition same_owners :: "slock \<Rightarrow> slock \<Rightarrow> bool" where
  "same_owners s s' \<longleftrightarrow>
     sl_shr s' = sl_shr s \<and> sl_exc s' = sl_exc s \<and> sl_deleted s' = sl_deleted s \<and>
     sl_waiting s' = sl_waiting s"

lemma is_top_transfer:
  assumes "is_top s' c"
    and "\<And>p q. (p, q) \<in> set (sl_pending s') \<Longrightarrow> sl_queues s' q \<noteq> [] \<Longrightarrow> hd (sl_queues s' q) = c \<Longrightarrow>
      (p, q) \<in> set (sl_pending s) \<and> sl_queues s q \<noteq> [] \<and> hd (sl_queues s q) = c"
    and "\<And>p q. (p, q) \<in> set (sl_pending s) \<Longrightarrow> sl_queues s q \<noteq> [] \<Longrightarrow>
      (p, q) \<in> set (sl_pending s') \<and> sl_queues s' q \<noteq> []"
  shows "is_top s c"
proof -
  from assms(1) obtain p q where pq: "(p, q) \<in> set (sl_pending s')" "sl_queues s' q \<noteq> []" "hd (sl_queues s' q) = c"
    "\<And>p' q'. (p', q') \<in> set (sl_pending s') \<Longrightarrow> sl_queues s' q' \<noteq> [] \<Longrightarrow> p \<le> p'"
    unfolding is_top_def by blast
  have "p \<le> p'" if "(p', q') \<in> set (sl_pending s)" "sl_queues s q' \<noteq> []" for p' q'
    using assms(3) [OF that] pq(4) by blast
  then show ?thesis using assms(2) [OF pq(1-3)] unfolding is_top_def by blast
qed

lemma get_prioqueue_ok:
  assumes "base_inv X s" "wake_inv s"
  shows "\<exists>q s'. get_prioqueue p s = (Inr q, s') \<and> base_inv X s' \<and> wake_inv s' \<and>
    (p, q) \<in> set (sl_pending s') \<and> same_owners s s' \<and> sl_pending_shared s' = sl_pending_shared s"
proof (cases "sl_pending_by_prio s p")
  case (Some q)
  then have "(p, q) \<in> set (sl_pending s)" using assms(1) unfolding base_inv_def queue_inv_def by blast
  with Some assms show ?thesis by (auto simp: get_prioqueue_def same_owners_def)
next
  case None
  let ?n = "sl_next s"
  define s' where "s' = s\<lparr>sl_queues := (sl_queues s)(?n := []),
             sl_pending := heappush fst (sl_pending s) (p, ?n),
             sl_pending_by_prio := (sl_pending_by_prio s)(p \<mapsto> ?n), sl_next := ?n + 1\<rparr>"
  have q: "queue_inv s" using assms(1) by (simp add: base_inv_def)
  have lt: "q' < ?n" if "(p', q') \<in> set (sl_pending s)" for p' q'
    using q that unfolding queue_inv_def by blast
  have nop: "(p, q') \<notin> set (sl_pending s)" for q'
    using q None unfolding queue_inv_def by (metis option.distinct(1))
  have set: "set (sl_pending s') = insert (p, ?n) (set (sl_pending s))"
  proof -
    have "set_mset (mset (sl_pending s')) = insert (p, ?n) (set (sl_pending s))" by (simp add: s'_def)
    then show ?thesis by simp
  qed
  have que: "sl_queues s' q' = sl_queues s q'" if "(p', q') \<in> set (sl_pending s)" for p' q'
    using lt [OF that] by (simp add: s'_def)
  have que_n: "sl_queues s' ?n = []" by (simp add: s'_def)
  have live: "live s' = live s"
    unfolding live_def set using que que_n by auto
  have top: "is_top s c" if "is_top s' c" for c
    using that by (rule is_top_transfer) (use set que que_n in auto)
  have aw: "all_woken s' c \<longleftrightarrow> all_woken s c" for c by (simp add: all_woken_def s'_def)
  have "queue_inv s'"
  proof -
    have "heap_ok fst (sl_pending s')" using q by (simp add: s'_def heappush_heap queue_inv_def)
    moreover have "distinct (sl_pending s')"
    proof -
      have "mset (sl_pending s') = mset ((p, ?n) # sl_pending s)" by (simp add: s'_def)
      then show ?thesis using q nop unfolding queue_inv_def by (metis distinct.simps(2) mset_eq_imp_distinct_iff)
    qed
    moreover have "sl_pending_by_prio s' p' = Some q' \<longleftrightarrow> (p', q') \<in> set (sl_pending s')" for p' q'
      using q nop unfolding set queue_inv_def by (auto simp: s'_def)
    moreover have "q' < sl_next s' \<and> distinct (sl_queues s' q')" if "(p', q') \<in> set (sl_pending s')" for p' q'
      using that que que_n q lt unfolding set queue_inv_def by (auto simp: s'_def intro: less_SucI)
    moreover have "p1 = p2" if "(p1, q1) \<in> set (sl_pending s')" "(p2, q2) \<in> set (sl_pending s')"
      "q1 = q2 \<or> set (sl_queues s' q1) \<inter> set (sl_queues s' q2) \<noteq> {}" for p1 p2 q1 q2
    proof -
      have old: "p1 = p2" if "(p1, q1) \<in> set (sl_pending s)" "(p2, q2) \<in> set (sl_pending s)"
        using q that \<open>q1 = q2 \<or> _\<close> unfolding que [OF that(1)] que [OF that(2)] queue_inv_def by blast
      show ?thesis using that old que_n lt unfolding set by auto
    qed
    moreover have "\<exists>q'. (p', q') \<in> set (sl_pending s') \<and> c \<in> set (sl_queues s' q') \<and> pc_shared (sl_conds s' c)"
      if "sl_pending_shared s' p' = Some c" for p' c
    proof -
      from that have "sl_pending_shared s p' = Some c" by (simp add: s'_def)
      then obtain q' where q': "(p', q') \<in> set (sl_pending s)" "c \<in> set (sl_queues s q')" "pc_shared (sl_conds s c)"
        using q unfolding queue_inv_def by blast
      moreover have "sl_conds s' = sl_conds s" by (simp add: s'_def)
      ultimately show ?thesis using set que [OF q'(1)] by auto
    qed
    ultimately show ?thesis unfolding queue_inv_def by blast
  qed
  moreover have "cond_inv s'"
    using assms(1) unfolding base_inv_def cond_inv_def live by (auto simp: s'_def intro: less_SucI)
  moreover have "waiter_inv X s'"
  proof -
    have "waiter_ok s' t w" if w: "waiter_ok s t w" for t w
    proof -
      have "sl_queues s' (w_queue w) = sl_queues s (w_queue w)" using w que unfolding waiter_ok_def by blast
      moreover have "sl_conds s' = sl_conds s" "sl_singles s' = sl_singles s" "sl_next s' = Suc ?n"
        "sl_shr s' = sl_shr s" "sl_exc s' = sl_exc s" by (simp_all add: s'_def)
      ultimately show ?thesis using w set unfolding waiter_ok_def by auto
    qed
    then show ?thesis using assms(1) unfolding base_inv_def waiter_inv_def live by (simp add: s'_def)
  qed
  moreover have "owner_inv s'" using assms(1) by (simp add: base_inv_def owner_inv_def s'_def locked_def)
  moreover have "wake_inv s'" using assms(2) top unfolding wake_inv_def aw by (simp add: s'_def locked_def)
  moreover have "get_prioqueue p s = (Inr ?n, s')" using None by (simp add: get_prioqueue_def s'_def)
  moreover have "(p, ?n) \<in> set (sl_pending s')" using set by simp
  moreover have "same_owners s s'" "sl_pending_shared s' = sl_pending_shared s"
    by (simp_all add: same_owners_def s'_def)
  ultimately show ?thesis unfolding base_inv_def by blast
qed


text \<open>Queueing a new condition, with no waiters so far.\<close>

definition enqueue_cond :: "bool \<Rightarrow> int \<Rightarrow> nat \<Rightarrow> slock \<Rightarrow> slock" where
  "enqueue_cond shared p q s =
     s\<lparr>sl_conds := (sl_conds s)(sl_next s := \<lparr>pc_waiters = {}, pc_single = sl_next s, pc_shared = shared\<rparr>),
       sl_singles := (sl_singles s)(sl_next s := SingleNotifyPipeCondition),
       sl_next := sl_next s + 1,
       sl_queues := (sl_queues s)(q := sl_queues s q @ [sl_next s]),
       sl_pending_shared := (if shared then (sl_pending_shared s)(p \<mapsto> sl_next s) else sl_pending_shared s)\<rparr>"

lemma enqueue_cond_ok:
  assumes "base_inv {} s" "wake_inv s" "(p, q) \<in> set (sl_pending s)"
  shows "base_inv {sl_next s} (enqueue_cond shared p q s)" "wake_inv (enqueue_cond shared p q s)"
proof -
  let ?n = "sl_next s"
  define s' where "s' = enqueue_cond shared p q s"
  note d = s'_def enqueue_cond_def
  have qi: "queue_inv s" using assms(1) by (simp add: base_inv_def)
  have lt: "c < ?n" "pc_single (sl_conds s c) < ?n" if "c \<in> live s" for c
    using assms(1) that unfolding base_inv_def cond_inv_def by auto
  have pend: "sl_pending s' = sl_pending s" "sl_pending_by_prio s' = sl_pending_by_prio s" by (simp_all add: d)
  have set: "set (sl_queues s' q') = (if q' = q then insert ?n (set (sl_queues s q)) else set (sl_queues s q'))" for q'
    by (simp add: d)
  have lv: "c \<in> live s" if "(p', q') \<in> set (sl_pending s)" "c \<in> set (sl_queues s q')" for p' q' c
    using that unfolding live_iff by blast
  have nin: "?n \<notin> set (sl_queues s q')" if "(p', q') \<in> set (sl_pending s)" for p' q'
    using lt(1) lv [OF that, of ?n] by blast
  have live: "live s' = insert ?n (live s)"
    using assms(3) unfolding live_def pend set by (auto split: if_splits)
  have same: "sl_conds s' c = sl_conds s c" "sl_singles s' c = sl_singles s c" if "c \<noteq> ?n" for c
    using that by (simp_all add: d)
  have new: "sl_conds s' ?n = \<lparr>pc_waiters = {}, pc_single = ?n, pc_shared = shared\<rparr>"
    "sl_singles s' ?n = SingleNotifyPipeCondition" by (simp_all add: d)
  have old: "sl_conds s' c = sl_conds s c" "sl_singles s' (pc_single (sl_conds s c)) = sl_singles s (pc_single (sl_conds s c))"
    if "c \<in> live s" for c
    using same lt [OF that] by auto
  have "queue_inv s'"
  proof -
    have "p1 = p2" if "(p1, q1) \<in> set (sl_pending s)" "(p2, q2) \<in> set (sl_pending s)"
      "q1 = q2 \<or> set (sl_queues s' q1) \<inter> set (sl_queues s' q2) \<noteq> {}" for p1 p2 q1 q2
    proof -
      have "q1 = q2 \<or> set (sl_queues s q1) \<inter> set (sl_queues s q2) \<noteq> {}"
        using that nin [OF that(1)] nin [OF that(2)] unfolding set by (auto split: if_splits)
      then show ?thesis using qi that(1,2) unfolding queue_inv_def by blast
    qed
    moreover have "q' < sl_next s' \<and> distinct (sl_queues s' q')" if "(p', q') \<in> set (sl_pending s)" for p' q'
    proof -
      have "q' < ?n" "distinct (sl_queues s q')" using qi that unfolding queue_inv_def by auto
      then show ?thesis using nin [OF that] by (auto simp: d)
    qed
    moreover have "\<exists>q'. (p', q') \<in> set (sl_pending s) \<and> c \<in> set (sl_queues s' q') \<and> pc_shared (sl_conds s' c)"
      if "sl_pending_shared s' p' = Some c" for p' c
    proof (cases "shared \<and> p' = p")
      case True
      then have "c = ?n" using that by (simp add: d)
      then show ?thesis using assms(3) new True set by (metis insertI1 pipe_cond.select_convs(3))
    next
      case False
      then have "sl_pending_shared s p' = Some c" using that by (auto simp: d split: if_splits)
      then obtain q' where q': "(p', q') \<in> set (sl_pending s)" "c \<in> set (sl_queues s q')" "pc_shared (sl_conds s c)"
        using qi unfolding queue_inv_def by blast
      moreover have "c \<in> set (sl_queues s' q')" using q'(2) set [of q'] by auto
      ultimately show ?thesis using old(1) [OF lv [OF q'(1,2)]] by auto
    qed
    ultimately show ?thesis using qi unfolding queue_inv_def pend by blast
  qed
  moreover have "cond_inv s'"
  proof -
    have "inj_on (\<lambda>c. pc_single (sl_conds s c)) (live s)"
      "\<forall>x. sn_notified (sl_singles s x) \<longrightarrow> \<not> sn_write_fd (sl_singles s x)"
      "\<And>c. c \<in> live s \<Longrightarrow> \<not> sn_notified (sl_singles s (pc_single (sl_conds s c)))"
      using assms(1) unfolding base_inv_def cond_inv_def by auto
    moreover from this(1) have "inj_on (\<lambda>c. pc_single (sl_conds s' c)) (insert ?n (live s))"
      using lt old(1) new(1) unfolding inj_on_def by fastforce
    ultimately show ?thesis
      unfolding cond_inv_def live using lt old new
      by (auto simp: SingleNotifyPipeCondition_def d intro: less_SucI)
  qed
  moreover have wok: "w_cond w \<in> live s" "w_single w < ?n" if "sl_waiting s t = Some w" for t w
    using assms(1) that unfolding base_inv_def waiter_inv_def waiter_ok_def live_iff by blast+
  have "waiter_inv {?n} s'"
    unfolding waiter_inv_def live
  proof (intro conjI allI impI ballI)
    fix t w assume "sl_waiting s' t = Some w"
    then have w: "sl_waiting s t = Some w" by (simp add: d)
    then have "waiter_ok s t w" using assms(1) unfolding base_inv_def waiter_inv_def by blast
    moreover have "sl_conds s' (w_cond w) = sl_conds s (w_cond w)" "sl_singles s' (w_single w) = sl_singles s (w_single w)"
      using old(1) [OF wok(1) [OF w]] same(2) wok(2) [OF w] by auto
    moreover have "sl_shr s' = sl_shr s" "sl_exc s' = sl_exc s" "sl_next s' = Suc ?n" by (simp_all add: d)
    ultimately show "waiter_ok s' t w" unfolding waiter_ok_def pend set by auto
  next
    fix c t assume "c \<in> insert ?n (live s)" "t \<in> pc_waiters (sl_conds s' c)"
    then have "c \<in> live s" "t \<in> pc_waiters (sl_conds s c)" using new old(1) by auto
    then show "\<exists>w. sl_waiting s' t = Some w \<and> w_cond w = c"
      using assms(1) unfolding base_inv_def waiter_inv_def by (simp add: d)
  next
    fix c assume "c \<in> insert ?n (live s) - {?n}"
    then show "pc_waiters (sl_conds s' c) \<noteq> {}"
      using assms(1) old(1) unfolding base_inv_def waiter_inv_def by auto
  qed
  moreover have "owner_inv s'" using assms(1) by (simp add: base_inv_def owner_inv_def d locked_def)
  ultimately show "base_inv {?n} (enqueue_cond shared p q s)" by (simp add: base_inv_def s'_def)
  have aw: "all_woken s' c" if "c \<noteq> ?n \<longrightarrow> all_woken s c" for c
    unfolding all_woken_def
  proof (intro allI impI)
    fix t w assume "sl_waiting s' t = Some w" "w_cond w = c"
    then have w: "sl_waiting s t = Some w" "w_cond w = c" by (simp_all add: d)
    have "c < ?n" "w_single w < ?n" using wok [OF w(1)] lt(1) w(2) by auto
    then have "c \<noteq> ?n" "w_single w \<noteq> ?n" by auto
    then show "sn_notified (sl_singles s' (w_single w))"
      using that same(2) w unfolding all_woken_def by simp
  qed
  have "is_top s c" if "is_top s' c" "c \<noteq> ?n" for c
    using that(1)
  proof (rule is_top_transfer)
    show "(p', q') \<in> set (sl_pending s) \<and> sl_queues s q' \<noteq> [] \<and> hd (sl_queues s q') = c"
      if "(p', q') \<in> set (sl_pending s')" "sl_queues s' q' \<noteq> []" "hd (sl_queues s' q') = c" for p' q'
      using that \<open>c \<noteq> ?n\<close> by (cases "sl_queues s q'") (auto simp: d split: if_splits)
  qed (auto simp: d)
  then show "wake_inv (enqueue_cond shared p q s)"
    using assms(2) aw unfolding s'_def [symmetric] wake_inv_def by (auto simp: locked_def d)
qed


lemma get_wait_condition_ok:
  assumes "lock_inv s"
  shows "\<exists>c q s'. get_wait_condition shared p s = (Inr (c, q), s') \<and> base_inv {c} s' \<and> wake_inv s' \<and>
    (p, q) \<in> set (sl_pending s') \<and> c \<in> set (sl_queues s' q) \<and> pc_shared (sl_conds s' c) = shared \<and>
    same_owners s s'"
proof (cases "if shared then sl_pending_shared s p else None")
  case (Some c)
  then have sh: "shared" "sl_pending_shared s p = Some c" by (auto split: if_splits)
  have qi: "queue_inv s" using assms by (simp add: lock_inv_def base_inv_def)
  with sh obtain q where "(p, q) \<in> set (sl_pending s)" unfolding queue_inv_def by blast
  note q = this shared_in_queue [OF qi this sh(2)]
  have "get_wait_condition shared p s = (Inr (c, q), s)"
    using sh q by (simp add: get_wait_condition_def)
  moreover have "base_inv {c} s"
    using assms by (auto simp: lock_inv_def base_inv_def waiter_inv_def)
  ultimately show ?thesis
    using assms q sh by (auto simp: lock_inv_def same_owners_def)
next
  case None
  have inv: "base_inv {} s" "wake_inv s" using assms by (auto simp: lock_inv_def)
  from get_prioqueue_ok [OF inv, of p] obtain q s1 where s1: "get_prioqueue p s = (Inr q, s1)"
    "base_inv {} s1" "wake_inv s1" "(p, q) \<in> set (sl_pending s1)" "same_owners s s1"
    "sl_pending_shared s1 = sl_pending_shared s" by blast
  define s2 where "s2 = enqueue_cond shared p q s1"
  note e = enqueue_cond_ok [OF s1(2-4), of shared, folded s2_def]
  have "get_wait_condition shared p s = (Inr (sl_next s1, q), s2)"
    using None s1(1) unfolding get_wait_condition_def
    by (auto simp: st_bind_def new_cond_def st_do_def st_return_def s2_def enqueue_cond_def)
  moreover have "(p, q) \<in> set (sl_pending s2)" "sl_next s1 \<in> set (sl_queues s2 q)"
    "pc_shared (sl_conds s2 (sl_next s1)) = shared" "same_owners s s2"
    using s1(4,5) by (simp_all add: s2_def enqueue_cond_def same_owners_def)
  ultimately show ?thesis using e by blast
qed

lemma base_inv_weaken: "base_inv {} s \<Longrightarrow> base_inv X s"
  by (auto simp: base_inv_def waiter_inv_def)

lemma acquire_post_frame:
  "same_owners s s1 \<Longrightarrow> acquire_post t shared timeout s1 r s' \<Longrightarrow> acquire_post t shared timeout s r s'"
  by (auto simp: same_owners_def acquire_post_def owners_after_def can_acquire_def
      split: acquire_result.splits bool.splits)

lemma acquire_unlocked_ok:
  assumes "lock_inv s" "\<not> sl_deleted s" "\<not> is_owned t (-1) s" "sl_waiting s t = None"
    and "from_delete \<longrightarrow> \<not> shared"
  shows "\<exists>r s'. acquire_unlocked t from_delete shared timeout p now s = (Inr r, s') \<and>
    acquire_post t shared timeout s r s'"
proof -
  have inv: "base_inv {} s" "wake_inv s" using assms(1) by (auto simp: lock_inv_def)
  have own: "t \<notin> sl_shr s" "sl_exc s \<noteq> Some t"
    using assms(3) by (auto simp: is_owned_def is_sharer_def is_exclusive_def)
  from inv(1) obtain f s1 where s1: "find_first_pending_queue s = (Inr f, s1)" "trimmed s s1" "base_inv {} s1"
    by (rule find_first_cases) blast+
  have so: "same_owners s s1" using s1(2) by (simp add: trimmed_def same_owners_def)
  have l1: "lock_inv s1" using s1(3) trimmed_wake [OF s1(2)] inv(2) by (simp add: lock_inv_def)
  have f1: "\<not> sl_deleted s1" "sl_waiting s1 t = None" "t \<notin> sl_shr s1" "sl_exc s1 \<noteq> Some t"
    using so assms own by (auto simp: same_owners_def)
  let ?rest = "if sl_pending s1 = [] \<and> can_acquire shared s1
       then (Inr (Returned True), do_acquire t shared s1)
       else if timeout \<noteq> None \<and> the timeout < LOCK_ACQUIRE_MIN_TIMEOUT
       then (Inr (Returned False), s1)
       else st_bind (get_wait_condition shared p) (\<lambda>(c, q).
              acquire_loop t
                \<lparr>w_cond = c, w_single = 0, w_queue = q, w_shared = shared, w_timeout = timeout,
                 w_prio = p, w_start = now, w_delete = from_delete\<rparr> now) s1"
  have run: "acquire_unlocked t from_delete shared timeout p now s = ?rest"
    using s1(1) assms(2,3)
    by (simp add: acquire_unlocked_def st_bind_def check_deleted_def st_assert_def)
  have "\<exists>r s'. ?rest = (Inr r, s') \<and> acquire_post t shared timeout s1 r s'"
  proof (cases "sl_pending s1 = [] \<and> can_acquire shared s1")
    case True
    note a = do_acquire_ok [OF s1(3) _ f1(1,2), of shared]
    have "sl_deleted (do_acquire t shared s1) = sl_deleted s1" "sl_waiting (do_acquire t shared s1) = sl_waiting s1"
      by (simp_all add: do_acquire_def)
    with True a f1 show ?thesis by (auto simp: acquire_post_def lock_inv_def)
  next
    case nd: False
    show ?thesis
    proof (cases "timeout \<noteq> None \<and> the timeout < LOCK_ACQUIRE_MIN_TIMEOUT")
      case True
      with nd l1 f1 show ?thesis by (auto simp: acquire_post_def)
    next
      case False
      from get_wait_condition_ok [OF l1, of shared p] obtain c q s2 where s2:
        "get_wait_condition shared p s1 = (Inr (c, q), s2)" "base_inv {c} s2" "wake_inv s2"
        "(p, q) \<in> set (sl_pending s2)" "c \<in> set (sl_queues s2 q)" "pc_shared (sl_conds s2 c) = shared"
        "same_owners s1 s2" by blast
      define w where "w = \<lparr>w_cond = c, w_single = 0, w_queue = q, w_shared = shared, w_timeout = timeout,
                 w_prio = p, w_start = now, w_delete = from_delete\<rparr>"
      have "placed s2 t w" "\<not> sl_deleted s2"
        using s2 f1 assms(5) by (auto simp: placed_def w_def same_owners_def)
      then obtain r s' where r: "acquire_loop t w now s2 = (Inr r, s')" "acquire_post t shared timeout s2 r s'"
        using acquire_loop_ok [of w s2 t now] s2(2,3) by (auto simp: w_def)
      have "?rest = (Inr r, s')"
        using nd False s2(1) r(1) unfolding w_def by (auto simp: st_bind_def)
      then show ?thesis using acquire_post_frame [OF s2(7) r(2)] by blast
    qed
  qed
  then show ?thesis using run acquire_post_frame [OF so] by metis
qed

lemma acquire_resume_ok:
  assumes "lock_inv s" "sl_waiting s t = Some w" "\<not> sl_deleted s"
  shows "\<exists>r s'. acquire_resume t w now s = (Inr r, s') \<and> acquire_post t (w_shared w) (w_timeout w) s r s' \<and>
    (r = Returned True \<longleftrightarrow> is_top s (w_cond w) \<and> can_acquire (w_shared w) s)"
proof -
  from cond_wait_leave_ok [OF assms(1,2)] obtain s1 where s1: "cond_wait_leave t w s = (Inr (), s1)"
    "base_inv {w_cond w} s1" "placed s1 t w" "wake_inv s1" "sl_shr s1 = sl_shr s" "sl_exc s1 = sl_exc s"
    "sl_deleted s1 = sl_deleted s" "sl_waiting s1 = (sl_waiting s)(t := None)" "\<forall>c. is_top s1 c = is_top s c" by blast
  from acquire_loop_ok [OF s1(2-4), of now] s1(7) assms(3) obtain r s' where r:
    "acquire_loop t w now s1 = (Inr r, s')" "acquire_post t (w_shared w) (w_timeout w) s1 r s'"
    "r = Returned True \<longleftrightarrow> is_top s1 (w_cond w) \<and> can_acquire (w_shared w) s1" by blast
  have "acquire_resume t w now s = (Inr r, s')"
    using s1(1,7) assms(3) r(1) by (simp add: acquire_resume_def st_bind_def check_deleted_def)
  moreover have "acquire_post t (w_shared w) (w_timeout w) s r s'"
    using r(2) s1(5,6,8)
    by (auto simp: acquire_post_def owners_after_def can_acquire_def split: acquire_result.splits bool.splits)
  moreover have "r = Returned True \<longleftrightarrow> is_top s (w_cond w) \<and> can_acquire (w_shared w) s"
    using r(3) s1(5,6,9) by (simp add: can_acquire_def)
  ultimately show ?thesis by blast
qed

lemma acquire_resume_deleted:
  assumes "lock_inv s" "sl_waiting s t = Some w" "sl_deleted s"
  shows "\<exists>s'. acquire_resume t w now s = (Inl (LockError (''Deleted lock '' @ sl_name s)), s') \<and> lock_inv s' \<and>
    sl_deleted s' \<and> sl_waiting s' = (sl_waiting s)(t := None)"
proof -
  from cond_wait_leave_ok [OF assms(1,2)] obtain s1 where s1: "cond_wait_leave t w s = (Inr (), s1)"
    "base_inv {w_cond w} s1" "placed s1 t w" "wake_inv s1" "sl_deleted s1 = sl_deleted s" "sl_name s1 = sl_name s"
    "sl_waiting s1 = (sl_waiting s)(t := None)" by blast
  from acquire_cleanup_ok [OF s1(2,4)] s1(3,5) assms(3) obtain s2 where s2: "acquire_cleanup w s1 = (Inr (), s2)"
    "lock_inv s2" "sl_deleted s2 = sl_deleted s1" "sl_waiting s2 = sl_waiting s1"
    by (auto simp: placed_def)
  have "acquire_resume t w now s = (Inl (LockError (''Deleted lock '' @ sl_name s)), s2)"
    using s1(1,5,6) assms(3) s2(1)
    by (simp add: acquire_resume_def st_bind_def check_deleted_def st_finally_def st_raise_def)
  then show ?thesis using s1 s2 assms(3) by auto
qed

text \<open>The end of a deletion: a lock that was acquired is marked and everybody is woken.\<close>

lemma delete_finish_ok:
  assumes "acquire_post t False timeout s r s1"
  shows "\<exists>s'. delete_finish t r s1 = (Inr r, s') \<and> lock_inv s' \<and> sl_waiting s' = sl_waiting s1 \<and>
    (if r = Returned True then sl_deleted s' else s' = s1)"
proof (cases "r = Returned True")
  case True
  with assms have "base_inv {} s1" "sl_exc s1 = Some t"
    by (auto simp: acquire_post_def owners_after_def lock_inv_def)
  from delete_mark_ok [OF this] True show ?thesis
    by (auto simp: delete_finish_def st_bind_def st_return_def)
next
  case False
  with assms show ?thesis by (auto simp: delete_finish_def st_return_def acquire_post_def)
qed

lemma lock_resume_ok:
  assumes "lock_inv s" "sl_waiting s t = Some w" "\<not> sl_deleted s"
  shows "\<exists>r s'. lock_resume t w now s = (Inr r, s') \<and> lock_inv s' \<and>
    (r = Returned True \<longleftrightarrow> is_top s (w_cond w) \<and> can_acquire (w_shared w) s) \<and>
    (r = Returned False \<longrightarrow> w_timeout w \<noteq> None)"
proof -
  from acquire_resume_ok [OF assms, of now] obtain r s1 where r: "acquire_resume t w now s = (Inr r, s1)"
    "acquire_post t (w_shared w) (w_timeout w) s r s1"
    "r = Returned True \<longleftrightarrow> is_top s (w_cond w) \<and> can_acquire (w_shared w) s" by blast
  have to: "r = Returned False \<longrightarrow> w_timeout w \<noteq> None" using r(2) by (auto simp: acquire_post_def)
  show ?thesis
  proof (cases "w_delete w")
    case True
    have "\<not> w_shared w"
      using assms(1,2) True unfolding lock_inv_def base_inv_def waiter_inv_def waiter_ok_def by blast
    then have "acquire_post t False (w_timeout w) s r s1" using r(2) by simp
    from delete_finish_ok [OF this] True r to show ?thesis
      by (auto simp: lock_resume_def st_bind_def)
  next
    case False
    with r to show ?thesis by (auto simp: lock_resume_def st_bind_def st_return_def acquire_post_def)
  qed
qed

lemma lock_resume_deleted:
  assumes "lock_inv s" "sl_waiting s t = Some w" "sl_deleted s"
  shows "\<exists>s'. lock_resume t w now s = (Inl (LockError (''Deleted lock '' @ sl_name s)), s') \<and> lock_inv s' \<and>
    sl_deleted s' \<and> sl_waiting s' = (sl_waiting s)(t := None)"
  using acquire_resume_deleted [OF assms, of now] by (elim exE) (simp add: lock_resume_def st_bind_def)

lemma acquire_unlocked_errors:
  "sl_deleted s \<Longrightarrow> acquire_unlocked t d sh timeout p now s = (Inl (LockError (''Deleted lock '' @ sl_name s)), s)"
  "\<not> sl_deleted s \<Longrightarrow> is_owned t (-1) s \<Longrightarrow> acquire_unlocked t d sh timeout p now s = (Inl AssertionError, s)"
  by (simp_all add: acquire_unlocked_def st_bind_def check_deleted_def st_assert_def)

lemma acquire_inv:
  assumes "lock_inv s" "sl_waiting s t = None"
  shows "lock_inv (snd (acquire t shared timeout priority now s))"
proof (cases "sl_deleted s \<or> is_owned t (-1) s")
  case True
  then show ?thesis using assms(1) by (cases "sl_deleted s") (simp_all add: acquire_def acquire_unlocked_errors)
next
  case False
  then show ?thesis
    using acquire_unlocked_ok [OF assms(1) _ _ assms(2), of False shared timeout "case priority of None \<Rightarrow> 0 | Some p \<Rightarrow> p" now]
    by (auto simp: acquire_def acquire_post_def)
qed

lemma delete_lock_ok:
  assumes "lock_inv s" "sl_waiting s t = None" "\<not> sl_deleted s" "\<not> is_sharer t s"
  shows "\<exists>r s'. delete_lock t timeout priority now s = (Inr r, s') \<and> lock_inv s' \<and>
    (r = Returned True \<longrightarrow> sl_deleted s') \<and> (r = Returned False \<longrightarrow> timeout \<noteq> None)"
proof -
  let ?p = "case priority of None \<Rightarrow> 0 | Some p \<Rightarrow> p"
  show ?thesis
  proof (cases "is_exclusive t s")
    case True
    then have "base_inv {} s" "sl_exc s = Some t" using assms(1) by (auto simp: lock_inv_def is_exclusive_def)
    from delete_mark_ok [OF this] True assms(3,4) show ?thesis
      by (auto simp: delete_lock_def delete_finish_def st_bind_def st_assert_def check_deleted_def st_return_def)
  next
    case False
    then have "\<not> is_owned t (-1) s" using assms(4) by (simp add: is_owned_def)
    from acquire_unlocked_ok [OF assms(1,3) this assms(2), of True False timeout ?p now] obtain r s1 where r:
      "acquire_unlocked t True False timeout ?p now s = (Inr r, s1)" "acquire_post t False timeout s r s1" by auto
    from delete_finish_ok [OF r(2)] obtain s' where s': "delete_finish t r s1 = (Inr r, s')" "lock_inv s'"
      "if r = Returned True then sl_deleted s' else s' = s1" by blast
    moreover have "r = Returned False \<longrightarrow> timeout \<noteq> None" using r(2) by (auto simp: acquire_post_def)
    ultimately show ?thesis
      using r(1) False assms(3,4)
      by (auto simp: delete_lock_def st_bind_def st_assert_def check_deleted_def split: if_splits)
  qed
qed

lemma delete_lock_errors:
  "is_sharer t s \<Longrightarrow> delete_lock t timeout priority now s = (Inl AssertionError, s)"
  "\<not> is_sharer t s \<Longrightarrow> sl_deleted s \<Longrightarrow>
   delete_lock t timeout priority now s = (Inl (LockError (''Deleted lock '' @ sl_name s)), s)"
  by (simp_all add: delete_lock_def st_bind_def st_assert_def check_deleted_def)

section \<open>All interleavings\<close>

text \<open>
  A thread that does not wait may call any method; a waiting thread may only go on when its
  pipe has hung up or its timeout may have passed.
\<close>

inductive lock_step :: "slock \<Rightarrow> slock \<Rightarrow> bool" where
  acquire_call: "sl_waiting s t = None \<Longrightarrow> lock_step s (snd (acquire t shared timeout priority now s))"
| delete_call: "sl_waiting s t = None \<Longrightarrow> lock_step s (snd (delete_lock t timeout priority now s))"
| release_call: "sl_waiting s t = None \<Longrightarrow> lock_step s (snd (release t s))"
| downgrade_call: "sl_waiting s t = None \<Longrightarrow> lock_step s (snd (downgrade t s))"
| notify_call: "lock_step s (snd (notify_topmost s))"
| wake_up: "sl_waiting s t = Some w \<Longrightarrow> woken s w \<or> w_timeout w \<noteq> None \<Longrightarrow>
    lock_step s (snd (lock_resume t w now s))"

lemma lock_step_inv:
  assumes "lock_inv s" "lock_step s s'"
  shows "lock_inv s'"
  using assms(2)
proof cases
  case (acquire_call t shared timeout priority now)
  then show ?thesis using acquire_inv [OF assms(1)] by simp
next
  case (delete_call t timeout priority now)
  have "\<exists>r s1. delete_lock t timeout priority now s = (r, s1) \<and> lock_inv s1"
    using delete_lock_ok [OF assms(1) delete_call(2), of timeout priority now]
      delete_lock_errors [of t s timeout priority now] assms(1) by blast
  with delete_call(1) show ?thesis by (elim exE) simp
next
  case (release_call t)
  then show ?thesis
  proof (cases "is_owned t (-1) s")
    case True
    from release_ok [OF assms(1) this] obtain s1 where "release t s = (Inr (), s1)" "lock_inv s1" by blast
    with release_call show ?thesis by simp
  next
    case False
    with release_call assms(1) show ?thesis by (simp add: release_not_owner)
  qed
next
  case (downgrade_call t)
  then show ?thesis
  proof (cases "is_owned t (-1) s")
    case True
    from downgrade_ok [OF assms(1) this] obtain s1 where "downgrade t s = (Inr True, s1)" "lock_inv s1" by blast
    with downgrade_call show ?thesis by simp
  next
    case False
    with downgrade_call assms(1) show ?thesis by (simp add: downgrade_not_owner)
  qed
next
  case notify_call
  from notify_topmost_ok [of s] assms(1) obtain s1 where "notify_topmost s = (Inr (), s1)" "lock_inv s1"
    unfolding lock_inv_def wake_inv_def by blast
  with notify_call show ?thesis by simp
next
  case (wake_up t w now)
  have "\<exists>r s1. lock_resume t w now s = (r, s1) \<and> lock_inv s1"
    using lock_resume_ok [OF assms(1) wake_up(2), of now] lock_resume_deleted [OF assms(1) wake_up(2), of now] by blast
  with wake_up(1) show ?thesis by (elim exE) simp
qed

definition lock_start :: "slock \<Rightarrow> bool" where
  "lock_start s \<longleftrightarrow> s = SharedLock (sl_name s)"

interpretation lock_life: inductive_invariant lock_start lock_step lock_inv
proof
  show "lock_inv s" if "lock_start s" for s
    using that SharedLock_inv [of "sl_name s"] by (simp add: lock_start_def)
  show "lock_inv s'" if "lock_inv s" "lock_step s s'" for s s'
    using that by (rule lock_step_inv)
qed

lemma lock_reachable_inv: "lock_step\<^sup>*\<^sup>* (SharedLock name) s \<Longrightarrow> lock_inv s"
  by (rule lock_life.inv_reachable) (auto simp: lock_start_def SharedLock_def)


lemma top_exists:
  assumes "lock_inv s" "sl_waiting s t = Some w"
  shows "\<exists>c. is_top s c"
proof -
  have b: "base_inv {} s" using assms(1) by (simp add: lock_inv_def)
  have "w_cond w \<in> live s"
    using b assms(2) unfolding base_inv_def waiter_inv_def waiter_ok_def live_iff by blast
  with b show ?thesis
  proof (cases rule: find_first_cases)
    case (Empty s')
    then show ?thesis using trimmed_live [OF Empty(2)] \<open>w_cond w \<in> live s\<close> by (simp add: live_def)
  next
    case (First p q s')
    then show ?thesis using trimmed_top [OF First(2)] by blast
  qed
qed

lemma notified_woken: "lock_inv s \<Longrightarrow> sn_notified (sl_singles s (w_single w)) \<Longrightarrow> woken s w"
  unfolding lock_inv_def base_inv_def cond_inv_def woken_def by blast

lemma top_least_prio:
  assumes "lock_inv s" "sl_waiting s t = Some w" "is_top s (w_cond w)" "sl_waiting s u = Some v"
  shows "w_prio w \<le> w_prio v"
proof -
  have b: "queue_inv s" "waiter_ok s t w" "waiter_ok s u v"
    using assms unfolding lock_inv_def base_inv_def waiter_inv_def by blast+
  from assms(3) obtain p q where pq: "(p, q) \<in> set (sl_pending s)" "sl_queues s q \<noteq> []" "hd (sl_queues s q) = w_cond w"
    "\<And>p' q'. (p', q') \<in> set (sl_pending s) \<Longrightarrow> sl_queues s q' \<noteq> [] \<Longrightarrow> p \<le> p'"
    unfolding is_top_def by blast
  have "w_cond w \<in> set (sl_queues s q)" using pq(2,3) hd_in_set by metis
  then have "p = w_prio w" using b(1,2) pq(1) unfolding queue_inv_def waiter_ok_def by blast
  moreover have "p \<le> w_prio v" using pq(4) b(3) unfolding waiter_ok_def by (metis empty_iff empty_set)
  ultimately show ?thesis by simp
qed

section \<open>Properties\<close>

text \<open>
  A lock in use: thread 1 holds it exclusively while threads 2 (shared) and 3 (exclusive, at
  a more urgent priority) queue up, then releases it.
\<close>

definition demo_held :: slock where
  "demo_held = snd (acquire 1 False None None 0 (SharedLock ''BGL''))"

definition demo_queued :: slock where
  "demo_queued = snd (acquire 2 True None None 0 demo_held)"

definition demo_two :: slock where
  "demo_two = snd (acquire 3 False (Some 5) (Some (-1)) 0 demo_queued)"

definition demo_free :: slock where
  "demo_free = snd (release 1 demo_two)"

definition demo_deleted :: slock where
  "demo_deleted = snd (delete_lock 1 None None 0 demo_queued)"

lemma demo_reachable:
  "lock_step\<^sup>*\<^sup>* (SharedLock ''BGL'') demo_queued"
  "lock_step\<^sup>*\<^sup>* (SharedLock ''BGL'') demo_free"
  "lock_step\<^sup>*\<^sup>* (SharedLock ''BGL'') demo_deleted"
proof -
  have a: "lock_step (SharedLock ''BGL'') demo_held"
    unfolding demo_held_def by (rule acquire_call) code_simp
  have b: "lock_step demo_held demo_queued"
    unfolding demo_queued_def by (rule acquire_call) code_simp
  have c: "lock_step demo_queued demo_two"
    unfolding demo_two_def by (rule acquire_call) code_simp
  have d: "lock_step demo_two demo_free"
    unfolding demo_free_def by (rule release_call) code_simp
  have e: "lock_step demo_queued demo_deleted"
    unfolding demo_deleted_def by (rule delete_call) code_simp
  show q: "lock_step\<^sup>*\<^sup>* (SharedLock ''BGL'') demo_queued"
    using a b by (meson rtranclp.rtrancl_refl rtranclp.rtrancl_into_rtrancl)
  show "lock_step\<^sup>*\<^sup>* (SharedLock ''BGL'') demo_free"
    using q c d by (meson rtranclp.rtrancl_into_rtrancl)
  show "lock_step\<^sup>*\<^sup>* (SharedLock ''BGL'') demo_deleted"
    using q e by (meson rtranclp.rtrancl_into_rtrancl)
qed

text \<open>C21: in every state the lock can reach by any interleaving of acquires, releases,
  downgrades, deletions, notifications, wake-ups and timeouts of any threads, an exclusive
  owner excludes all sharers, a deleted lock has no owner, and a thread that waits for the
  lock does not own it.\<close>

theorem lock_mutual_exclusion:
  assumes "lock_step\<^sup>*\<^sup>* (SharedLock name) s"
  shows "(sl_exc s \<noteq> None \<longrightarrow> sl_shr s = {}) \<and> (sl_deleted s \<longrightarrow> \<not> locked s) \<and>
    (\<forall>t. sl_waiting s t \<noteq> None \<longrightarrow> \<not> is_owned t (-1) s)"
proof -
  have inv: "owner_inv s" "waiter_inv {} s"
    using lock_reachable_inv [OF assms] by (auto simp: lock_inv_def base_inv_def)
  have "\<not> is_owned t (-1) s" if "sl_waiting s t \<noteq> None" for t
    using that inv(2) by (auto simp: waiter_inv_def waiter_ok_def is_owned_def is_sharer_def is_exclusive_def)
  then show ?thesis using inv(1) by (simp add: owner_inv_def)
qed

theorem lock_mutual_exclusion_witness:
  "lock_step\<^sup>*\<^sup>* (SharedLock ''BGL'') demo_queued \<and> sl_exc demo_queued = Some 1 \<and> sl_shr demo_queued = {} \<and>
   \<not> is_owned 2 (-1) demo_queued"
proof -
  have "sl_exc demo_queued = Some 1" "sl_waiting demo_queued 2 \<noteq> None" by code_simp+
  then show ?thesis using lock_mutual_exclusion [OF demo_reachable(1)] demo_reachable(1) by auto
qed

text \<open>C22: no wake-up is lost: in every reachable state in which nobody owns the lock and
  somebody waits for it, one of the waiting threads has been woken, and when it goes on it
  gets the lock.\<close>

theorem lock_no_lost_wakeup:
  assumes "lock_step\<^sup>*\<^sup>* (SharedLock name) s" "\<not> locked s" "\<not> sl_deleted s" "sl_waiting s u \<noteq> None"
  shows "\<exists>t w. sl_waiting s t = Some w \<and> woken s w \<and> fst (lock_resume t w now s) = Inr (Returned True)"
proof -
  note inv = lock_reachable_inv [OF assms(1)]
  from assms(4) top_exists [OF inv] obtain c where c: "is_top s c" by blast
  then obtain t where "t \<in> pc_waiters (sl_conds s c)"
    using inv top_live [OF c] unfolding lock_inv_def base_inv_def waiter_inv_def by blast
  then obtain w where w: "sl_waiting s t = Some w" "w_cond w = c"
    using inv top_live [OF c] unfolding lock_inv_def base_inv_def waiter_inv_def by blast
  then have "sn_notified (sl_singles s (w_single w))"
    using inv assms(2) c unfolding lock_inv_def wake_inv_def all_woken_def by blast
  then have "woken s w" by (rule notified_woken [OF inv])
  moreover have "fst (lock_resume t w now s) = Inr (Returned True)"
    using lock_resume_ok [OF inv w(1) assms(3), of now] c w(2) not_locked_can_acquire [OF assms(2), of "w_shared w"]
    by (elim exE conjE) simp
  ultimately show ?thesis using w(1) by blast
qed

theorem lock_no_lost_wakeup_witness:
  "\<exists>t w. sl_waiting demo_free t = Some w \<and> woken demo_free w \<and>
     fst (lock_resume t w 1 demo_free) = Inr (Returned True)"
proof -
  have "\<not> locked demo_free" "\<not> sl_deleted demo_free" "sl_waiting demo_free 2 \<noteq> None" by code_simp+
  then show ?thesis by (rule lock_no_lost_wakeup [OF demo_reachable(2)])
qed


text \<open>What a call of \<^verbatim>\<open>acquire\<close> does in any reachable state: it raises \<^verbatim>\<open>LockError\<close> on a
  deleted lock and \<^verbatim>\<open>AssertionError\<close> on a lock that the thread owns; in every other case it
  raises nothing, and either takes the lock in the requested mode (only if no owner forbids
  it), or fails with the owners unchanged, which a blocking acquire never does, or leaves
  the thread waiting.\<close>

theorem lock_acquire_outcome:
  assumes "lock_step\<^sup>*\<^sup>* (SharedLock name) s" "sl_waiting s t = None"
  shows "case acquire t shared timeout priority now s of
      (Inl e, s') \<Rightarrow> s' = s \<and> (if sl_deleted s then e = LockError (''Deleted lock '' @ sl_name s)
                             else e = AssertionError \<and> is_owned t (-1) s)
    | (Inr r, s') \<Rightarrow> \<not> sl_deleted s \<and> \<not> is_owned t (-1) s \<and>
        (r = Returned True \<longrightarrow> can_acquire shared s \<and> is_owned t (if shared then 1 else 0) s') \<and>
        (r = Returned False \<longrightarrow> timeout \<noteq> None) \<and>
        (r \<noteq> Returned True \<longrightarrow> sl_shr s' = sl_shr s \<and> sl_exc s' = sl_exc s) \<and>
        (r = Waits \<longleftrightarrow> sl_waiting s' t \<noteq> None)"
proof (cases "sl_deleted s \<or> is_owned t (-1) s")
  case True
  then show ?thesis by (cases "sl_deleted s") (simp_all add: acquire_def acquire_unlocked_errors)
next
  case False
  with acquire_unlocked_ok [OF lock_reachable_inv [OF assms(1)] _ _ assms(2), of False shared timeout
      "case priority of None \<Rightarrow> 0 | Some p \<Rightarrow> p" now]
  obtain r s' where r: "acquire t shared timeout priority now s = (Inr r, s')" "acquire_post t shared timeout s r s'"
    by (auto simp: acquire_def)
  have "case r of
      Returned True \<Rightarrow> owners_after t shared s s' \<and> can_acquire shared s \<and> sl_waiting s' t = None
    | Returned False \<Rightarrow> timeout \<noteq> None \<and> sl_shr s' = sl_shr s \<and> sl_exc s' = sl_exc s \<and> sl_waiting s' t = None
    | Waits \<Rightarrow> sl_shr s' = sl_shr s \<and> sl_exc s' = sl_exc s \<and> sl_waiting s' t \<noteq> None"
    using r(2) unfolding acquire_post_def by blast
  with False r(1) show ?thesis
    by (auto simp: owners_after_def is_owned_def is_sharer_def is_exclusive_def
        split: acquire_result.splits bool.splits if_splits)
qed

theorem lock_acquire_outcome_witness:
  "lock_step\<^sup>*\<^sup>* (SharedLock ''BGL'') demo_queued \<and> sl_waiting demo_queued 4 = None \<and>
   (case acquire 4 True (Some 0) None 0 demo_queued of
      (Inl e, s') \<Rightarrow> False | (Inr r, s') \<Rightarrow> r = Returned False \<and> sl_exc s' = Some 1 \<and> sl_waiting s' 4 = None)"
proof -
  have a: "sl_waiting demo_queued 4 = None" by code_simp
  have "case acquire 4 True (Some 0) None 0 demo_queued of (Inl e, s') \<Rightarrow> False | (Inr r, s') \<Rightarrow> r = Returned False"
    "sl_exc demo_queued = Some 1" by code_simp+
  with lock_acquire_outcome [OF demo_reachable(1) a, of True "Some 0" None 0] a demo_reachable(1)
  show ?thesis by (auto split: prod.splits sum.splits)
qed

text \<open>C26: a waiting thread gets the lock in the order of priorities: when a wake-up ends in an
  acquired lock, no waiting thread has a more urgent (smaller) priority.\<close>

theorem lock_grant_order:
  assumes "lock_step\<^sup>*\<^sup>* (SharedLock name) s" "sl_waiting s t = Some w"
    and "fst (lock_resume t w now s) = Inr (Returned True)" "sl_waiting s u = Some v"
  shows "w_prio w \<le> w_prio v \<and> can_acquire (w_shared w) s"
proof -
  note inv = lock_reachable_inv [OF assms(1)]
  have nd: "\<not> sl_deleted s"
  proof
    assume "sl_deleted s"
    from lock_resume_deleted [OF inv assms(2) this, of now] assms(3) show False by auto
  qed
  have "is_top s (w_cond w) \<and> can_acquire (w_shared w) s"
    using lock_resume_ok [OF inv assms(2) nd, of now] assms(3) by (elim exE conjE) simp
  then show ?thesis using top_least_prio [OF inv assms(2) _ assms(4)] by blast
qed

theorem lock_grant_order_witness:
  "\<exists>w v. sl_waiting demo_free 3 = Some w \<and> sl_waiting demo_free 2 = Some v \<and>
     fst (lock_resume 3 w 1 demo_free) = Inr (Returned True) \<and> w_prio w \<le> w_prio v"
proof -
  have "sl_waiting demo_free 3 \<noteq> None" "sl_waiting demo_free 2 \<noteq> None"
    "fst (lock_resume 3 (the (sl_waiting demo_free 3)) 1 demo_free) = Inr (Returned True)" by code_simp+
  then show ?thesis using lock_grant_order [OF demo_reachable(2)] by (metis option.collapse)
qed

text \<open>C27: once the lock is deleted, every thread that still waits has been woken, its acquire
  raises \<^verbatim>\<open>LockError\<close> when it goes on, and it is no longer queued afterwards; new acquires
  raise it too.\<close>

theorem lock_deleted_fails_all:
  assumes "lock_step\<^sup>*\<^sup>* (SharedLock name) s" "sl_deleted s"
  shows "(\<forall>t w. sl_waiting s t = Some w \<longrightarrow> woken s w \<and>
            (\<exists>s'. lock_resume t w now s = (Inl (LockError (''Deleted lock '' @ sl_name s)), s') \<and>
               sl_deleted s' \<and> sl_waiting s' = (sl_waiting s)(t := None))) \<and>
    acquire u shared timeout priority now s = (Inl (LockError (''Deleted lock '' @ sl_name s)), s)"
proof -
  note inv = lock_reachable_inv [OF assms(1)]
  have "woken s w" if "sl_waiting s t = Some w" for t w
    using that inv assms(2) notified_woken [OF inv] unfolding lock_inv_def wake_inv_def all_woken_def by blast
  then show ?thesis
    using lock_resume_deleted [OF inv _ assms(2), of _ _ now] acquire_unlocked_errors(1) [OF assms(2)]
    by (simp add: acquire_def) blast
qed

theorem lock_deleted_fails_all_witness:
  "\<exists>w. sl_waiting demo_deleted 2 = Some w \<and> woken demo_deleted w \<and>
     fst (acquire 5 True None None 1 demo_deleted) = Inl (LockError ''Deleted lock BGL'')"
proof -
  have "sl_deleted demo_deleted" "sl_waiting demo_deleted 2 \<noteq> None" "sl_name demo_deleted = ''BGL''" by code_simp+
  then show ?thesis using lock_deleted_fails_all [OF demo_reachable(3), of 1 5 True None None] by auto
qed

text \<open>In every reachable state \<^verbatim>\<open>GetLockInfo\<close> raises nothing; it says \<open>exclusive\<close>,
  \<open>shared\<close> or \<open>deleted\<close> exactly in those states, and lists as many pending acquires as
  \<^verbatim>\<open>_count_pending\<close> counts.\<close>

theorem lock_info_ok:
  assumes "lock_step\<^sup>*\<^sup>* (SharedLock name) s"
  shows "case GetLockInfo nm True True True s of Inl e \<Rightarrow> False
    | Inr i \<Rightarrow> (li_mode i = Some ''deleted'' \<longleftrightarrow> sl_deleted s) \<and>
        (li_mode i = Some ''exclusive'' \<longleftrightarrow> sl_exc s \<noteq> None) \<and>
        (li_mode i = Some ''shared'' \<longleftrightarrow> sl_shr s \<noteq> {}) \<and>
        (li_owner_names i = None \<longleftrightarrow> \<not> locked s) \<and>
        length (the (li_pending i)) = count_pending s"
proof -
  have inv: "owner_inv s" using lock_reachable_inv [OF assms] by (simp add: lock_inv_def base_inv_def)
  have len: "length (concat (map (\<lambda>(_, q). map f (sl_queues s q)) (sort_key fst (sl_pending s)))) = count_pending s"
    for f :: "nat \<Rightarrow> string \<times> string multiset"
  proof -
    have "mset (map (\<lambda>(_, q). length (sl_queues s q)) (sort_key fst (sl_pending s))) =
      mset (map (\<lambda>(_, q). length (sl_queues s q)) (sl_pending s))" by simp
    then have "sum_list (map (\<lambda>(_, q). length (sl_queues s q)) (sort_key fst (sl_pending s))) = count_pending s"
      unfolding count_pending_def by (metis sum_mset_sum_list)
    then show ?thesis by (simp add: length_concat comp_def case_prod_unfold)
  qed
  show ?thesis
    using inv unfolding GetLockInfo_def Let_def
    by (auto simp: len lock_mode_text_def owner_inv_def locked_def names_of_def split: option.splits)
qed

theorem lock_info_ok_witness:
  "lock_step\<^sup>*\<^sup>* (SharedLock ''BGL'') demo_queued \<and>
   (case GetLockInfo (\<lambda>_. ''t'') True True True demo_queued of Inl e \<Rightarrow> False
    | Inr i \<Rightarrow> li_mode i = Some ''exclusive'' \<and> length (the (li_pending i)) = 1)"
proof -
  have "sl_exc demo_queued \<noteq> None" "count_pending demo_queued = 1" by code_simp+
  then show ?thesis
    using lock_info_ok [OF demo_reachable(1), of "\<lambda>_. ''t''"] demo_reachable(1) by (auto split: sum.splits)
qed

end
