(* ===== verification/Worker_Pool.thy ===== *)
theory Worker_Pool
  imports Main "HOL-Library.Product_Lexorder" Ganeti_Prelude Heapq
begin

text \<open>
  The worker pool of \<^verbatim>\<open>lib/workerpool.py\<close>: the task queue ordered by priority and arrival,
  changing the priority of a queued task, deferring a running one, waiting for an empty
  pool, and starting and terminating the workers.

  A task is a mutable list that the heap \<^verbatim>\<open>_tasks\<close> and the dictionary \<^verbatim>\<open>_taskdata\<close> share, so
  tasks live in a store and both hold references. All methods run under the pool's lock and
  give it up only when they wait; a step of the model is the code between two such points.
  Workers that wait for a task are queued as \<^verbatim>\<open>threading.Condition\<close> queues them, and
  \<^verbatim>\<open>notify\<close> wakes the first. What a task does (\<^verbatim>\<open>RunTask\<close>, which the users of the pool
  implement) is a parameter: it returns, raises \<^verbatim>\<open>DeferTask\<close>, or raises something else.

  The queue hands out the most urgent task first and tasks of one priority in the order in
  which they were added, changing a priority loses no task, and a pool with workers and
  queued tasks always has a worker that is not asleep. Giving a queued task a priority it
  had before can fail, because then two entries of the heap differ only in their arguments.
\<close>

section \<open>Tasks and the pool\<close>

record 'a task =
  tk_prio :: int
  tk_order :: nat
  tk_id :: "int option"
  tk_args :: "'a option"

record 'a pool =
  wp_name :: string
  wp_last_worker_id :: nat
  wp_workers :: "nat list"
  wp_quiescing :: bool
  wp_termworkers :: "nat list"
  wp_counter :: nat
  wp_tasks :: "nat list"
  wp_taskdata :: "int \<rightharpoonup> nat"
  wp_objs :: "nat \<Rightarrow> 'a task"
  wp_next :: nat
  wp_current :: "nat \<rightharpoonup> nat"
  wp_thread_name :: "nat \<Rightarrow> string"
  wp_idle :: "nat list"
  wp_dead :: "nat set"

text \<open>
  Python's comparison of two tasks. The lists are compared by priority and order first. Two
  entries of one order have one task ID; their arguments are equal if both were abandoned,
  and otherwise comparing them raises \<^verbatim>\<open>TypeError\<close>.
\<close>

definition task_key :: "(nat \<Rightarrow> 'a task) \<Rightarrow> nat \<Rightarrow> int \<times> nat" where
  "task_key objs i = (tk_prio (objs i), tk_order (objs i))"

definition task_lt :: "(nat \<Rightarrow> 'a task) \<Rightarrow> nat \<Rightarrow> nat \<Rightarrow> bool option" where
  "task_lt objs i j =
     (if task_key objs i \<noteq> task_key objs j then Some (task_key objs i < task_key objs j)
      else if tk_args (objs i) = None \<and> tk_args (objs j) = None then Some False
      else None)"

definition notify_worker :: "'a pool \<Rightarrow> 'a pool" where
  "notify_worker s = s\<lparr>wp_idle := tl (wp_idle s)\<rparr>"

definition notify_all_workers :: "'a pool \<Rightarrow> 'a pool" where
  "notify_all_workers s = s\<lparr>wp_idle := []\<rparr>"

section \<open>Adding tasks\<close>

text \<open>\<^verbatim>\<open>heapq.heappush(self._tasks, task)\<close> and the notification of a worker.\<close>

definition push_task :: "nat \<Rightarrow> ('a pool, unit) meth" where
  "push_task i s =
     (case heappush_cmp (task_lt (wp_objs s)) (wp_tasks s) i of
        (ok, h) \<Rightarrow>
          if ok then (Inr (), notify_worker (s\<lparr>wp_tasks := h\<rparr>))
          else (Inl TypeError, s\<lparr>wp_tasks := h\<rparr>))"

definition AddTaskUnlocked :: "'a \<Rightarrow> int \<Rightarrow> int option \<Rightarrow> ('a pool, unit) meth" where
  "AddTaskUnlocked args priority task_id s =
     (let i = wp_next s;
          s1 = s\<lparr>wp_objs := (wp_objs s)(i :=
                     \<lparr>tk_prio = priority, tk_order = wp_counter s, tk_id = task_id, tk_args = Some args\<rparr>),
                 wp_next := i + 1, wp_counter := wp_counter s + 1\<rparr>
      in case task_id of
           None \<Rightarrow> push_task i s1
         | Some k \<Rightarrow>
             if wp_taskdata s1 k \<noteq> None then (Inl AssertionError, s1)
             else push_task i (s1\<lparr>wp_taskdata := (wp_taskdata s1)(k \<mapsto> i)\<rparr>))"

text \<open>
  \<^verbatim>\<open>AddTask\<close> and \<^verbatim>\<open>AddManyTasks\<close> from the point at which the pool is not quiescing;
  \<open>None\<close> is a call that has to wait for that.
\<close>

definition AddTask :: "'a \<Rightarrow> int \<Rightarrow> int option \<Rightarrow> 'a pool \<Rightarrow> (unit res \<times> 'a pool) option" where
  "AddTask args priority task_id s =
     (if wp_quiescing s then None else Some (AddTaskUnlocked args priority task_id s))"

fun add_tasks :: "('a \<times> int \<times> int option) list \<Rightarrow> ('a pool, unit) meth" where
  "add_tasks [] = st_return ()"
| "add_tasks ((args, prio, tid) # ts) =
     st_bind (AddTaskUnlocked args prio tid) (\<lambda>_. add_tasks ts)"

definition AddManyTasks ::
  "'a list \<Rightarrow> int + int list \<Rightarrow> int option list option \<Rightarrow> 'a pool \<Rightarrow> (unit res \<times> 'a pool) option" where
  "AddManyTasks tasks priority task_id s =
     (let prios = (case priority of Inl p \<Rightarrow> replicate (length tasks) p | Inr ps \<Rightarrow> ps);
          ids = (case task_id of None \<Rightarrow> replicate (length tasks) None | Some ks \<Rightarrow> ks)
      in if length prios \<noteq> length tasks
         then Some (Inl (ProgrammerError (''Number of priorities ('' @ nat_str (length prios) @
                ('') doesn'' @ [CHR 0x27]) @ ''t match number of tasks ('' @ nat_str (length tasks) @ '')'')), s)
         else if length ids \<noteq> length tasks
         then Some (Inl (ProgrammerError (''Number of task IDs ('' @ nat_str (length ids) @
                ('') doesn'' @ [CHR 0x27]) @ ''t match number of tasks ('' @ nat_str (length tasks) @ '')'')), s)
         else if wp_quiescing s then None
         else Some (add_tasks (zip tasks (zip prios ids)) s))"

definition ChangeTaskPriority :: "int \<Rightarrow> int \<Rightarrow> ('a pool, unit) meth" where
  "ChangeTaskPriority task_id priority s =
     (case wp_taskdata s task_id of
        None \<Rightarrow> (Inl NoSuchTask, s)
      | Some old \<Rightarrow>
          let i = wp_next s;
              newtask = (wp_objs s old)\<lparr>tk_prio := priority\<rparr>
          in push_task i
               (s\<lparr>wp_objs := (wp_objs s)(i := newtask, old := (wp_objs s old)\<lparr>tk_args := None\<rparr>),
                  wp_next := i + 1,
                  wp_taskdata := (wp_taskdata s)(task_id \<mapsto> i)\<rparr>))"

section \<open>Taking tasks\<close>

definition ShouldWorkerTerminateUnlocked :: "nat \<Rightarrow> 'a pool \<Rightarrow> bool" where
  "ShouldWorkerTerminateUnlocked w s \<longleftrightarrow> w \<in> set (wp_termworkers s)"

lemma length_siftdown_cmp [simp]: "length (snd (siftdown_cmp lt h pos)) = length h"
proof (induction lt h pos rule: siftdown_cmp.induct)
  case (1 lt h pos)
  then show ?case by (subst siftdown_cmp.simps) (auto split: option.split)
qed

lemma length_siftup_cmp [simp]: "length (fst (snd (siftup_cmp lt h pos))) = length h"
proof (induction lt h pos rule: siftup_cmp.induct)
  case (1 lt h pos)
  then show ?case by (subst siftup_cmp.simps) (auto split: option.split)
qed

lemma length_heappop_cmp:
  assumes "h \<noteq> []" "heappop_cmp lt h = (x, g)"
  shows "length g < length h"
proof (cases "butlast h = []")
  case True
  with assms show ?thesis by (simp add: heappop_cmp_def Let_def)
next
  case False
  obtain up g0 pos where u: "siftup_cmp lt ((butlast h)[0 := last h]) 0 = (up, g0, pos)" by (metis prod_cases3)
  obtain d g1 where d: "siftdown_cmp lt g0 pos = (d, g1)" by (metis surj_pair)
  have "length g0 = length (butlast h)" "length g1 = length g0"
    using u d length_siftup_cmp [of lt "(butlast h)[0 := last h]" 0] length_siftdown_cmp [of lt g0 pos] by simp_all
  moreover have "g = g0 \<or> g = g1"
    using assms(2) False u d by (auto simp: heappop_cmp_def Let_def split: if_splits)
  moreover have "length (butlast h) < length h" using assms(1) by simp
  ultimately show ?thesis by auto
qed

text \<open>
  \<^verbatim>\<open>_WaitForTaskUnlocked\<close> up to its return or to its wait on \<^verbatim>\<open>_pool_to_worker\<close>, after which
  it starts over.
\<close>

datatype wait_result = Terminate | Task nat | MustWait

function WaitForTaskUnlocked :: "nat \<Rightarrow> ('a pool, wait_result) meth" where
  "WaitForTaskUnlocked w s =
     (if ShouldWorkerTerminateUnlocked w s then (Inr Terminate, s)
      else if wp_tasks s = [] then (Inr MustWait, s\<lparr>wp_idle := wp_idle s @ [w]\<rparr>)
      else case heappop_cmp (task_lt (wp_objs s)) (wp_tasks s) of
             (None, h) \<Rightarrow> (Inl TypeError, s\<lparr>wp_tasks := h\<rparr>)
           | (Some i, h) \<Rightarrow>
               let s1 = s\<lparr>wp_tasks := h\<rparr>
               in if tk_args (wp_objs s1 i) = None then WaitForTaskUnlocked w s1
                  else (case tk_id (wp_objs s1 i) of
                          None \<Rightarrow> (Inr (Task i), s1)
                        | Some k \<Rightarrow>
                            if wp_taskdata s1 k = None then (Inl KeyError, s1)
                            else (Inr (Task i), s1\<lparr>wp_taskdata := (wp_taskdata s1)(k := None)\<rparr>)))"
  by pat_completeness auto
termination
  by (relation "measure (\<lambda>(w, s). length (wp_tasks s))") (auto intro: length_heappop_cmp [OF _ sym])

declare WaitForTaskUnlocked.simps [simp del]

section \<open>Workers\<close>

definition HasRunningTaskUnlocked :: "nat \<Rightarrow> 'a pool \<Rightarrow> bool" where
  "HasRunningTaskUnlocked w s \<longleftrightarrow> wp_current s w \<noteq> None"

definition ShouldTerminate :: "nat \<Rightarrow> 'a pool \<Rightarrow> bool res" where
  "ShouldTerminate w s =
     (if HasRunningTaskUnlocked w s then Inr (ShouldWorkerTerminateUnlocked w s) else Inl AssertionError)"

definition GetCurrentPriority :: "nat \<Rightarrow> 'a pool \<Rightarrow> int res" where
  "GetCurrentPriority w s =
     (case wp_current s w of None \<Rightarrow> Inl AssertionError | Some i \<Rightarrow> Inr (tk_prio (wp_objs s i)))"

definition GetCurrentOrderAndTaskId :: "nat \<Rightarrow> 'a pool \<Rightarrow> (nat \<times> int option) res" where
  "GetCurrentOrderAndTaskId w s =
     (case wp_current s w of
        None \<Rightarrow> Inl AssertionError
      | Some i \<Rightarrow> Inr (tk_order (wp_objs s i), tk_id (wp_objs s i)))"

definition worker_id :: "string \<Rightarrow> nat \<Rightarrow> string" where
  "worker_id name n = name @ nat_str n"

definition SetTaskName :: "nat \<Rightarrow> string option \<Rightarrow> 'a pool \<Rightarrow> 'a pool" where
  "SetTaskName w taskname s =
     s\<lparr>wp_thread_name := (wp_thread_name s)(w :=
         (case taskname of
            None \<Rightarrow> worker_id (wp_name s) w
          | Some t \<Rightarrow> if t = [] then worker_id (wp_name s) w else worker_id (wp_name s) w @ ''/'' @ t))\<rparr>"

text \<open>
  The first part of a round of \<^verbatim>\<open>BaseWorker.run\<close>. An exception ends the thread, as the order
  to terminate does.
\<close>

definition worker_fetch :: "nat \<Rightarrow> ('a pool, wait_result) meth" where
  "worker_fetch w s =
     (if wp_current s w \<noteq> None then (Inl AssertionError, s\<lparr>wp_dead := insert w (wp_dead s)\<rparr>)
      else case WaitForTaskUnlocked w s of
             (Inl e, s1) \<Rightarrow> (Inl e, s1\<lparr>wp_dead := insert w (wp_dead s1)\<rparr>)
           | (Inr Terminate, s1) \<Rightarrow> (Inr Terminate, s1\<lparr>wp_dead := insert w (wp_dead s1)\<rparr>)
           | (Inr (Task i), s1) \<Rightarrow> (Inr (Task i), s1\<lparr>wp_current := (wp_current s1)(w \<mapsto> i)\<rparr>)
           | (Inr MustWait, s1) \<Rightarrow> (Inr MustWait, s1))"

text \<open>The second part, from the end of \<^verbatim>\<open>RunTask\<close>.\<close>

datatype run_outcome = Finished | Deferred "int option" | Raised

definition worker_finish :: "nat \<Rightarrow> run_outcome \<Rightarrow> ('a pool, unit) meth" where
  "worker_finish w out s =
     (case wp_current s w of
        None \<Rightarrow> (Inl AssertionError, s)
      | Some i \<Rightarrow>
          let s1 = SetTaskName w None s;
              task = wp_objs s1 i
          in st_bind
               (\<lambda>s. case out of
                  Deferred p \<Rightarrow>
                    (case tk_args task of
                       None \<Rightarrow> (Inl AssertionError, s\<lparr>wp_dead := insert w (wp_dead s)\<rparr>)
                     | Some args \<Rightarrow>
                         (case AddTaskUnlocked args (case p of None \<Rightarrow> tk_prio task | Some q \<Rightarrow> q) (tk_id task) s of
                            (Inl e, s') \<Rightarrow> (Inl e, s'\<lparr>wp_dead := insert w (wp_dead s')\<rparr>)
                          | (Inr u, s') \<Rightarrow> (Inr u, s')))
                | _ \<Rightarrow> (Inr (), s))
               (\<lambda>_. st_do (\<lambda>s. s\<lparr>wp_current := (wp_current s)(w := None)\<rparr>)) s1)"

section \<open>The pool's life\<close>

definition HasRunningTasksUnlocked :: "'a pool \<Rightarrow> bool" where
  "HasRunningTasksUnlocked s \<longleftrightarrow>
     list_ex (\<lambda>w. HasRunningTaskUnlocked w s) (wp_workers s @ wp_termworkers s)"

definition Quiesce_begin :: "'a pool \<Rightarrow> 'a pool" where
  "Quiesce_begin s = s\<lparr>wp_quiescing := True\<rparr>"

text \<open>The loop of \<^verbatim>\<open>Quiesce\<close>: \<open>None\<close> while it has to wait.\<close>

definition Quiesce_end :: "'a pool \<Rightarrow> 'a pool option" where
  "Quiesce_end s =
     (if wp_tasks s \<noteq> [] \<or> HasRunningTasksUnlocked s then None else Some (s\<lparr>wp_quiescing := False\<rparr>))"

definition new_worker :: "'a pool \<Rightarrow> 'a pool" where
  "new_worker s =
     (let n = wp_last_worker_id s + 1
      in s\<lparr>wp_last_worker_id := n,
           wp_workers := wp_workers s @ [n],
           wp_current := (wp_current s)(n := None),
           wp_thread_name := (wp_thread_name s)(n := worker_id (wp_name s) n)\<rparr>)"

text \<open>
  \<^verbatim>\<open>_ResizeUnlocked\<close> up to the joining of the terminating workers, which it gives back, and
  after it.
\<close>

definition Resize_begin :: "int \<Rightarrow> ('a pool, nat list option) meth" where
  "Resize_begin num_workers s =
     (let current_count = int (length (wp_workers s))
      in if num_workers < 0 then (Inl AssertionError, s)
         else if current_count = num_workers then (Inr None, s)
         else if current_count > num_workers then
           if num_workers = 0
           then (Inr (Some (wp_workers s)),
                 notify_all_workers (s\<lparr>wp_workers := [], wp_termworkers := wp_termworkers s @ wp_workers s\<rparr>))
           else (Inl NotImplementedError, s)
         else (Inr None, (new_worker ^^ nat (num_workers - current_count)) s))"

fun remove_dead :: "nat list \<Rightarrow> ('a pool, unit) meth" where
  "remove_dead [] = st_assert (\<lambda>s. wp_termworkers s = []) AssertionError"
| "remove_dead (w # ws) =
     st_bind (st_assert (\<lambda>s. w \<in> set (wp_termworkers s)) AssertionError) (\<lambda>_.
     st_bind (st_do (\<lambda>s. if w \<in> wp_dead s then s\<lparr>wp_termworkers := remove1 w (wp_termworkers s)\<rparr> else s)) (\<lambda>_.
     remove_dead ws))"

definition Resize_join :: "nat list \<Rightarrow> 'a pool \<Rightarrow> (unit res \<times> 'a pool) option" where
  "Resize_join termworkers s =
     (if set termworkers \<subseteq> wp_dead s then Some (remove_dead termworkers s) else None)"

definition empty_pool :: "string \<Rightarrow> 'a pool" where
  "empty_pool name =
     \<lparr>wp_name = name, wp_last_worker_id = 0, wp_workers = [], wp_quiescing = False, wp_termworkers = [],
      wp_counter = 0, wp_tasks = [], wp_taskdata = Map.empty,
      wp_objs = (\<lambda>_. \<lparr>tk_prio = 0, tk_order = 0, tk_id = None, tk_args = None\<rparr>), wp_next = 0,
      wp_current = Map.empty, wp_thread_name = (\<lambda>_. []), wp_idle = [], wp_dead = {}\<rparr>"

definition WorkerPool :: "string \<Rightarrow> int \<Rightarrow> 'a pool" where
  "WorkerPool name num_workers = snd (Resize_begin num_workers (empty_pool name))"

section \<open>The queue as a set of tasks\<close>

text \<open>
  What the queue promises, without heap and abandoned entries: the set of the queued tasks.
\<close>

definition live_refs :: "'a pool \<Rightarrow> nat set" where
  "live_refs s = {i \<in> set (wp_tasks s). tk_args (wp_objs s i) \<noteq> None}"

definition queued :: "'a pool \<Rightarrow> 'a task set" where
  "queued s = wp_objs s ` live_refs s"

definition spec_add :: "'a \<Rightarrow> int \<Rightarrow> int option \<Rightarrow> nat \<Rightarrow> 'a task set \<Rightarrow> 'a task set" where
  "spec_add args prio tid order Q =
     insert \<lparr>tk_prio = prio, tk_order = order, tk_id = tid, tk_args = Some args\<rparr> Q"

definition spec_change :: "int \<Rightarrow> int \<Rightarrow> 'a task set \<Rightarrow> 'a task set" where
  "spec_change k prio Q = (\<lambda>t. if tk_id t = Some k then t\<lparr>tk_prio := prio\<rparr> else t) ` Q"

definition spec_take :: "'a task \<Rightarrow> 'a task set \<Rightarrow> 'a task set \<Rightarrow> bool" where
  "spec_take t Q Q' \<longleftrightarrow>
     t \<in> Q \<and> Q' = Q - {t} \<and> (\<forall>u \<in> Q. (tk_prio t, tk_order t) \<le> (tk_prio u, tk_order u))"

section \<open>The invariant of the queue\<close>

definition tasks_inv :: "'a pool \<Rightarrow> bool" where
  "tasks_inv s \<longleftrightarrow>
     heap_ok (task_key (wp_objs s)) (wp_tasks s) \<and>
     distinct (map (task_key (wp_objs s)) (wp_tasks s)) \<and>
     (\<forall>i \<in> set (wp_tasks s). i < wp_next s \<and> tk_order (wp_objs s i) < wp_counter s) \<and>
     (\<forall>k i. wp_taskdata s k = Some i \<longleftrightarrow> i \<in> live_refs s \<and> tk_id (wp_objs s i) = Some k) \<and>
     (\<forall>i \<in> live_refs s. \<forall>j \<in> live_refs s. tk_order (wp_objs s i) = tk_order (wp_objs s j) \<longrightarrow> i = j)"

lemma tasks_inv_by_key: "by_key (task_lt objs) (task_key objs) h"
  by (simp add: by_key_def task_lt_def)

lemma tasks_inv_distinct: "tasks_inv s \<Longrightarrow> distinct (wp_tasks s)"
  unfolding tasks_inv_def by (metis distinct_map)

lemma set_heappush: "set (heappush key h x) = insert x (set h)"
  by (metis heappush_mset set_mset_add_mset_insert set_mset_mset)

lemma push_task_ok:
  assumes "distinct (map (task_key (wp_objs s)) (wp_tasks s @ [i]))"
  shows "push_task i s = (Inr (), notify_worker (s\<lparr>wp_tasks := heappush (task_key (wp_objs s)) (wp_tasks s) i\<rparr>))"
  using heappush_cmp_key [OF assms tasks_inv_by_key] by (simp add: push_task_def)

lemma heap_ok_cong:
  assumes "\<And>x. x \<in> set h \<Longrightarrow> key x = key' x"
  shows "heap_ok key h = heap_ok key' h"
proof -
  have "key (h ! i) = key' (h ! i)" if "i < length h" for i using that assms by simp
  moreover have "parent_pos i < length h" if "i < length h" for i
    using that by (simp add: parent_pos_def)
  ultimately show ?thesis by (simp add: heap_ok_def)
qed

text \<open>Pushing a reference whose entry was just written.\<close>

lemma push_new_inv:
  assumes "heap_ok (task_key objs) h" "distinct (map (task_key objs) h)" "i \<notin> set h"
    and "\<And>j. j \<in> set h \<Longrightarrow> task_key objs' j = task_key objs j"
    and "task_key objs' i \<notin> task_key objs ` set h"
  shows "distinct (map (task_key objs') (h @ [i]))"
    and "heap_ok (task_key objs') (heappush (task_key objs') h i)"
    and "distinct (map (task_key objs') (heappush (task_key objs') h i))"
proof -
  have m: "map (task_key objs') h = map (task_key objs) h" using assms(4) by simp
  show d: "distinct (map (task_key objs') (h @ [i]))"
  proof -
    have "distinct (map (task_key objs') h)" using assms(2) unfolding m .
    moreover have "task_key objs' ` set h = task_key objs ` set h" using assms(4) by (rule image_cong [OF refl])
    ultimately show ?thesis using assms(5) by simp
  qed
  have "heap_ok (task_key objs') h" using assms(1) heap_ok_cong [of h "task_key objs'" "task_key objs"] assms(4) by simp
  then show "heap_ok (task_key objs') (heappush (task_key objs') h i)" by (rule heappush_heap)
  have "mset (map (task_key objs') (heappush (task_key objs') h i)) = mset (map (task_key objs') (h @ [i]))"
    by simp
  then show "distinct (map (task_key objs') (heappush (task_key objs') h i))"
    using d by (metis mset_eq_imp_distinct_iff)
qed

lemma AddTaskUnlocked_ok:
  assumes "tasks_inv s" "case tid of None \<Rightarrow> True | Some k \<Rightarrow> wp_taskdata s k = None"
  shows "\<exists>s'. AddTaskUnlocked args prio tid s = (Inr (), s') \<and> tasks_inv s' \<and>
    queued s' = spec_add args prio tid (wp_counter s) (queued s) \<and>
    wp_counter s' = wp_counter s + 1 \<and> wp_next s' = wp_next s + 1 \<and> wp_idle s' = tl (wp_idle s) \<and>
    set (wp_tasks s') = insert (wp_next s) (set (wp_tasks s)) \<and>
    (\<forall>j. j \<noteq> wp_next s \<longrightarrow> wp_objs s' j = wp_objs s j) \<and>
    wp_taskdata s' = (case tid of None \<Rightarrow> wp_taskdata s | Some k \<Rightarrow> (wp_taskdata s)(k \<mapsto> wp_next s)) \<and>
    s' = s\<lparr>wp_objs := wp_objs s', wp_next := wp_next s', wp_counter := wp_counter s', wp_tasks := wp_tasks s',
            wp_taskdata := wp_taskdata s', wp_idle := wp_idle s'\<rparr>"
proof -
  let ?i = "wp_next s"
  let ?t = "\<lparr>tk_prio = prio, tk_order = wp_counter s, tk_id = tid, tk_args = Some args\<rparr>"
  let ?objs = "(wp_objs s)(?i := ?t)"
  let ?td = "case tid of None \<Rightarrow> wp_taskdata s | Some k \<Rightarrow> (wp_taskdata s)(k \<mapsto> ?i)"
  let ?h = "heappush (task_key ?objs) (wp_tasks s) ?i"
  have inv: "heap_ok (task_key (wp_objs s)) (wp_tasks s)" "distinct (map (task_key (wp_objs s)) (wp_tasks s))"
    "\<And>i. i \<in> set (wp_tasks s) \<Longrightarrow> i < ?i \<and> tk_order (wp_objs s i) < wp_counter s"
    "\<And>k i. wp_taskdata s k = Some i \<longleftrightarrow> i \<in> live_refs s \<and> tk_id (wp_objs s i) = Some k"
    "\<And>i j. i \<in> live_refs s \<Longrightarrow> j \<in> live_refs s \<Longrightarrow> tk_order (wp_objs s i) = tk_order (wp_objs s j) \<Longrightarrow> i = j"
    using assms(1) unfolding tasks_inv_def by blast+
  have ni: "?i \<notin> set (wp_tasks s)" using inv(3) by blast
  note p = push_new_inv [OF inv(1,2) ni, of ?objs]
  have same: "task_key ?objs j = task_key (wp_objs s) j" if "j \<in> set (wp_tasks s)" for j
    using inv(3) [OF that] by (simp add: task_key_def)
  have fresh: "task_key ?objs ?i \<notin> task_key (wp_objs s) ` set (wp_tasks s)"
    using inv(3) by (fastforce simp: task_key_def)
  define s' where "s' = s\<lparr>wp_objs := ?objs, wp_next := ?i + 1, wp_counter := wp_counter s + 1,
      wp_tasks := ?h, wp_taskdata := ?td, wp_idle := tl (wp_idle s)\<rparr>"
  have run: "AddTaskUnlocked args prio tid s = (Inr (), s')"
    using push_task_ok [of "s\<lparr>wp_objs := ?objs, wp_next := ?i + 1, wp_counter := wp_counter s + 1, wp_taskdata := ?td\<rparr>" ?i]
      p(1) same fresh assms(2)
    by (cases tid) (simp_all add: AddTaskUnlocked_def Let_def notify_worker_def s'_def)
  have tasks: "set (wp_tasks s') = insert ?i (set (wp_tasks s))" by (simp add: s'_def set_heappush)
  have refs: "live_refs s' = insert ?i (live_refs s)"
    using ni tasks inv(3) unfolding live_refs_def by (auto simp: s'_def)
  have nl: "?i \<notin> live_refs s" using ni by (simp add: live_refs_def)
  have old: "wp_objs s' j = wp_objs s j" if "j \<in> live_refs s" for j
    using that nl by (auto simp: s'_def)
  have q: "queued s' = spec_add args prio tid (wp_counter s) (queued s)"
  proof -
    have "wp_objs s' ` live_refs s = wp_objs s ` live_refs s" using old by (rule image_cong [OF refl])
    moreover have "wp_objs s' ?i = ?t" by (simp add: s'_def)
    ultimately show ?thesis unfolding queued_def refs spec_add_def by simp
  qed
  have "tasks_inv s'"
    unfolding tasks_inv_def
  proof (intro conjI allI ballI impI)
    show "heap_ok (task_key (wp_objs s')) (wp_tasks s')" "distinct (map (task_key (wp_objs s')) (wp_tasks s'))"
      using p(2,3) same fresh by (simp_all add: s'_def)
    show "i < wp_next s'" "tk_order (wp_objs s' i) < wp_counter s'" if "i \<in> set (wp_tasks s')" for i
      using that inv(3) [of i] unfolding tasks by (auto simp: s'_def)
    show "wp_taskdata s' k = Some i \<longleftrightarrow> i \<in> live_refs s' \<and> tk_id (wp_objs s' i) = Some k" for k i
      using inv(4) [of k i] nl assms(2) unfolding refs by (cases tid) (auto simp: s'_def split: if_splits)
    show "i = j" if "i \<in> live_refs s'" "j \<in> live_refs s'" "tk_order (wp_objs s' i) = tk_order (wp_objs s' j)" for i j
    proof -
      have lt: "tk_order (wp_objs s j) < wp_counter s" if "j \<in> live_refs s" for j
        using that inv(3) by (simp add: live_refs_def)
      have new: "wp_objs s' ?i = ?t" by (simp add: s'_def)
      show ?thesis
        using that inv(5) [of i j] lt [of i] lt [of j] old [of i] old [of j] new unfolding refs by auto
    qed
  qed
  moreover have "s' = s\<lparr>wp_objs := wp_objs s', wp_next := wp_next s', wp_counter := wp_counter s', wp_tasks := wp_tasks s',
            wp_taskdata := wp_taskdata s', wp_idle := wp_idle s'\<rparr>" by (simp add: s'_def)
  ultimately show ?thesis using run q tasks by (auto simp: s'_def)
qed


lemma ChangeTaskPriority_ok:
  assumes "tasks_inv s" "wp_taskdata s k = Some old"
    and "(prio, tk_order (wp_objs s old)) \<notin> task_key (wp_objs s) ` set (wp_tasks s)"
  shows "\<exists>s'. ChangeTaskPriority k prio s = (Inr (), s') \<and> tasks_inv s' \<and>
    queued s' = spec_change k prio (queued s) \<and> wp_idle s' = tl (wp_idle s) \<and>
    set (wp_tasks s') = insert (wp_next s) (set (wp_tasks s)) \<and>
    (\<forall>j. j \<noteq> wp_next s \<and> j \<noteq> old \<longrightarrow> wp_objs s' j = wp_objs s j) \<and> dom (wp_taskdata s') = dom (wp_taskdata s) \<and>
    s' = s\<lparr>wp_objs := wp_objs s', wp_next := wp_next s + 1, wp_tasks := wp_tasks s',
            wp_taskdata := wp_taskdata s', wp_idle := wp_idle s'\<rparr>"
proof -
  let ?i = "wp_next s"
  let ?new = "(wp_objs s old)\<lparr>tk_prio := prio\<rparr>"
  let ?objs = "(wp_objs s)(?i := ?new, old := (wp_objs s old)\<lparr>tk_args := None\<rparr>)"
  let ?h = "heappush (task_key ?objs) (wp_tasks s) ?i"
  have inv: "heap_ok (task_key (wp_objs s)) (wp_tasks s)" "distinct (map (task_key (wp_objs s)) (wp_tasks s))"
    "\<And>i. i \<in> set (wp_tasks s) \<Longrightarrow> i < ?i \<and> tk_order (wp_objs s i) < wp_counter s"
    "\<And>k i. wp_taskdata s k = Some i \<longleftrightarrow> i \<in> live_refs s \<and> tk_id (wp_objs s i) = Some k"
    "\<And>i j. i \<in> live_refs s \<Longrightarrow> j \<in> live_refs s \<Longrightarrow> tk_order (wp_objs s i) = tk_order (wp_objs s j) \<Longrightarrow> i = j"
    using assms(1) unfolding tasks_inv_def by blast+
  have old: "old \<in> live_refs s" "tk_id (wp_objs s old) = Some k" "old \<in> set (wp_tasks s)" "old \<noteq> ?i"
    "tk_args (wp_objs s old) \<noteq> None"
    using assms(2) inv(3) [of old] inv(4) [of k old] by (auto simp: live_refs_def)
  have ni: "?i \<notin> set (wp_tasks s)" using inv(3) by blast
  note p = push_new_inv [OF inv(1,2) ni, of ?objs]
  have same: "task_key ?objs j = task_key (wp_objs s) j" if "j \<in> set (wp_tasks s)" for j
    using that ni by (auto simp: task_key_def)
  have fresh: "task_key ?objs ?i \<notin> task_key (wp_objs s) ` set (wp_tasks s)"
    using assms(3) old(4) by (simp add: task_key_def)
  define s' where "s' = s\<lparr>wp_objs := ?objs, wp_next := ?i + 1, wp_tasks := ?h,
      wp_taskdata := (wp_taskdata s)(k \<mapsto> ?i), wp_idle := tl (wp_idle s)\<rparr>"
  have run: "ChangeTaskPriority k prio s = (Inr (), s')"
    using push_task_ok [of "s\<lparr>wp_objs := ?objs, wp_next := ?i + 1, wp_taskdata := (wp_taskdata s)(k \<mapsto> ?i)\<rparr>" ?i]
      p(1) same fresh assms(2)
    by (simp add: ChangeTaskPriority_def Let_def notify_worker_def s'_def)
  have tasks: "set (wp_tasks s') = insert ?i (set (wp_tasks s))" by (simp add: s'_def set_heappush)
  have nl: "?i \<notin> live_refs s" using ni by (simp add: live_refs_def)
  have obj: "wp_objs s' ?i = ?new" "tk_args (wp_objs s' old) = None" using old(4) by (simp_all add: s'_def)
  have keep: "wp_objs s' j = wp_objs s j" if "j \<noteq> ?i" "j \<noteq> old" for j
    using that by (simp add: s'_def)
  have refs: "live_refs s' = insert ?i (live_refs s - {old})"
  proof -
    have "j \<in> live_refs s' \<longleftrightarrow> j = ?i \<or> j \<in> live_refs s - {old}" for j
    proof (cases "j = ?i \<or> j = old")
      case True
      then show ?thesis using obj old ni tasks by (auto simp: live_refs_def)
    next
      case False
      then show ?thesis using keep [of j] tasks by (simp add: live_refs_def)
    qed
    then show ?thesis by blast
  qed
  have q: "queued s' = spec_change k prio (queued s)"
  proof -
    have uniq: "j = old" if "j \<in> live_refs s" "tk_id (wp_objs s j) = Some k" for j
      using that inv(4) [of k j] assms(2) by simp
    define f where "f j = (if tk_id (wp_objs s j) = Some k then (wp_objs s j)\<lparr>tk_prio := prio\<rparr> else wp_objs s j)" for j
    have "wp_objs s' ` (live_refs s - {old}) = f ` (live_refs s - {old})"
    proof (rule image_cong [OF refl])
      fix j assume j: "j \<in> live_refs s - {old}"
      then have "j \<noteq> ?i" "tk_id (wp_objs s j) \<noteq> Some k" using nl uniq by auto
      then show "wp_objs s' j = f j" using keep [of j] j by (simp add: f_def)
    qed
    moreover have "wp_objs s' ?i = f old" using obj(1) old(2) by (simp add: f_def)
    ultimately have "queued s' = f ` insert old (live_refs s - {old})"
      unfolding queued_def refs image_insert by simp
    also have "insert old (live_refs s - {old}) = live_refs s" using old(1) by blast
    finally show ?thesis unfolding queued_def spec_change_def image_image f_def .
  qed
  have "tasks_inv s'"
    unfolding tasks_inv_def
  proof (intro conjI allI ballI impI)
    show "heap_ok (task_key (wp_objs s')) (wp_tasks s')" "distinct (map (task_key (wp_objs s')) (wp_tasks s'))"
      using p(2,3) same fresh by (simp_all add: s'_def)
    show "i < wp_next s'" "tk_order (wp_objs s' i) < wp_counter s'" if "i \<in> set (wp_tasks s')" for i
      using that inv(3) [of i] inv(3) [OF old(3)] unfolding tasks by (auto simp: s'_def)
    show "wp_taskdata s' j = Some i \<longleftrightarrow> i \<in> live_refs s' \<and> tk_id (wp_objs s' i) = Some j" for j i
    proof (cases "i = ?i")
      case True
      then show ?thesis
        using inv(4) [of j ?i] nl obj(1) old(2) unfolding refs by (auto simp: s'_def)
    next
      case False
      then show ?thesis
        using inv(4) [of j i] keep [of i] old(2) assms(2) unfolding refs by (cases "i = old") (auto simp: s'_def)
    qed
    show "i = j" if "i \<in> live_refs s'" "j \<in> live_refs s'" "tk_order (wp_objs s' i) = tk_order (wp_objs s' j)" for i j
    proof -
      have eq: "x = ?i \<or> (x \<in> live_refs s \<and> x \<noteq> old \<and> wp_objs s' x = wp_objs s x)" if "x \<in> live_refs s'" for x
        using that keep [of x] nl unfolding refs by auto
      have "tk_order (wp_objs s' ?i) = tk_order (wp_objs s old)" using obj(1) by simp
      then show ?thesis
        using that(3) eq [OF that(1)] eq [OF that(2)] inv(5) [of i j] inv(5) [OF old(1), of j] inv(5) [OF _ old(1), of i]
        by auto
    qed
  qed
  moreover have "dom (wp_taskdata s') = dom (wp_taskdata s)" using assms(2) by (auto simp: s'_def)
  moreover have "s' = s\<lparr>wp_objs := wp_objs s', wp_next := ?i + 1, wp_tasks := wp_tasks s',
            wp_taskdata := wp_taskdata s', wp_idle := wp_idle s'\<rparr>" by (simp add: s'_def)
  ultimately show ?thesis using run q tasks keep by (auto simp: s'_def)
qed

text \<open>Taking the entry at the head of the heap out of it.\<close>

lemma pop_head:
  assumes "tasks_inv s" "wp_tasks s \<noteq> []"
  obtains i h where "heappop_cmp (task_lt (wp_objs s)) (wp_tasks s) = (Some i, h)"
    "i \<in> set (wp_tasks s)" "set h = set (wp_tasks s) - {i}" "heap_ok (task_key (wp_objs s)) h"
    "distinct (map (task_key (wp_objs s)) h)"
    "\<And>j. j \<in> set (wp_tasks s) \<Longrightarrow> task_key (wp_objs s) i \<le> task_key (wp_objs s) j"
proof -
  let ?key = "task_key (wp_objs s)"
  have inv: "heap_ok ?key (wp_tasks s)" "distinct (map ?key (wp_tasks s))"
    using assms(1) unfolding tasks_inv_def by blast+
  from heappop_props [OF inv(1) assms(2)] obtain h where h: "heappop ?key (wp_tasks s) = Some (hd (wp_tasks s), h)"
    "heap_ok ?key h" "mset (wp_tasks s) = add_mset (hd (wp_tasks s)) (mset h)" by blast
  have m: "mset (map ?key (wp_tasks s)) = mset (?key (hd (wp_tasks s)) # map ?key h)"
    using h(3) by (simp add: mset_map)
  then have d: "distinct (?key (hd (wp_tasks s)) # map ?key h)"
    using inv(2) by (metis mset_eq_imp_distinct_iff)
  have "set (wp_tasks s) = insert (hd (wp_tasks s)) (set h)"
    using h(3) by (metis set_mset_add_mset_insert set_mset_mset)
  moreover have "hd (wp_tasks s) \<notin> set h" using d by auto
  ultimately have "set h = set (wp_tasks s) - {hd (wp_tasks s)}" by blast
  moreover have "heappop_cmp (task_lt (wp_objs s)) (wp_tasks s) = (Some (hd (wp_tasks s)), h)"
    by (rule heappop_cmp_key [OF inv(2) tasks_inv_by_key h(1)])
  ultimately show thesis
    using that h(2) d assms(2) heap_ok_hd_least [OF inv(1)] by auto
qed

lemma pop_inv:
  assumes "tasks_inv s" "i \<in> set (wp_tasks s)" "set h = set (wp_tasks s) - {i}"
    "heap_ok (task_key (wp_objs s)) h" "distinct (map (task_key (wp_objs s)) h)"
    and "td = (case tk_id (wp_objs s i) of
        Some k \<Rightarrow> if tk_args (wp_objs s i) = None then wp_taskdata s else (wp_taskdata s)(k := None)
      | None \<Rightarrow> wp_taskdata s)"
  shows "tasks_inv (s\<lparr>wp_tasks := h, wp_taskdata := td\<rparr>)"
    and "live_refs (s\<lparr>wp_tasks := h, wp_taskdata := td\<rparr>) = live_refs s - {i}"
proof -
  let ?s = "s\<lparr>wp_tasks := h, wp_taskdata := td\<rparr>"
  show refs: "live_refs ?s = live_refs s - {i}" using assms(3) by (auto simp: live_refs_def)
  have td: "wp_taskdata s k = Some j \<longleftrightarrow> j \<in> live_refs s \<and> tk_id (wp_objs s j) = Some k" for k j
    using assms(1) unfolding tasks_inv_def by blast
  have "td k = Some j \<longleftrightarrow> j \<in> live_refs s - {i} \<and> tk_id (wp_objs s j) = Some k" for k j
    using td [of k j] td [of k i] assms(2,6) by (auto simp: live_refs_def split: option.splits)
  then show "tasks_inv ?s"
    using assms(1,3-5) unfolding tasks_inv_def refs by auto
qed

lemma WaitForTaskUnlocked_ok:
  assumes "tasks_inv s" "\<not> ShouldWorkerTerminateUnlocked w s"
  shows "\<exists>r s'. WaitForTaskUnlocked w s = (Inr r, s') \<and> tasks_inv s' \<and> set (wp_tasks s') \<subseteq> set (wp_tasks s) \<and>
    (case r of
       Terminate \<Rightarrow> False
     | MustWait \<Rightarrow> queued s = {} \<and> queued s' = {} \<and> wp_tasks s' = [] \<and> wp_idle s' = wp_idle s @ [w] \<and>
         wp_taskdata s' = wp_taskdata s
     | Task i \<Rightarrow> i \<in> live_refs s \<and> live_refs s' = live_refs s - {i} \<and> wp_idle s' = wp_idle s \<and>
         (\<forall>j \<in> live_refs s. task_key (wp_objs s) i \<le> task_key (wp_objs s) j)) \<and>
    s' = s\<lparr>wp_tasks := wp_tasks s', wp_taskdata := wp_taskdata s', wp_idle := wp_idle s'\<rparr>"
  using assms
proof (induction w s rule: WaitForTaskUnlocked.induct)
  case (1 w s)
  note nt = "1.prems"(2)
  show ?case
  proof (cases "wp_tasks s = []")
    case True
    have "WaitForTaskUnlocked w s = (Inr MustWait, s\<lparr>wp_idle := wp_idle s @ [w]\<rparr>)"
      using nt True by (subst WaitForTaskUnlocked.simps) simp
    moreover have "tasks_inv (s\<lparr>wp_idle := wp_idle s @ [w]\<rparr>)"
      using "1.prems"(1) by (simp add: tasks_inv_def live_refs_def)
    ultimately show ?thesis using True by (auto simp: queued_def live_refs_def)
  next
    case False
    from pop_head [OF "1.prems"(1) False] obtain i h where i:
      "heappop_cmp (task_lt (wp_objs s)) (wp_tasks s) = (Some i, h)"
      "i \<in> set (wp_tasks s)" "set h = set (wp_tasks s) - {i}" "heap_ok (task_key (wp_objs s)) h"
      "distinct (map (task_key (wp_objs s)) h)"
      "\<And>j. j \<in> set (wp_tasks s) \<Longrightarrow> task_key (wp_objs s) i \<le> task_key (wp_objs s) j" by metis
    note inv = pop_inv [OF "1.prems"(1) i(2-5) refl]
    show ?thesis
    proof (cases "tk_args (wp_objs s i) = None")
      case True
      let ?s = "s\<lparr>wp_tasks := h\<rparr>"
      have "s\<lparr>wp_tasks := h, wp_taskdata := wp_taskdata s\<rparr> = ?s" by simp
      with inv True have s1: "tasks_inv ?s" "live_refs ?s = live_refs s - {i}"
        by (auto split: option.splits)
      have l: "live_refs ?s = live_refs s" using s1(2) True by (auto simp: live_refs_def)
      have "WaitForTaskUnlocked w s = WaitForTaskUnlocked w ?s"
        using nt False i(1) True by (subst WaitForTaskUnlocked.simps) (simp add: Let_def)
      moreover have "\<not> ShouldWorkerTerminateUnlocked w ?s"
        using nt by (simp add: ShouldWorkerTerminateUnlocked_def)
      moreover from this obtain r s' where r: "WaitForTaskUnlocked w ?s = (Inr r, s')" "tasks_inv s'"
        "set (wp_tasks s') \<subseteq> set (wp_tasks ?s)"
        "case r of
           Terminate \<Rightarrow> False
         | MustWait \<Rightarrow> queued ?s = {} \<and> queued s' = {} \<and> wp_tasks s' = [] \<and> wp_idle s' = wp_idle ?s @ [w] \<and>
             wp_taskdata s' = wp_taskdata ?s
         | Task i \<Rightarrow> i \<in> live_refs ?s \<and> live_refs s' = live_refs ?s - {i} \<and> wp_idle s' = wp_idle ?s \<and>
             (\<forall>j \<in> live_refs ?s. task_key (wp_objs ?s) i \<le> task_key (wp_objs ?s) j)"
        "s' = ?s\<lparr>wp_tasks := wp_tasks s', wp_taskdata := wp_taskdata s', wp_idle := wp_idle s'\<rparr>"
        using "1.IH" [OF nt False i(1) [symmetric] refl refl _ s1(1)] True by auto
      moreover have "s' = s\<lparr>wp_tasks := wp_tasks s', wp_taskdata := wp_taskdata s', wp_idle := wp_idle s'\<rparr>"
        by (rule trans [OF r(5)]) simp
      moreover have "set (wp_tasks s') \<subseteq> set (wp_tasks s)" using r(3) i(3) by auto
      ultimately show ?thesis
        using l by (intro exI [of _ r] exI [of _ s']) (cases r; simp add: queued_def)
    next
      case a: False
      define s' where "s' = s\<lparr>wp_tasks := h, wp_taskdata := (case tk_id (wp_objs s i) of
        Some k \<Rightarrow> if tk_args (wp_objs s i) = None then wp_taskdata s else (wp_taskdata s)(k := None)
      | None \<Rightarrow> wp_taskdata s)\<rparr>"
      have l: "i \<in> live_refs s" using i(2) a by (simp add: live_refs_def)
      have "wp_taskdata s k \<noteq> None" if "tk_id (wp_objs s i) = Some k" for k
        using "1.prems"(1) l that unfolding tasks_inv_def by (metis option.distinct(1))
      then have "WaitForTaskUnlocked w s = (Inr (Task i), s')"
        using nt False i(1) a
        by (subst WaitForTaskUnlocked.simps, cases "tk_id (wp_objs s i)") (auto simp: Let_def s'_def)
      moreover have "s' = s\<lparr>wp_tasks := wp_tasks s', wp_taskdata := wp_taskdata s', wp_idle := wp_idle s'\<rparr>" "wp_idle s' = wp_idle s"
        by (simp_all add: s'_def)
      moreover have "\<forall>j \<in> live_refs s. task_key (wp_objs s) i \<le> task_key (wp_objs s) j"
        using i(6) by (simp add: live_refs_def)
      moreover have "set (wp_tasks s') \<subseteq> set (wp_tasks s)" using i(3) by (auto simp: s'_def)
      ultimately show ?thesis using inv [folded s'_def] l by auto
    qed
  qed
qed

section \<open>The invariant of the pool\<close>

definition running_inv :: "'a pool \<Rightarrow> bool" where
  "running_inv s \<longleftrightarrow>
     (\<forall>w i. wp_current s w = Some i \<longrightarrow>
        i < wp_next s \<and> i \<notin> set (wp_tasks s) \<and> tk_args (wp_objs s i) \<noteq> None \<and>
        w \<in> set (wp_workers s) \<union> set (wp_termworkers s) \<and> w \<notin> set (wp_idle s) \<and> w \<notin> wp_dead s \<and>
        (\<forall>k. tk_id (wp_objs s i) = Some k \<longrightarrow> wp_taskdata s k = None)) \<and>
     (\<forall>w w' i j k. wp_current s w = Some i \<longrightarrow> wp_current s w' = Some j \<longrightarrow>
        i = j \<or> (tk_id (wp_objs s i) = Some k \<and> tk_id (wp_objs s j) = Some k) \<longrightarrow> w = w')"

definition workers_inv :: "'a pool \<Rightarrow> bool" where
  "workers_inv s \<longleftrightarrow>
     distinct (wp_workers s) \<and> distinct (wp_idle s) \<and> set (wp_idle s) \<subseteq> set (wp_workers s) \<and>
     set (wp_workers s) \<inter> set (wp_termworkers s) = {} \<and> set (wp_workers s) \<inter> wp_dead s = {} \<and>
     (\<forall>w \<in> set (wp_workers s) \<union> set (wp_termworkers s) \<union> wp_dead s. w \<le> wp_last_worker_id s)"

text \<open>Queued tasks are looked after: some worker of the pool is not asleep.\<close>

definition awake_inv :: "'a pool \<Rightarrow> bool" where
  "awake_inv s \<longleftrightarrow>
     (wp_tasks s \<noteq> [] \<and> wp_workers s \<noteq> [] \<longrightarrow> \<not> set (wp_workers s) \<subseteq> set (wp_idle s))"

definition pool_inv :: "'a pool \<Rightarrow> bool" where
  "pool_inv s \<longleftrightarrow> tasks_inv s \<and> running_inv s \<and> workers_inv s \<and> awake_inv s"

text \<open>A task ID that no queued and no running task has.\<close>

definition id_free :: "int option \<Rightarrow> 'a pool \<Rightarrow> bool" where
  "id_free tid s \<longleftrightarrow>
     (case tid of
        None \<Rightarrow> True
      | Some k \<Rightarrow> wp_taskdata s k = None \<and>
          (\<forall>w i. wp_current s w = Some i \<longrightarrow> tk_id (wp_objs s i) \<noteq> Some k))"

lemma awake_push:
  assumes "workers_inv s" "wp_workers s \<noteq> []"
  shows "\<not> set (wp_workers s) \<subseteq> set (tl (wp_idle s))"
proof (cases "wp_idle s")
  case Nil
  then show ?thesis using assms(2) by simp
next
  case (Cons w ws)
  then have "w \<in> set (wp_workers s)" "w \<notin> set ws" using assms(1) by (auto simp: workers_inv_def)
  with Cons show ?thesis by auto
qed

lemma AddTaskUnlocked_inv:
  assumes "pool_inv s" "case tid of None \<Rightarrow> True | Some k \<Rightarrow> wp_taskdata s k = None"
    and "\<And>w i k. wp_current s w = Some i \<Longrightarrow> tk_id (wp_objs s i) = Some k \<Longrightarrow> tid = Some k \<Longrightarrow> w = v"
  shows "\<exists>s'. AddTaskUnlocked args prio tid s = (Inr (), s') \<and> tasks_inv s' \<and> workers_inv s' \<and> awake_inv s' \<and>
    running_inv (s'\<lparr>wp_current := (wp_current s')(v := None)\<rparr>) \<and>
    queued s' = spec_add args prio tid (wp_counter s) (queued s) \<and>
    wp_current s' = wp_current s \<and> (\<forall>i. i < wp_next s \<longrightarrow> wp_objs s' i = wp_objs s i) \<and>
    wp_taskdata s' = (case tid of None \<Rightarrow> wp_taskdata s | Some k \<Rightarrow> (wp_taskdata s)(k \<mapsto> wp_next s)) \<and>
    wp_quiescing s' = wp_quiescing s"
proof -
  have inv: "tasks_inv s" "running_inv s" "workers_inv s" using assms(1) by (auto simp: pool_inv_def)
  from AddTaskUnlocked_ok [OF inv(1) assms(2), of args prio] obtain s' where s':
    "AddTaskUnlocked args prio tid s = (Inr (), s')" "tasks_inv s'"
    "queued s' = spec_add args prio tid (wp_counter s) (queued s)"
    "wp_next s' = wp_next s + 1" "wp_idle s' = tl (wp_idle s)"
    "set (wp_tasks s') = insert (wp_next s) (set (wp_tasks s))"
    "\<forall>j. j \<noteq> wp_next s \<longrightarrow> wp_objs s' j = wp_objs s j"
    "wp_taskdata s' = (case tid of None \<Rightarrow> wp_taskdata s | Some k \<Rightarrow> (wp_taskdata s)(k \<mapsto> wp_next s))"
    "s' = s\<lparr>wp_objs := wp_objs s', wp_next := wp_next s', wp_counter := wp_counter s', wp_tasks := wp_tasks s',
            wp_taskdata := wp_taskdata s', wp_idle := wp_idle s'\<rparr>" by blast
  have f: "wp_current s' = wp_current s" "wp_workers s' = wp_workers s" "wp_termworkers s' = wp_termworkers s"
    "wp_dead s' = wp_dead s" "wp_last_worker_id s' = wp_last_worker_id s" "wp_quiescing s' = wp_quiescing s"
    by (subst s'(9), simp)+
  have tl: "set (tl (wp_idle s)) \<subseteq> set (wp_idle s)" by (cases "wp_idle s") auto
  have wi: "workers_inv s'"
    using inv(3) tl unfolding workers_inv_def f s'(5) by (auto simp: distinct_tl)
  have ai: "awake_inv s'"
    using awake_push [OF inv(3)] unfolding awake_inv_def f s'(5) by blast
  have cur: "wp_objs s' i = wp_objs s i" if "wp_current s w = Some i" for w i
    using inv(2) that s'(7) unfolding running_inv_def by (metis less_irrefl)
  have run: "running_inv (s'\<lparr>wp_current := c\<rparr>)"
    if c: "\<And>w i. c w = Some i \<Longrightarrow> wp_current s w = Some i \<and> (\<forall>k. tid = Some k \<longrightarrow> tk_id (wp_objs s i) \<noteq> Some k)" for c
  proof -
    have "i < wp_next s' \<and> i \<notin> set (wp_tasks s') \<and> tk_args (wp_objs s' i) \<noteq> None \<and>
        w \<in> set (wp_workers s') \<union> set (wp_termworkers s') \<and> w \<notin> set (wp_idle s') \<and> w \<notin> wp_dead s' \<and>
        (\<forall>k. tk_id (wp_objs s' i) = Some k \<longrightarrow> wp_taskdata s' k = None)" if w: "c w = Some i" for w i
    proof -
      have "wp_current s w = Some i" "\<forall>k. tid = Some k \<longrightarrow> tk_id (wp_objs s i) \<noteq> Some k" using c [OF w] by auto
      moreover from this inv(2) have "i < wp_next s \<and> i \<notin> set (wp_tasks s) \<and> tk_args (wp_objs s i) \<noteq> None \<and>
        w \<in> set (wp_workers s) \<union> set (wp_termworkers s) \<and> w \<notin> set (wp_idle s) \<and> w \<notin> wp_dead s \<and>
        (\<forall>k. tk_id (wp_objs s i) = Some k \<longrightarrow> wp_taskdata s k = None)"
        unfolding running_inv_def by blast
      ultimately show ?thesis
        using cur [of w i] tl unfolding s'(4-6,8) f by (auto split: option.splits)
    qed
    moreover have "w = w'" if "c w = Some i" "c w' = Some j"
      "i = j \<or> (tk_id (wp_objs s' i) = Some k \<and> tk_id (wp_objs s' j) = Some k)" for w w' i j k
      using c [OF that(1)] c [OF that(2)] that(3) cur inv(2) unfolding running_inv_def by metis
    ultimately show ?thesis unfolding running_inv_def by simp
  qed
  have r1: "running_inv (s'\<lparr>wp_current := (wp_current s')(v := None)\<rparr>)"
    using assms(3) unfolding f(1) by (intro run) (auto split: if_splits)
  have keep: "\<forall>i. i < wp_next s \<longrightarrow> wp_objs s' i = wp_objs s i" using s'(7) by simp
  show ?thesis using s'(1-3,8) wi ai r1 f keep by (intro exI [of _ s']) simp
qed

lemma add_inv:
  assumes "pool_inv s" "id_free tid s"
  obtains s' where "AddTaskUnlocked args prio tid s = (Inr (), s')" "pool_inv s'"
    "queued s' = spec_add args prio tid (wp_counter s) (queued s)" "wp_quiescing s' = wp_quiescing s"
    "\<And>k. tid \<noteq> Some k \<Longrightarrow> id_free (Some k) s \<Longrightarrow> id_free (Some k) s'"
proof -
  obtain v where v: "wp_current s v = None"
  proof -
    have "wp_current s (Suc (wp_last_worker_id s)) = None"
      using assms(1) unfolding pool_inv_def running_inv_def workers_inv_def
      by (metis Suc_n_not_le_n UnI1 UnI2 Un_iff option.exhaust)
    then show thesis using that by blast
  qed
  have free: "case tid of None \<Rightarrow> True | Some k \<Rightarrow> wp_taskdata s k = None"
    using assms(2) by (auto simp: id_free_def split: option.splits)
  have nor: "tk_id (wp_objs s i) \<noteq> Some k" if "wp_current s w = Some i" "tid = Some k" for w i k
    using assms(2) that by (auto simp: id_free_def)
  have "\<exists>s'. AddTaskUnlocked args prio tid s = (Inr (), s') \<and> tasks_inv s' \<and> workers_inv s' \<and> awake_inv s' \<and>
    running_inv (s'\<lparr>wp_current := (wp_current s')(v := None)\<rparr>) \<and>
    queued s' = spec_add args prio tid (wp_counter s) (queued s) \<and>
    wp_current s' = wp_current s \<and> (\<forall>i. i < wp_next s \<longrightarrow> wp_objs s' i = wp_objs s i) \<and>
    wp_taskdata s' = (case tid of None \<Rightarrow> wp_taskdata s | Some k \<Rightarrow> (wp_taskdata s)(k \<mapsto> wp_next s)) \<and>
    wp_quiescing s' = wp_quiescing s"
    using nor by (intro AddTaskUnlocked_inv [OF assms(1) free]) blast
  then obtain s' where s': "AddTaskUnlocked args prio tid s = (Inr (), s')" "tasks_inv s'" "workers_inv s'" "awake_inv s'"
    "running_inv (s'\<lparr>wp_current := (wp_current s')(v := None)\<rparr>)"
    "queued s' = spec_add args prio tid (wp_counter s) (queued s)"
    "wp_current s' = wp_current s" "\<forall>i. i < wp_next s \<longrightarrow> wp_objs s' i = wp_objs s i"
    "wp_taskdata s' = (case tid of None \<Rightarrow> wp_taskdata s | Some k \<Rightarrow> (wp_taskdata s)(k \<mapsto> wp_next s))"
    "wp_quiescing s' = wp_quiescing s" by blast
  have "(wp_current s')(v := None) = wp_current s'" using v s'(7) by auto
  then have "s'\<lparr>wp_current := (wp_current s')(v := None)\<rparr> = s'" by simp
  with s'(5) have ri: "running_inv s'" by simp
  have lt: "i < wp_next s" if "wp_current s w = Some i" for w i
    using assms(1) that unfolding pool_inv_def running_inv_def by blast
  have "id_free (Some k) s'" if "tid \<noteq> Some k" "id_free (Some k) s" for k
    using that s'(7-9) lt by (auto simp: id_free_def split: option.splits)
  then show thesis using that [OF s'(1) _ s'(6,10)] s'(2-4) ri by (simp add: pool_inv_def)
qed

lemma change_inv:
  assumes "pool_inv s" "wp_taskdata s k = Some old"
    and "(prio, tk_order (wp_objs s old)) \<notin> task_key (wp_objs s) ` set (wp_tasks s)"
  obtains s' where "ChangeTaskPriority k prio s = (Inr (), s')" "pool_inv s'"
    "queued s' = spec_change k prio (queued s)"
proof -
  have inv: "tasks_inv s" "running_inv s" "workers_inv s" using assms(1) by (auto simp: pool_inv_def)
  from ChangeTaskPriority_ok [OF inv(1) assms(2,3)] obtain s' where s':
    "ChangeTaskPriority k prio s = (Inr (), s')" "tasks_inv s'" "queued s' = spec_change k prio (queued s)"
    "wp_idle s' = tl (wp_idle s)" "set (wp_tasks s') = insert (wp_next s) (set (wp_tasks s))"
    "\<forall>j. j \<noteq> wp_next s \<and> j \<noteq> old \<longrightarrow> wp_objs s' j = wp_objs s j" "dom (wp_taskdata s') = dom (wp_taskdata s)"
    "s' = s\<lparr>wp_objs := wp_objs s', wp_next := wp_next s + 1, wp_tasks := wp_tasks s',
            wp_taskdata := wp_taskdata s', wp_idle := wp_idle s'\<rparr>" by blast
  have f: "wp_current s' = wp_current s" "wp_workers s' = wp_workers s" "wp_termworkers s' = wp_termworkers s"
    "wp_dead s' = wp_dead s" "wp_last_worker_id s' = wp_last_worker_id s" "wp_next s' = Suc (wp_next s)"
    by (subst s'(8), simp)+
  have tl: "set (tl (wp_idle s)) \<subseteq> set (wp_idle s)" by (cases "wp_idle s") auto
  have wi: "workers_inv s'" using inv(3) tl unfolding workers_inv_def f s'(4) by (auto simp: distinct_tl)
  have ai: "awake_inv s'" using awake_push [OF inv(3)] unfolding awake_inv_def f s'(4) by blast
  have old: "old \<in> set (wp_tasks s)" using inv(1) assms(2) unfolding tasks_inv_def live_refs_def by blast
  have td: "wp_taskdata s' j = None \<longleftrightarrow> wp_taskdata s j = None" for j using s'(7) by (metis domIff)
  have cur: "wp_objs s' i = wp_objs s i" if "wp_current s w = Some i" for w i
    using inv(2) that s'(6) old unfolding running_inv_def by (metis less_irrefl)
  have one: "i < wp_next s' \<and> i \<notin> set (wp_tasks s') \<and> tk_args (wp_objs s' i) \<noteq> None \<and>
        w \<in> set (wp_workers s') \<union> set (wp_termworkers s') \<and> w \<notin> set (wp_idle s') \<and> w \<notin> wp_dead s' \<and>
        (\<forall>k. tk_id (wp_objs s' i) = Some k \<longrightarrow> wp_taskdata s' k = None)" if w: "wp_current s w = Some i" for w i
  proof -
    have "i < wp_next s \<and> i \<notin> set (wp_tasks s) \<and> tk_args (wp_objs s i) \<noteq> None \<and>
        w \<in> set (wp_workers s) \<union> set (wp_termworkers s) \<and> w \<notin> set (wp_idle s) \<and> w \<notin> wp_dead s \<and>
        (\<forall>k. tk_id (wp_objs s i) = Some k \<longrightarrow> wp_taskdata s k = None)"
      using w inv(2) unfolding running_inv_def by blast
    then show ?thesis using cur [OF w] tl unfolding s'(4,5) f td by auto
  qed
  have "w = w'" if "wp_current s w = Some i" "wp_current s w' = Some j"
      "i = j \<or> (tk_id (wp_objs s' i) = Some k \<and> tk_id (wp_objs s' j) = Some k)" for w w' i j k
    using that cur [OF that(1)] cur [OF that(2)] inv(2) unfolding running_inv_def by metis
  then have "running_inv s'" using one unfolding running_inv_def f(1) by blast
  then show thesis using that s'(1-3) wi ai by (auto simp: pool_inv_def)
qed

lemma queued_minus:
  assumes "tasks_inv s" "i \<in> live_refs s"
  shows "wp_objs s ` (live_refs s - {i}) = queued s - {wp_objs s i}"
proof -
  have "inj_on (wp_objs s) (live_refs s)"
    using assms(1) unfolding tasks_inv_def inj_on_def by metis
  from inj_on_image_set_diff [OF this, of "live_refs s" "{i}"] show ?thesis
    using assms(2) unfolding queued_def by auto
qed

lemma fetch_terminate:
  "wp_current s w = None \<Longrightarrow> w \<in> set (wp_termworkers s) \<Longrightarrow>
   worker_fetch w s = (Inr Terminate, s\<lparr>wp_dead := insert w (wp_dead s)\<rparr>)"
  by (simp add: worker_fetch_def WaitForTaskUnlocked.simps [of w s] ShouldWorkerTerminateUnlocked_def)

lemma fetch_inv:
  assumes "pool_inv s" "w \<in> set (wp_workers s)" "w \<notin> set (wp_idle s)" "wp_current s w = None"
  shows "\<exists>r s'. worker_fetch w s = (Inr r, s') \<and> pool_inv s' \<and> wp_quiescing s' = wp_quiescing s \<and>
    (if queued s = {} then r = MustWait
     else (\<exists>i. r = Task i \<and> wp_current s' w = Some i \<and> spec_take (wp_objs s i) (queued s) (queued s')))"
proof -
  have inv: "tasks_inv s" "running_inv s" "workers_inv s" "awake_inv s" using assms(1) by (auto simp: pool_inv_def)
  have nt: "\<not> ShouldWorkerTerminateUnlocked w s"
    using inv(3) assms(2) by (auto simp: workers_inv_def ShouldWorkerTerminateUnlocked_def)
  from WaitForTaskUnlocked_ok [OF inv(1) nt] obtain r s1 where r: "WaitForTaskUnlocked w s = (Inr r, s1)" "tasks_inv s1"
    "set (wp_tasks s1) \<subseteq> set (wp_tasks s)"
    "case r of
       Terminate \<Rightarrow> False
     | MustWait \<Rightarrow> queued s = {} \<and> queued s1 = {} \<and> wp_tasks s1 = [] \<and> wp_idle s1 = wp_idle s @ [w] \<and>
         wp_taskdata s1 = wp_taskdata s
     | Task i \<Rightarrow> i \<in> live_refs s \<and> live_refs s1 = live_refs s - {i} \<and> wp_idle s1 = wp_idle s \<and>
         (\<forall>j \<in> live_refs s. task_key (wp_objs s) i \<le> task_key (wp_objs s) j)"
    "s1 = s\<lparr>wp_tasks := wp_tasks s1, wp_taskdata := wp_taskdata s1, wp_idle := wp_idle s1\<rparr>" by blast
  have f: "wp_current s1 = wp_current s" "wp_workers s1 = wp_workers s" "wp_termworkers s1 = wp_termworkers s"
    "wp_dead s1 = wp_dead s" "wp_last_worker_id s1 = wp_last_worker_id s" "wp_next s1 = wp_next s"
    "wp_objs s1 = wp_objs s" "wp_quiescing s1 = wp_quiescing s" "wp_counter s1 = wp_counter s"
    by (subst r(5), simp)+
  have run: "\<And>v i. wp_current s v = Some i \<Longrightarrow>
      i < wp_next s \<and> i \<notin> set (wp_tasks s) \<and> tk_args (wp_objs s i) \<noteq> None \<and>
      v \<in> set (wp_workers s) \<union> set (wp_termworkers s) \<and> v \<notin> set (wp_idle s) \<and> v \<notin> wp_dead s \<and>
      (\<forall>k. tk_id (wp_objs s i) = Some k \<longrightarrow> wp_taskdata s k = None)"
    using inv(2) unfolding running_inv_def by blast
  show ?thesis
  proof (cases r)
    case Terminate
    then show ?thesis using r(4) by simp
  next
    case MustWait
    then have m: "queued s = {}" "wp_tasks s1 = []" "wp_idle s1 = wp_idle s @ [w]" "wp_taskdata s1 = wp_taskdata s"
      using r(4) by auto
    have "running_inv s1"
      using inv(2) assms(4) unfolding running_inv_def f m by (auto)
    moreover have "workers_inv s1"
      using inv(3) assms(2,3) unfolding workers_inv_def f m by auto
    moreover have "awake_inv s1" using m(2) by (simp add: awake_inv_def)
    ultimately show ?thesis
      using r MustWait m assms(4) f(8) by (auto simp: worker_fetch_def pool_inv_def)
  next
    case (Task i)
    then have t: "i \<in> live_refs s" "live_refs s1 = live_refs s - {i}" "wp_idle s1 = wp_idle s"
      "\<And>j. j \<in> live_refs s \<Longrightarrow> task_key (wp_objs s) i \<le> task_key (wp_objs s) j" using r(4) by auto
    define s' where "s' = s1\<lparr>wp_current := (wp_current s1)(w \<mapsto> i)\<rparr>"
    have f': "wp_current s' = (wp_current s)(w \<mapsto> i)" "wp_workers s' = wp_workers s" "wp_termworkers s' = wp_termworkers s"
      "wp_dead s' = wp_dead s" "wp_last_worker_id s' = wp_last_worker_id s" "wp_next s' = wp_next s"
      "wp_objs s' = wp_objs s" "wp_idle s' = wp_idle s" "wp_taskdata s' = wp_taskdata s1" "wp_tasks s' = wp_tasks s1"
      using f t(3) by (simp_all add: s'_def)
    have i: "i \<in> set (wp_tasks s)" "tk_args (wp_objs s i) \<noteq> None" "i < wp_next s"
      using t(1) inv(1) by (auto simp: live_refs_def tasks_inv_def)
    have it: "i \<notin> set (wp_tasks s1)"
      using t(2) i(2) f(7) by (auto simp: live_refs_def)
    have td1: "wp_taskdata s1 k = Some j \<longleftrightarrow> j \<in> live_refs s - {i} \<and> tk_id (wp_objs s j) = Some k" for k j
      using r(2) unfolding tasks_inv_def t(2) f(7) by blast
    have td: "wp_taskdata s k = Some j \<longleftrightarrow> j \<in> live_refs s \<and> tk_id (wp_objs s j) = Some k" for k j
      using inv(1) unfolding tasks_inv_def by blast
    have tdi: "wp_taskdata s1 k = None" if "tk_id (wp_objs s i) = Some k" for k
      using td1 [of k] td [of k i] td [of k] t(1) that by (metis Diff_iff insertI1 not_None_eq option.inject)
    have tdn: "wp_taskdata s1 k = None" if "wp_taskdata s k = None" for k
      using td1 [of k] td [of k] that by (metis Diff_iff not_None_eq)
    note sub = r(3)
    have "running_inv s'"
      unfolding running_inv_def f'
    proof (intro conjI allI impI)
      fix v j assume vj: "((wp_current s)(w \<mapsto> i)) v = Some j"
      show "j < wp_next s" "j \<notin> set (wp_tasks s1)" "tk_args (wp_objs s j) \<noteq> None"
        "v \<in> set (wp_workers s) \<union> set (wp_termworkers s)" "v \<notin> set (wp_idle s)" "v \<notin> wp_dead s"
        using vj run [of v j] i it sub assms(2,3) inv(3) by (auto simp: workers_inv_def split: if_splits)
      fix k assume "tk_id (wp_objs s j) = Some k"
      then show "wp_taskdata s1 k = None"
        using vj run [of v j] tdi tdn by (auto split: if_splits)
    next
      fix v v' j j' k
      assume a: "((wp_current s)(w \<mapsto> i)) v = Some j" "((wp_current s)(w \<mapsto> i)) v' = Some j'"
        "j = j' \<or> tk_id (wp_objs s j) = Some k \<and> tk_id (wp_objs s j') = Some k"
      have no: "x \<noteq> i \<and> \<not> (tk_id (wp_objs s x) = Some k \<and> tk_id (wp_objs s i) = Some k)" if "wp_current s u = Some x" for u x
        using run [OF that] i(1) t(1) td [of k i] by auto
      show "v = v'"
        using a no [of v j] no [of v' j'] inv(2) unfolding running_inv_def by (auto split: if_splits)
    qed
    moreover have "workers_inv s'" using inv(3) unfolding workers_inv_def f' .
    moreover have "awake_inv s'" using assms(2,3) unfolding awake_inv_def f' by blast
    moreover have "tasks_inv s'" using r(2) by (simp add: s'_def tasks_inv_def live_refs_def)
    moreover have "spec_take (wp_objs s i) (queued s) (queued s')"
    proof -
      have "queued s' = wp_objs s ` (live_refs s - {i})"
        using t(2) f(7) by (simp add: queued_def s'_def live_refs_def)
      then show ?thesis
        using queued_minus [OF inv(1) t(1)] t(1,4) by (auto simp: spec_take_def queued_def task_key_def)
    qed
    moreover have "worker_fetch w s = (Inr (Task i), s')"
      using r(1) Task assms(4) by (simp add: worker_fetch_def s'_def)
    moreover have "queued s \<noteq> {}" using t(1) by (auto simp: queued_def)
    moreover have "wp_quiescing s' = wp_quiescing s" using f(8) by (simp add: s'_def)
    ultimately show ?thesis using f'(1) by (auto simp: pool_inv_def)
  qed
qed


lemma pool_inv_SetTaskName [simp]: "pool_inv (SetTaskName w n s) = pool_inv s"
  by (simp add: pool_inv_def tasks_inv_def live_refs_def running_inv_def workers_inv_def awake_inv_def SetTaskName_def)

lemma queued_frame:
  "queued (SetTaskName w n s) = queued s" "queued (s\<lparr>wp_current := c\<rparr>) = queued s"
  by (simp_all add: queued_def live_refs_def SetTaskName_def)

lemma running_mono:
  assumes "running_inv s"
    and "\<And>w i. wp_current s' w = Some i \<Longrightarrow> wp_current s w = Some i \<and>
      w \<in> set (wp_workers s') \<union> set (wp_termworkers s') \<and> w \<notin> set (wp_idle s') \<and> w \<notin> wp_dead s'"
    and "wp_objs s' = wp_objs s" "wp_next s' = wp_next s" "wp_tasks s' = wp_tasks s" "wp_taskdata s' = wp_taskdata s"
  shows "running_inv s'"
proof -
  have "i < wp_next s' \<and> i \<notin> set (wp_tasks s') \<and> tk_args (wp_objs s' i) \<noteq> None \<and>
        w \<in> set (wp_workers s') \<union> set (wp_termworkers s') \<and> w \<notin> set (wp_idle s') \<and> w \<notin> wp_dead s' \<and>
        (\<forall>k. tk_id (wp_objs s' i) = Some k \<longrightarrow> wp_taskdata s' k = None)" if "wp_current s' w = Some i" for w i
    using assms(1) assms(2) [OF that] unfolding running_inv_def assms(3-6) by blast
  moreover have "w = w'" if "wp_current s' w = Some i" "wp_current s' w' = Some j"
    "i = j \<or> (tk_id (wp_objs s' i) = Some k \<and> tk_id (wp_objs s' j) = Some k)" for w w' i j k
    using assms(1) assms(2) [OF that(1)] assms(2) [OF that(2)] that(3) unfolding running_inv_def assms(3) by blast
  ultimately show ?thesis unfolding running_inv_def by blast
qed

lemma running_worker:
  "running_inv s \<Longrightarrow> wp_current s w = Some i \<Longrightarrow>
   w \<in> set (wp_workers s) \<union> set (wp_termworkers s) \<and> w \<notin> set (wp_idle s) \<and> w \<notin> wp_dead s"
  unfolding running_inv_def by blast

lemma running_shrink:
  assumes "running_inv s"
  shows "running_inv (s\<lparr>wp_current := (wp_current s)(w := None)\<rparr>)"
  using assms by (rule running_mono) (use running_worker [OF assms] in \<open>auto split: if_splits\<close>)

lemma finish_inv:
  assumes "pool_inv s" "wp_current s w = Some i"
  shows "\<exists>s'. worker_finish w out s = (Inr (), s') \<and> pool_inv s' \<and>
    queued s' = (case out of Deferred p \<Rightarrow>
        spec_add (the (tk_args (wp_objs s i))) (case p of None \<Rightarrow> tk_prio (wp_objs s i) | Some q \<Rightarrow> q)
          (tk_id (wp_objs s i)) (wp_counter s) (queued s)
      | _ \<Rightarrow> queued s)"
proof -
  define s1 where "s1 = SetTaskName w None s"
  have p1: "pool_inv s1" using assms(1) by (simp add: s1_def)
  have f1: "wp_current s1 = wp_current s" "wp_objs s1 = wp_objs s" "wp_taskdata s1 = wp_taskdata s" "wp_counter s1 = wp_counter s"
    by (simp_all add: s1_def SetTaskName_def)
  have r: "running_inv s" using assms(1) by (simp add: pool_inv_def)
  have i: "tk_args (wp_objs s i) \<noteq> None" "\<forall>k. tk_id (wp_objs s i) = Some k \<longrightarrow> wp_taskdata s k = None"
    using r assms(2) unfolding running_inv_def by blast+
  define s2 where "s2 = s1\<lparr>wp_current := (wp_current s1)(w := None)\<rparr>"
  have p2: "pool_inv s2"
    using p1 running_shrink [of s1 w]
    by (simp add: s2_def pool_inv_def tasks_inv_def live_refs_def workers_inv_def awake_inv_def)
  have q2: "queued s2 = queued s" by (simp add: s2_def s1_def queued_frame)
  show ?thesis
  proof (cases out)
    case (Deferred p)
    let ?tid = "tk_id (wp_objs s i)"
    let ?prio = "case p of None \<Rightarrow> tk_prio (wp_objs s i) | Some q \<Rightarrow> q"
    let ?args = "the (tk_args (wp_objs s i))"
    have "\<exists>s4. AddTaskUnlocked ?args ?prio ?tid s1 = (Inr (), s4) \<and> tasks_inv s4 \<and> workers_inv s4 \<and> awake_inv s4 \<and>
      running_inv (s4\<lparr>wp_current := (wp_current s4)(w := None)\<rparr>) \<and>
      queued s4 = spec_add ?args ?prio ?tid (wp_counter s1) (queued s1) \<and>
      wp_current s4 = wp_current s1 \<and> (\<forall>i. i < wp_next s1 \<longrightarrow> wp_objs s4 i = wp_objs s1 i) \<and>
      wp_taskdata s4 = (case ?tid of None \<Rightarrow> wp_taskdata s1 | Some k \<Rightarrow> (wp_taskdata s1)(k \<mapsto> wp_next s1)) \<and>
      wp_quiescing s4 = wp_quiescing s1"
    proof (rule AddTaskUnlocked_inv [OF p1])
      show "case ?tid of None \<Rightarrow> True | Some k \<Rightarrow> wp_taskdata s1 k = None"
        using i(2) f1 by (auto split: option.split)
      show "v = w" if "wp_current s1 v = Some j" "tk_id (wp_objs s1 j) = Some k" "?tid = Some k" for v j k
        using r assms(2) that unfolding running_inv_def f1 by blast
    qed
    then obtain s4 where s4: "AddTaskUnlocked ?args ?prio ?tid s1 = (Inr (), s4)" "tasks_inv s4" "workers_inv s4" "awake_inv s4"
      "running_inv (s4\<lparr>wp_current := (wp_current s4)(w := None)\<rparr>)"
      "queued s4 = spec_add ?args ?prio ?tid (wp_counter s1) (queued s1)" by blast
    define s5 where "s5 = s4\<lparr>wp_current := (wp_current s4)(w := None)\<rparr>"
    have "pool_inv s5"
      using s4(2-5) by (simp add: s5_def pool_inv_def tasks_inv_def live_refs_def workers_inv_def awake_inv_def)
    moreover have "worker_finish w out s = (Inr (), s5)"
      using assms(2) Deferred i(1) s4(1) f1
      by (cases p) (auto simp: worker_finish_def Let_def s1_def [symmetric] st_bind_def st_do_def s5_def)
    moreover have "queued s5 = spec_add ?args ?prio ?tid (wp_counter s) (queued s)"
      using s4(6) f1 by (simp add: s5_def queued_frame s1_def)
    ultimately show ?thesis using Deferred by auto
  next
    case Finished
    then have "worker_finish w out s = (Inr (), s2)"
      using assms(2) by (simp add: worker_finish_def Let_def s1_def [symmetric] st_bind_def st_do_def s2_def)
    with p2 q2 Finished show ?thesis by simp
  next
    case Raised
    then have "worker_finish w out s = (Inr (), s2)"
      using assms(2) by (simp add: worker_finish_def Let_def s1_def [symmetric] st_bind_def st_do_def s2_def)
    with p2 q2 Raised show ?thesis by simp
  qed
qed

lemma new_worker_inv:
  assumes "pool_inv s"
  shows "pool_inv (new_worker s)"
proof -
  let ?n = "Suc (wp_last_worker_id s)"
  have le: "w \<le> wp_last_worker_id s" if "w \<in> set (wp_workers s) \<union> set (wp_termworkers s) \<union> wp_dead s" for w
    using assms that unfolding pool_inv_def workers_inv_def by blast
  have nn: "?n \<notin> set (wp_workers s)" "?n \<notin> set (wp_termworkers s)" "?n \<notin> wp_dead s" using le by fastforce+
  have wi: "workers_inv s" using assms by (simp add: pool_inv_def)
  have "workers_inv (new_worker s)"
    using wi nn unfolding workers_inv_def by (auto simp: new_worker_def Let_def intro: le_SucI)
  moreover have "running_inv (new_worker s)"
  proof (rule running_mono)
    show r: "running_inv s" using assms by (simp add: pool_inv_def)
    show "wp_current s w = Some i \<and> w \<in> set (wp_workers (new_worker s)) \<union> set (wp_termworkers (new_worker s)) \<and>
        w \<notin> set (wp_idle (new_worker s)) \<and> w \<notin> wp_dead (new_worker s)" if "wp_current (new_worker s) w = Some i" for w i
      using that running_worker [OF r, of w i] by (auto simp: new_worker_def Let_def split: if_splits)
  qed (simp_all add: new_worker_def Let_def)
  moreover have "awake_inv (new_worker s)"
    using wi nn unfolding awake_inv_def workers_inv_def by (auto simp: new_worker_def Let_def)
  moreover have "tasks_inv (new_worker s)"
    using assms by (simp add: pool_inv_def tasks_inv_def live_refs_def new_worker_def Let_def)
  ultimately show ?thesis by (simp add: pool_inv_def)
qed

lemma new_workers_inv: "pool_inv s \<Longrightarrow> pool_inv ((new_worker ^^ n) s)"
  by (induction n) (auto intro: new_worker_inv)

lemma terminate_inv:
  assumes "pool_inv s"
  shows "pool_inv (notify_all_workers (s\<lparr>wp_workers := [], wp_termworkers := wp_termworkers s @ wp_workers s\<rparr>))"
proof -
  have r: "running_inv s" using assms by (simp add: pool_inv_def)
  have "running_inv (notify_all_workers (s\<lparr>wp_workers := [], wp_termworkers := wp_termworkers s @ wp_workers s\<rparr>))"
    using r by (rule running_mono) (auto simp: notify_all_workers_def dest: running_worker [OF r])
  then show ?thesis
    using assms by (auto simp: pool_inv_def tasks_inv_def live_refs_def workers_inv_def awake_inv_def notify_all_workers_def)
qed

lemma Resize_inv: "pool_inv s \<Longrightarrow> pool_inv (snd (Resize_begin n s))"
  by (auto simp: Resize_begin_def Let_def terminate_inv new_workers_inv)


lemma remove_dead_inv: "pool_inv s \<Longrightarrow> pool_inv (snd (remove_dead ws s))"
proof (induction ws arbitrary: s)
  case Nil
  then show ?case by (simp add: st_assert_def)
next
  case (Cons w ws)
  let ?s = "if w \<in> wp_dead s then s\<lparr>wp_termworkers := remove1 w (wp_termworkers s)\<rparr> else s"
  have r: "running_inv s" using Cons.prems by (simp add: pool_inv_def)
  have mem: "v \<in> set (wp_workers ?s) \<union> set (wp_termworkers ?s)" if "wp_current s v = Some i" for v i
  proof -
    have "v \<noteq> w \<or> w \<notin> wp_dead s" using running_worker [OF r that] by blast
    then show ?thesis using running_worker [OF r that] in_set_remove1 [of v w] by auto
  qed
  have "running_inv ?s"
  proof (rule running_mono [OF r])
    fix v i assume "wp_current ?s v = Some i"
    then have c: "wp_current s v = Some i" by (simp split: if_splits)
    show "wp_current s v = Some i \<and> v \<in> set (wp_workers ?s) \<union> set (wp_termworkers ?s) \<and>
        v \<notin> set (wp_idle ?s) \<and> v \<notin> wp_dead ?s"
      using c mem [OF c] running_worker [OF r c] by simp
  qed simp_all
  then have "pool_inv ?s"
    using Cons.prems set_remove1_subset [of w "wp_termworkers s"]
    by (auto simp: pool_inv_def tasks_inv_def live_refs_def workers_inv_def awake_inv_def)
  then show ?case
    using Cons by (simp add: st_bind_def st_assert_def st_do_def)
qed

section \<open>All interleavings\<close>

text \<open>
  The users of the pool keep the contract of \<^verbatim>\<open>AddTask\<close>: the ID of a new task is not that of
  a queued or running one. A queued task is given a priority that none of its entries in the
  heap has.
\<close>

definition fresh_prio :: "int \<Rightarrow> int \<Rightarrow> 'a pool \<Rightarrow> bool" where
  "fresh_prio k prio s \<longleftrightarrow>
     (case wp_taskdata s k of
        None \<Rightarrow> True
      | Some old \<Rightarrow> (prio, tk_order (wp_objs s old)) \<notin> task_key (wp_objs s) ` set (wp_tasks s))"

inductive pool_step :: "'a pool \<Rightarrow> 'a pool \<Rightarrow> bool" where
  add_call: "AddTask args prio tid s = Some (r, s') \<Longrightarrow> id_free tid s \<Longrightarrow> pool_step s s'"
| change_call: "fresh_prio k prio s \<Longrightarrow> pool_step s (snd (ChangeTaskPriority k prio s))"
| fetch_round: "w \<in> set (wp_workers s) \<union> set (wp_termworkers s) \<Longrightarrow> w \<notin> set (wp_idle s) \<Longrightarrow> w \<notin> wp_dead s \<Longrightarrow>
    wp_current s w = None \<Longrightarrow> pool_step s (snd (worker_fetch w s))"
| finish_round: "wp_current s w = Some i \<Longrightarrow> pool_step s (snd (worker_finish w out s))"
| name_call: "pool_step s (SetTaskName w n s)"
| quiesce_start: "pool_step s (Quiesce_begin s)"
| quiesce_done: "Quiesce_end s = Some s' \<Longrightarrow> pool_step s s'"
| resize_call: "pool_step s (snd (Resize_begin n s))"
| resize_done: "Resize_join ws s = Some (r, s') \<Longrightarrow> pool_step s s'"

lemma quiescing_inv [simp]: "pool_inv (s\<lparr>wp_quiescing := b\<rparr>) = pool_inv s"
  by (simp add: pool_inv_def tasks_inv_def live_refs_def running_inv_def workers_inv_def awake_inv_def)

lemma fetch_dead_inv:
  assumes "pool_inv s" "w \<in> set (wp_termworkers s)" "wp_current s w = None"
  shows "pool_inv (s\<lparr>wp_dead := insert w (wp_dead s)\<rparr>)"
proof -
  have r: "running_inv s" using assms by (simp add: pool_inv_def)
  have "running_inv (s\<lparr>wp_dead := insert w (wp_dead s)\<rparr>)"
    using r by (rule running_mono) (use running_worker [OF r] assms(3) in auto)
  then show ?thesis
    using assms by (auto simp: pool_inv_def tasks_inv_def live_refs_def workers_inv_def awake_inv_def)
qed

lemma pool_step_inv:
  assumes "pool_inv s" "pool_step s s'"
  shows "pool_inv s'"
  using assms(2)
proof cases
  case (add_call args prio tid r)
  from add_inv [OF assms(1) add_call(2), of args prio] obtain s1 where
    "AddTaskUnlocked args prio tid s = (Inr (), s1)" "pool_inv s1" by metis
  with add_call(1) show ?thesis by (auto simp: AddTask_def split: if_splits)
next
  case (change_call k prio)
  show ?thesis
  proof (cases "wp_taskdata s k")
    case None
    then show ?thesis using change_call assms(1) by (simp add: ChangeTaskPriority_def)
  next
    case (Some old)
    then have "(prio, tk_order (wp_objs s old)) \<notin> task_key (wp_objs s) ` set (wp_tasks s)"
      using change_call(2) by (simp add: fresh_prio_def)
    from change_inv [OF assms(1) Some this] obtain s1 where "ChangeTaskPriority k prio s = (Inr (), s1)" "pool_inv s1" by metis
    then show ?thesis using change_call(1) by simp
  qed
next
  case (fetch_round w)
  show ?thesis
  proof (cases "w \<in> set (wp_termworkers s)")
    case True
    then show ?thesis using fetch_round(1,5) fetch_dead_inv [OF assms(1) True] by (simp add: fetch_terminate)
  next
    case False
    then have "w \<in> set (wp_workers s)" using fetch_round(2) by blast
    from fetch_inv [OF assms(1) this fetch_round(3,5)] obtain r s1 where "worker_fetch w s = (Inr r, s1)" "pool_inv s1" by blast
    then show ?thesis using fetch_round(1) by simp
  qed
next
  case (finish_round w i out)
  from finish_inv [OF assms(1) finish_round(2), of out] obtain s1 where "worker_finish w out s = (Inr (), s1)" "pool_inv s1" by blast
  then show ?thesis using finish_round(1) by simp
next
  case (name_call w n)
  then show ?thesis using assms(1) by simp
next
  case quiesce_start
  then show ?thesis using assms(1) by (simp add: Quiesce_begin_def)
next
  case quiesce_done
  then show ?thesis using assms(1) by (auto simp: Quiesce_end_def split: if_splits)
next
  case (resize_call n)
  then show ?thesis using assms(1) by (simp add: Resize_inv)
next
  case (resize_done ws r)
  then show ?thesis using assms(1) remove_dead_inv [OF assms(1), of ws] by (auto simp: Resize_join_def split: if_splits)
qed

definition pool_start :: "'a pool \<Rightarrow> bool" where
  "pool_start s \<longleftrightarrow> (\<exists>name n. s = WorkerPool name n)"

lemma empty_pool_inv: "pool_inv (empty_pool name)"
  by (simp add: empty_pool_def pool_inv_def tasks_inv_def live_refs_def running_inv_def workers_inv_def awake_inv_def)

interpretation pool_life: inductive_invariant pool_start pool_step pool_inv
proof
  show "pool_inv s" if "pool_start s" for s :: "'a pool"
    using that empty_pool_inv by (auto simp: pool_start_def WorkerPool_def intro: Resize_inv)
  show "pool_inv s'" if "pool_inv s" "pool_step s s'" for s s' :: "'a pool"
    using that by (rule pool_step_inv)
qed

lemma pool_reachable_inv: "pool_step\<^sup>*\<^sup>* (WorkerPool name n) s \<Longrightarrow> pool_inv s"
  by (rule pool_life.inv_reachable) (auto simp: pool_start_def)

section \<open>Properties\<close>

text \<open>A pool with two workers and two queued tasks.\<close>

definition demo_pool :: "string pool" where
  "demo_pool =
     snd (AddTaskUnlocked ''b'' (-1) (Some 7) (snd (AddTaskUnlocked ''a'' 0 (Some 3) (WorkerPool ''Pool'' 2))))"

lemma demo_pool_reachable: "pool_step\<^sup>*\<^sup>* (WorkerPool ''Pool'' 2) demo_pool"
proof -
  let ?s = "snd (AddTaskUnlocked ''a'' 0 (Some 3) (WorkerPool ''Pool'' 2))"
  have cur: "wp_current (WorkerPool ''Pool'' 2 :: string pool) = Map.empty"
    by (simp add: WorkerPool_def Resize_begin_def empty_pool_def new_worker_def Let_def eval_nat_numeral)
  have cur2: "wp_current ?s = Map.empty"
    using cur by (simp add: AddTaskUnlocked_def push_task_def Let_def notify_worker_def split: prod.splits)
  have "pool_step (WorkerPool ''Pool'' 2) ?s"
  proof (rule add_call [where r = "fst (AddTaskUnlocked ''a'' 0 (Some 3) (WorkerPool ''Pool'' 2))"])
    show "AddTask ''a'' 0 (Some 3) (WorkerPool ''Pool'' 2) =
      Some (fst (AddTaskUnlocked ''a'' 0 (Some 3) (WorkerPool ''Pool'' 2)), ?s)"
      by (simp add: AddTask_def WorkerPool_def Resize_begin_def empty_pool_def new_worker_def Let_def eval_nat_numeral)
    have "wp_taskdata (WorkerPool ''Pool'' 2 :: string pool) 3 = None" by code_simp
    then show "id_free (Some 3) (WorkerPool ''Pool'' 2 :: string pool)" using cur by (simp add: id_free_def)
  qed
  moreover have "pool_step ?s demo_pool"
  proof (rule add_call [where r = "fst (AddTaskUnlocked ''b'' (-1) (Some 7) ?s)"])
    have "wp_quiescing ?s = False" by code_simp
    then show "AddTask ''b'' (-1) (Some 7) ?s = Some (fst (AddTaskUnlocked ''b'' (-1) (Some 7) ?s), demo_pool)"
      by (simp add: AddTask_def demo_pool_def)
    have "wp_taskdata ?s 7 = None" by code_simp
    then show "id_free (Some 7) ?s" using cur2 by (simp add: id_free_def)
  qed
  ultimately show ?thesis by (meson rtranclp.rtrancl_refl rtranclp.rtrancl_into_rtrancl)
qed







text \<open>\<^verbatim>\<open>Quiesce\<close> returns exactly in the states in which the task heap is empty and no
  thread runs a task; until then new tasks have to wait.\<close>

theorem pool_quiesce:
  assumes "pool_step\<^sup>*\<^sup>* (WorkerPool name n) s" "wp_quiescing s"
  shows "(Quiesce_end s \<noteq> None \<longleftrightarrow> wp_tasks s = [] \<and> (\<forall>w. wp_current s w = None)) \<and>
    AddTask args prio tid s = None"
proof -
  have "running_inv s" using pool_reachable_inv [OF assms(1)] by (simp add: pool_inv_def)
  then have "HasRunningTasksUnlocked s \<longleftrightarrow> (\<exists>w. wp_current s w \<noteq> None)"
    using running_worker [of s]
    by (fastforce simp: HasRunningTasksUnlocked_def HasRunningTaskUnlocked_def list_ex_iff)
  then show ?thesis using assms(2) by (auto simp: Quiesce_end_def AddTask_def)
qed

theorem pool_quiesce_witness:
  "wp_quiescing (Quiesce_begin demo_pool) \<and> Quiesce_end (Quiesce_begin demo_pool) = None \<and>
   AddTask ''c'' 0 None (Quiesce_begin demo_pool) = None"
proof -
  have r: "pool_step\<^sup>*\<^sup>* (WorkerPool ''Pool'' 2) (Quiesce_begin demo_pool)"
    using demo_pool_reachable quiesce_start by (rule rtranclp.rtrancl_into_rtrancl)
  have q: "wp_quiescing (Quiesce_begin demo_pool)" by (simp add: Quiesce_begin_def)
  have "wp_tasks (Quiesce_begin demo_pool) \<noteq> []" by code_simp
  then show ?thesis using pool_quiesce [OF r q, of "''c''" 0 None] q by simp
qed

lemma add_tasks_None:
  assumes "pool_inv s"
  shows "\<exists>s'. add_tasks (zip ts (zip (replicate (length ts) p) (replicate (length ts) None))) s = (Inr (), s') \<and>
    pool_inv s' \<and> queued s' = queued s \<union>
      (\<lambda>(j, a). \<lparr>tk_prio = p, tk_order = j, tk_id = None, tk_args = Some a\<rparr>) ` set (enumerate (wp_counter s) ts)"
  using assms
proof (induction ts arbitrary: s)
  case Nil
  then show ?case by (simp add: st_return_def)
next
  case (Cons a ts)
  have "id_free None s" by (simp add: id_free_def)
  from AddTaskUnlocked_ok [of s None a p] Cons.prems have c: "wp_counter (snd (AddTaskUnlocked a p None s)) = Suc (wp_counter s)"
    by (auto simp: pool_inv_def)
  from add_inv [OF Cons.prems \<open>id_free None s\<close>, of a p] obtain s1 where s1: "AddTaskUnlocked a p None s = (Inr (), s1)"
    "pool_inv s1" "queued s1 = spec_add a p None (wp_counter s) (queued s)" by metis
  from Cons.IH [OF s1(2)] obtain s' where
    "add_tasks (zip ts (zip (replicate (length ts) p) (replicate (length ts) None))) s1 = (Inr (), s')" "pool_inv s'"
    "queued s' = queued s1 \<union>
      (\<lambda>(j, a). \<lparr>tk_prio = p, tk_order = j, tk_id = None, tk_args = Some a\<rparr>) ` set (enumerate (wp_counter s1) ts)" by blast
  then show ?case using s1 c by (auto simp: st_bind_def spec_add_def)
qed

text \<open>\<^verbatim>\<open>AddManyTasks\<close> with one priority and no task IDs adds all its tasks, ordered as they
  are listed; with lists of the wrong length it raises \<^verbatim>\<open>ProgrammerError\<close> and adds nothing.\<close>

theorem pool_add_many:
  assumes "pool_step\<^sup>*\<^sup>* (WorkerPool name n) s" "\<not> wp_quiescing s" "length ps \<noteq> length ts"
  shows "(\<exists>s'. AddManyTasks ts (Inl p) None s = Some (Inr (), s') \<and>
      queued s' = queued s \<union>
        (\<lambda>(j, a). \<lparr>tk_prio = p, tk_order = j, tk_id = None, tk_args = Some a\<rparr>) ` set (enumerate (wp_counter s) ts)) \<and>
    (\<exists>msg. AddManyTasks ts (Inr ps) ids s = Some (Inl (ProgrammerError msg), s))"
  using add_tasks_None [OF pool_reachable_inv [OF assms(1)], of ts p] assms(2,3)
  by (auto simp: AddManyTasks_def Let_def)

theorem pool_add_many_witness:
  "\<exists>s'. AddManyTasks [''c'', ''d''] (Inl 4) None demo_pool = Some (Inr (), s') \<and>
     queued s' = queued demo_pool \<union>
       {\<lparr>tk_prio = 4, tk_order = 2, tk_id = None, tk_args = Some ''c''\<rparr>,
        \<lparr>tk_prio = 4, tk_order = 3, tk_id = None, tk_args = Some ''d''\<rparr>}"
proof -
  have q: "\<not> wp_quiescing demo_pool" and c: "wp_counter demo_pool = 2" by code_simp+
  show ?thesis
    using pool_add_many [OF demo_pool_reachable q, of "[]" "[''c'', ''d'']" 4 None] c by (simp add: eval_nat_numeral)
qed



end
