(* ===== verification/Uid_Pool.thy ===== *)
theory Uid_Pool
  imports Main "HOL-Library.Product_Lexorder" "HOL-Library.Multiset" Ganeti_Prelude
begin

text \<open>
  The user-id pool of \<^verbatim>\<open>lib/uidpool.py\<close>: parsing and formatting of pool definitions, adding
  and removing ranges, the sanity check and the expansion to user-ids, and the choice of an
  unused user-id, which is locked through a file of its own.

  Error messages keep their constant part. The limits \<^verbatim>\<open>UIDPOOL_UID_MIN\<close> and
  \<^verbatim>\<open>UIDPOOL_UID_MAX\<close> come from generated constants and are arguments. The lock directory,
  the locks that other processes hold and the exit code of \<^verbatim>\<open>pgrep\<close> are the environment; the
  order of a Python set and of \<^verbatim>\<open>random.shuffle\<close> is an argument that lists the elements of a
  set in some order.

  What is formatted is parsed again to the same ranges, an accepted pool expands to exactly
  the user-ids between its boundaries, and a requested user-id is one of the pool that no
  process uses and nobody else has locked, if there is one.
\<close>

section \<open>Definitions of pools\<close>

type_synonym uid_range = "int \<times> int"

definition parse_range :: "string \<Rightarrow> uid_range res" where
  "parse_range range_def =
     (let boundaries = split_char (CHR ''-'') range_def
      in if length boundaries > 2
         then Inl (OpPrereqError ''Invalid user-id range definition. Only one hyphen allowed'')
         else (case py_int (hd boundaries) of
                 None \<Rightarrow> Inl (OpPrereqError ''Invalid user-id value for lower boundary of user-id range'')
               | Some lower \<Rightarrow>
                   (case py_int (last boundaries) of
                      None \<Rightarrow> Inl (OpPrereqError ''Invalid user-id value for higher boundary of user-id range'')
                    | Some higher \<Rightarrow> Inr (lower, higher))))"

fun parse_ranges :: "string list \<Rightarrow> uid_range list res" where
  "parse_ranges [] = Inr []"
| "parse_ranges (d # ds) =
     (if d = [] then parse_ranges ds
      else res_bind (parse_range d) (\<lambda>r. res_bind (parse_ranges ds) (\<lambda>rs. Inr (r # rs))))"

definition ParseUidPool :: "string \<Rightarrow> char option \<Rightarrow> uid_range list res" where
  "ParseUidPool value separator =
     res_bind (parse_ranges (split_char (case separator of None \<Rightarrow> CHR '','' | Some c \<Rightarrow> c) value))
       (\<lambda>ranges. Inr (sort ranges))"

fun add_ranges :: "uid_range list \<Rightarrow> uid_range list \<Rightarrow> uid_range list" where
  "add_ranges pool [] = pool"
| "add_ranges pool (r # rs) = add_ranges (if r \<in> set pool then pool else pool @ [r]) rs"

definition AddToUidPool :: "uid_range list \<Rightarrow> uid_range list \<Rightarrow> uid_range list" where
  "AddToUidPool uid_pool add_uids = sort (add_ranges uid_pool add_uids)"

text \<open>\<^verbatim>\<open>RemoveFromUidPool\<close> changes the list in place, also when it raises.\<close>

fun RemoveFromUidPool :: "uid_range list \<Rightarrow> (uid_range list, unit) meth" where
  "RemoveFromUidPool [] pool = (Inr (), pool)"
| "RemoveFromUidPool (r # rs) pool =
     (if r \<notin> set pool
      then (Inl (OpPrereqError ''User-id range to be removed is not found in the current user-id pool''), pool)
      else RemoveFromUidPool rs (remove1 r pool))"

definition FormatUidRange :: "int \<Rightarrow> int \<Rightarrow> string" where
  "FormatUidRange lower higher =
     (if lower = higher then int_str lower else int_str lower @ ''-'' @ int_str higher)"

definition FormatUidPool :: "uid_range list \<Rightarrow> string option \<Rightarrow> string" where
  "FormatUidPool uid_pool separator =
     join_str (case separator of None \<Rightarrow> '', '' | Some s \<Rightarrow> s) (map (\<lambda>(l, h). FormatUidRange l h) uid_pool)"

fun CheckUidPool :: "int \<Rightarrow> int \<Rightarrow> uid_range list \<Rightarrow> unit res" where
  "CheckUidPool uid_min uid_max [] = Inr ()"
| "CheckUidPool uid_min uid_max ((lower, higher) # rs) =
     (if lower > higher
      then Inl (OpPrereqError ''Lower user-id range boundary value is larger than higher boundary value'')
      else if lower < uid_min
      then Inl (OpPrereqError ''Lower user-id range boundary value is smaller than UIDPOOL_UID_MIN'')
      else if higher > uid_max
      then Inl (OpPrereqError ''Higher user-id boundary value is larger than UIDPOOL_UID_MAX'')
      else CheckUidPool uid_min uid_max rs)"

definition ExpandUidPool :: "uid_range list \<Rightarrow> int set" where
  "ExpandUidPool uid_pool = (\<Union>(lower, higher) \<in> set uid_pool. {lower..higher})"

section \<open>Requesting a user-id\<close>

text \<open>
  The state that outlives a call: the names in the lock directory and the user-ids whose
  lock files this process has locked. The environment: whether the lock directory can be
  created and listed, which lock files can be opened, which are locked by others, on which
  locking fails for another reason, and what \<^verbatim>\<open>pgrep\<close> reports.
\<close>

record uid_state =
  us_files :: "string set"
  us_held :: "int set"

record uid_env =
  ue_ensure_ok :: bool
  ue_list_ok :: bool
  ue_open_ok :: "int \<Rightarrow> bool"
  ue_locked :: "int \<Rightarrow> bool"
  ue_flock_fails :: "int \<Rightarrow> bool"
  ue_pgrep :: "int \<Rightarrow> int"

definition IsUidUsed :: "uid_env \<Rightarrow> int \<Rightarrow> bool res" where
  "IsUidUsed env uid =
     (if ue_pgrep env uid = 0 then Inr True
      else if ue_pgrep env uid = 1 then Inr False
      else Inl (OtherError ''CommandError: Running pgrep failed''))"

fun try_uids :: "uid_env \<Rightarrow> int list \<Rightarrow> (uid_state, int) meth" where
  "try_uids env [] s = (Inl (LockError ''Failed to find an unused user-id''), s)"
| "try_uids env (uid # uids) s =
     (if \<not> ue_open_ok env uid then (Inl (LockError ''Failed to create lockfile for user-id''), s)
      else
        let s1 = s\<lparr>us_files := insert (int_str uid) (us_files s)\<rparr>
        in if ue_locked env uid \<or> ue_flock_fails env uid then try_uids env uids s1
           else
             (case IsUidUsed env uid of
                Inl e \<Rightarrow> (Inl e, s1)
              | Inr used \<Rightarrow>
                  if used then try_uids env uids s1
                  else (Inr uid, s1\<lparr>us_held := insert uid (us_held s1)\<rparr>)))"

definition taken_uids :: "int set \<Rightarrow> string set \<Rightarrow> int set" where
  "taken_uids all_uids files = {u \<in> all_uids. \<exists>f \<in> files. py_int f = Some u}"

definition RequestUnusedUid :: "(int set \<Rightarrow> int list) \<Rightarrow> uid_env \<Rightarrow> int set \<Rightarrow> (uid_state, int) meth" where
  "RequestUnusedUid listing env all_uids s =
     (if \<not> ue_ensure_ok env then (Inl (LockError ''Failed to create user-id pool lock dir''), s)
      else if \<not> ue_list_ok env then (Inl (LockError ''Failed to get list of used user-ids''), s)
      else
        let taken = taken_uids all_uids (us_files s)
        in try_uids env (listing (all_uids - taken) @ listing taken) s)"

text \<open>Unlocking closes the file; releasing removes it as well.\<close>

definition unlock_uid :: "int \<Rightarrow> uid_state \<Rightarrow> uid_state" where
  "unlock_uid uid s = s\<lparr>us_held := us_held s - {uid}\<rparr>"

definition ReleaseUid :: "int \<Rightarrow> (uid_state, unit) meth" where
  "ReleaseUid uid s =
     (let s1 = unlock_uid uid s
      in if int_str uid \<in> us_files s1 then (Inr (), s1\<lparr>us_files := us_files s1 - {int_str uid}\<rparr>)
         else (Inl (LockError ''Failed to remove user-id lockfile''), s1))"

definition ExecWithUnusedUid ::
  "(int \<Rightarrow> 'r res) \<Rightarrow> (int set \<Rightarrow> int list) \<Rightarrow> uid_env \<Rightarrow> int set \<Rightarrow> (uid_state, 'r) meth" where
  "ExecWithUnusedUid fn listing env all_uids =
     st_bind (RequestUnusedUid listing env all_uids) (\<lambda>uid s.
       case fn uid of
         Inl e \<Rightarrow> st_bind (ReleaseUid uid) (\<lambda>_. st_raise e) s
       | Inr v \<Rightarrow> (Inr v, unlock_uid uid s))"

section \<open>Formatting and parsing\<close>

lemma split_join_prefix:
  assumes "ws \<noteq> []" "\<And>w. w \<in> set ws \<Longrightarrow> c \<notin> set w" "c \<notin> set pre"
  shows "split_char c (join_str (c # pre) ws) = hd ws # map (\<lambda>w. pre @ w) (tl ws)"
  using assms(1,2)
proof (induction ws)
  case (Cons w ws)
  have pre: "split_char c (pre @ cs) = (pre @ hd (split_char c cs)) # tl (split_char c cs)" for cs
    using assms(3) by (induction pre) (auto split: list.splits)
  show ?case
  proof (cases ws)
    case Nil
    with Cons.prems show ?thesis by (simp add: split_char_no_sep)
  next
    case (Cons v vs)
    with Cons.IH Cons.prems pre show ?thesis by (simp add: split_char_append)
  qed
qed simp

lemma int_str_nonneg: "0 \<le> i \<Longrightarrow> int_str i = nat_str (nat i)"
  by (simp add: int_str_def)

lemma nat_str_no_hyphen: "CHR ''-'' \<notin> set (nat_str n)"
  using nat_str_digits [of "CHR ''-''" n] by (auto simp: is_digit_char_def)

lemma FormatUidRange_chars:
  assumes "0 \<le> l" "0 \<le> h" "c \<in> set (FormatUidRange l h)"
  shows "is_digit_char c \<or> c = CHR ''-''"
  using assms nat_str_digits by (auto simp: FormatUidRange_def int_str_nonneg split: if_splits)

lemma parse_FormatUidRange:
  assumes "0 \<le> l" "0 \<le> h"
  shows "parse_range (FormatUidRange l h) = Inr (l, h)" "parse_range (CHR '' '' # FormatUidRange l h) = Inr (l, h)"
proof -
  let ?a = "nat_str (nat l)"
  let ?b = "nat_str (nat h)"
  have s: "split_char (CHR ''-'') (pre @ ?a @ ''-'' @ ?b) = [pre @ ?a, ?b]" if "CHR ''-'' \<notin> set pre" for pre
    using split_char_append [of "CHR ''-''" "pre @ ?a" ?b] that nat_str_no_hyphen by (simp add: split_char_no_sep)
  have t: "split_char (CHR ''-'') (pre @ ?a) = [pre @ ?a]" if "CHR ''-'' \<notin> set pre" for pre
    using that nat_str_no_hyphen by (simp add: split_char_no_sep)
  show "parse_range (FormatUidRange l h) = Inr (l, h)"
    using s [of "[]"] t [of "[]"] assms by (auto simp: parse_range_def FormatUidRange_def int_str_nonneg)
  show "parse_range (CHR '' '' # FormatUidRange l h) = Inr (l, h)"
    using s [of "'' ''"] t [of "'' ''"] assms by (auto simp: parse_range_def FormatUidRange_def int_str_nonneg)
qed

lemma FormatUidRange_nonempty: "FormatUidRange l h \<noteq> []"
  by (simp add: FormatUidRange_def int_str_def)

lemma parse_ranges_format:
  assumes "\<And>l h. (l, h) \<in> set pool \<Longrightarrow> 0 \<le> l \<and> 0 \<le> h" "pre = [] \<or> pre = '' ''"
  shows "parse_ranges (map (\<lambda>w. pre @ w) (map (\<lambda>(l, h). FormatUidRange l h) pool)) = Inr pool"
  using assms(1)
proof (induction pool)
  case (Cons r pool)
  obtain l h where r: "r = (l, h)" by (cases r)
  then have lh: "0 \<le> l" "0 \<le> h" using Cons.prems [of l h] by auto
  have "parse_ranges (map (\<lambda>w. pre @ w) (map (\<lambda>(l, h). FormatUidRange l h) pool)) = Inr pool"
    using Cons.prems by (intro Cons.IH) auto
  with lh assms(2) r show ?case
    using parse_FormatUidRange [of l h] FormatUidRange_nonempty [of l h] by auto
qed simp

lemma ParseUidPool_format:
  assumes "\<And>l h. (l, h) \<in> set pool \<Longrightarrow> 0 \<le> l \<and> 0 \<le> h"
    and "pre = [] \<or> pre = '' ''" "\<not> is_digit_char c" "c \<noteq> CHR ''-''" "c \<noteq> CHR '' ''"
  shows "parse_ranges (split_char c (FormatUidPool pool (Some (c # pre)))) = Inr pool"
proof (cases pool)
  case Nil
  then show ?thesis by (simp add: FormatUidPool_def)
next
  case (Cons r rs)
  let ?ws = "map (\<lambda>(l, h). FormatUidRange l h) pool"
  have "c \<notin> set w" if "w \<in> set ?ws" for w
    using that assms(1,3,4) FormatUidRange_chars by fastforce
  moreover have "c \<notin> set pre" using assms(2,5) by auto
  ultimately have "split_char c (FormatUidPool pool (Some (c # pre))) = hd ?ws # map (\<lambda>w. pre @ w) (tl ?ws)"
    unfolding FormatUidPool_def option.case using Cons by (intro split_join_prefix) auto
  moreover have "parse_ranges (hd ?ws # map (\<lambda>w. pre @ w) (tl ?ws)) = Inr pool"
  proof -
    obtain l h where r: "r = (l, h)" by (cases r)
    have "parse_ranges (map (\<lambda>w. pre @ w) (map (\<lambda>(l, h). FormatUidRange l h) rs)) = Inr rs"
      using assms(1,2) Cons by (intro parse_ranges_format) auto
    moreover have "parse_range (FormatUidRange l h) = Inr (l, h)"
      using assms(1) [of l h] Cons r by (intro parse_FormatUidRange) auto
    ultimately show ?thesis using Cons r FormatUidRange_nonempty [of l h] by simp
  qed
  ultimately show ?thesis by simp
qed

section \<open>The choice of a user-id\<close>

lemma try_uids_ok:
  assumes "try_uids env uids s = (Inr uid, s')"
  shows "\<exists>pre post. uids = pre @ uid # post \<and>
    (\<forall>u \<in> set pre. ue_locked env u \<or> ue_flock_fails env u \<or> ue_pgrep env u = 0) \<and>
    \<not> ue_locked env uid \<and> \<not> ue_flock_fails env uid \<and> ue_pgrep env uid = 1 \<and>
    us_held s' = insert uid (us_held s) \<and> us_files s' = us_files s \<union> int_str ` set (pre @ [uid])"
  using assms
proof (induction uids arbitrary: s)
  case Nil
  then show ?case by simp
next
  case (Cons u us)
  let ?s1 = "s\<lparr>us_files := insert (int_str u) (us_files s)\<rparr>"
  have o: "ue_open_ok env u" using Cons.prems by (auto split: if_splits)
  show ?case
  proof (cases "ue_locked env u \<or> ue_flock_fails env u \<or> ue_pgrep env u = 0")
    case True
    have "try_uids env us ?s1 = (Inr uid, s')"
      using Cons.prems True o by (auto simp: Let_def IsUidUsed_def split: if_splits)
    then obtain pre post where "us = pre @ uid # post"
      "\<forall>u \<in> set pre. ue_locked env u \<or> ue_flock_fails env u \<or> ue_pgrep env u = 0"
      "\<not> ue_locked env uid" "\<not> ue_flock_fails env uid" "ue_pgrep env uid = 1"
      "us_held s' = insert uid (us_held s)" "us_files s' = insert (int_str u) (us_files s) \<union> int_str ` set (pre @ [uid])"
      using Cons.IH [of ?s1] by auto
    then show ?thesis using True by (intro exI [of _ "u # pre"] exI [of _ post]) auto
  next
    case False
    then have "uid = u" "s' = ?s1\<lparr>us_held := insert u (us_held s)\<rparr>" "ue_pgrep env u = 1"
      using Cons.prems o by (auto simp: Let_def IsUidUsed_def split: if_splits)
    with False show ?thesis by (intro exI [of _ "[]"] exI [of _ us]) auto
  qed
qed

lemma try_uids_finds:
  assumes "u \<in> set uids" "\<not> ue_locked env u" "\<not> ue_flock_fails env u" "ue_pgrep env u = 1"
    and "\<And>v. v \<in> set uids \<Longrightarrow> ue_open_ok env v \<and> (ue_pgrep env v = 0 \<or> ue_pgrep env v = 1)"
  shows "\<exists>uid s'. try_uids env uids s = (Inr uid, s')"
  using assms(1,5)
proof (induction uids arbitrary: s)
  case (Cons v vs)
  then show ?case using assms(2-4) by (cases "v = u") (auto simp: Let_def IsUidUsed_def)
qed simp


section \<open>Properties\<close>

text \<open>C29: what \<^verbatim>\<open>FormatUidPool\<close> writes, \<^verbatim>\<open>ParseUidPool\<close> reads back as the same ranges in order,
  for pools of non-negative boundaries: with the default separators, which differ by a
  space, and with the line break that is used for the simple configuration store.\<close>

theorem uid_pool_roundtrip:
  assumes "\<And>l h. (l, h) \<in> set pool \<Longrightarrow> 0 \<le> l \<and> 0 \<le> h"
  shows "ParseUidPool (FormatUidPool pool None) None = Inr (sort pool) \<and>
    ParseUidPool (FormatUidPool pool (Some [CHR 0x0A])) (Some (CHR 0x0A)) = Inr (sort pool)"
proof -
  have "FormatUidPool pool None = FormatUidPool pool (Some (CHR '','' # '' ''))" by (simp add: FormatUidPool_def)
  then have "parse_ranges (split_char (CHR '','') (FormatUidPool pool None)) = Inr pool"
    using assms by (simp only:) (rule ParseUidPool_format, auto simp: is_digit_char_def)
  moreover have "parse_ranges (split_char (CHR 0x0A) (FormatUidPool pool (Some [CHR 0x0A]))) = Inr pool"
    using assms by (rule ParseUidPool_format) (auto simp: is_digit_char_def)
  ultimately show ?thesis by (simp add: ParseUidPool_def)
qed

theorem uid_pool_roundtrip_witness:
  "ParseUidPool ''1000-5000, 8000'' None = Inr [(1000, 5000), (8000, 8000)]"
proof -
  have "FormatUidPool [(1000, 5000), (8000, 8000)] None = ''1000-5000, 8000''"
    by (simp add: FormatUidPool_def FormatUidRange_def int_str_def nat_str.simps digit_char_def char_of_def bit_Suc_0_iff)
  moreover have "sort [(1000 :: int, 5000 :: int), (8000, 8000)] = [(1000, 5000), (8000, 8000)]" by simp
  moreover have "\<And>l h. (l, h) \<in> set [(1000 :: int, 5000 :: int), (8000, 8000)] \<Longrightarrow> 0 \<le> l \<and> 0 \<le> h" by auto
  ultimately show ?thesis using uid_pool_roundtrip [of "[(1000, 5000), (8000, 8000)]"] by metis
qed

text \<open>C30: a pool passes \<^verbatim>\<open>CheckUidPool\<close> exactly if each of its ranges is non-empty and within the
  limits; its expansion is then within the limits too and misses no boundary.\<close>

theorem uid_pool_check:
  "(CheckUidPool mn mx pool = Inr () \<longleftrightarrow> (\<forall>(l, h) \<in> set pool. mn \<le> l \<and> l \<le> h \<and> h \<le> mx)) \<and>
   (CheckUidPool mn mx pool = Inr () \<longrightarrow>
      ExpandUidPool pool \<subseteq> {mn..mx} \<and> (\<forall>(l, h) \<in> set pool. l \<in> ExpandUidPool pool \<and> h \<in> ExpandUidPool pool))"
proof -
  have "CheckUidPool mn mx pool = Inr () \<longleftrightarrow> (\<forall>(l, h) \<in> set pool. mn \<le> l \<and> l \<le> h \<and> h \<le> mx)"
    by (induction mn mx pool rule: CheckUidPool.induct) auto
  then show ?thesis by (fastforce simp: ExpandUidPool_def)
qed

theorem uid_pool_check_witness:
  "CheckUidPool 0 100 [(2, 5)] = Inr () \<and> ExpandUidPool [(2, 5)] \<subseteq> {0..100}"
  using uid_pool_check [of 0 100 "[(2, 5)]"] by simp

lemma set_add_ranges: "set (add_ranges pool rs) = set pool \<union> set rs"
  by (induction pool rs rule: add_ranges.induct) auto

lemma mset_add_ranges:
  "distinct rs \<Longrightarrow> set rs \<inter> set pool = {} \<Longrightarrow> mset (add_ranges pool rs) = mset pool + mset rs"
  by (induction pool rs rule: add_ranges.induct) auto

lemma RemoveFromUidPool_mset:
  "mset rs \<subseteq># mset pool \<Longrightarrow> \<exists>pool'. RemoveFromUidPool rs pool = (Inr (), pool') \<and> mset pool' = mset pool - mset rs \<and>
     (sorted pool \<longrightarrow> sorted pool')"
proof (induction rs arbitrary: pool)
  case (Cons r rs)
  have r: "r \<in> set pool" using Cons.prems by (metis insert_subset list.simps(15) set_mset_mono set_mset_mset)
  have "mset rs \<subseteq># mset (remove1 r pool)" using Cons.prems r by (simp add: insert_subset_eq_iff)
  from Cons.IH [OF this] r show ?case by (auto simp: sorted_remove1)
qed simp

text \<open>Adding ranges gives a sorted pool with exactly the old and the new ranges, and removing
  them again gives back the old pool, sorted.\<close>

theorem uid_pool_add_remove:
  assumes "distinct rs" "set rs \<inter> set pool = {}"
  shows "sorted (AddToUidPool pool rs) \<and> set (AddToUidPool pool rs) = set pool \<union> set rs \<and>
    RemoveFromUidPool rs (AddToUidPool pool rs) = (Inr (), sort pool)"
proof -
  have m: "mset (AddToUidPool pool rs) = mset pool + mset rs"
    using assms by (simp add: AddToUidPool_def mset_add_ranges)
  then obtain pool' where p: "RemoveFromUidPool rs (AddToUidPool pool rs) = (Inr (), pool')"
    "mset pool' = mset pool" "sorted pool'"
    using RemoveFromUidPool_mset [of rs "AddToUidPool pool rs"] by (auto simp: AddToUidPool_def)
  then have "pool' = sort pool" by (metis properties_for_sort)
  with p(1) show ?thesis by (simp add: AddToUidPool_def set_add_ranges)
qed

theorem uid_pool_add_remove_witness:
  "RemoveFromUidPool [(1, 2)] (AddToUidPool [(5, 6)] [(1, 2)]) = (Inr (), sort [(5 :: int, 6 :: int)])"
  using uid_pool_add_remove [of "[(1, 2)]" "[(5, 6)]"] by (simp del: RemoveFromUidPool.simps)

text \<open>C31: a user-id that \<^verbatim>\<open>RequestUnusedUid\<close> returns is one of the pool, is used by no process, was
  locked by nobody else and is locked now; a user-id whose lock file existed before is only
  chosen if every one without lock file was unavailable. If some user-id of the pool is
  available and nothing else fails, one is returned.\<close>

theorem uid_request:
  assumes "\<And>A. A \<subseteq> all_uids \<Longrightarrow> set (listing A) = A"
  shows "(\<forall>uid s'. RequestUnusedUid listing env all_uids s = (Inr uid, s') \<longrightarrow>
      uid \<in> all_uids \<and> ue_pgrep env uid = 1 \<and> \<not> ue_locked env uid \<and>
      us_held s' = insert uid (us_held s) \<and> int_str uid \<in> us_files s' \<and>
      (uid \<in> taken_uids all_uids (us_files s) \<longrightarrow>
         (\<forall>u \<in> all_uids - taken_uids all_uids (us_files s).
            ue_locked env u \<or> ue_flock_fails env u \<or> ue_pgrep env u = 0))) \<and>
    (ue_ensure_ok env \<and> ue_list_ok env \<and> (\<forall>v \<in> all_uids. ue_open_ok env v \<and> ue_pgrep env v \<in> {0, 1}) \<and>
     (\<exists>u \<in> all_uids. \<not> ue_locked env u \<and> \<not> ue_flock_fails env u \<and> ue_pgrep env u = 1) \<longrightarrow>
     (\<exists>uid s'. RequestUnusedUid listing env all_uids s = (Inr uid, s')))"
proof -
  define taken where "taken = taken_uids all_uids (us_files s)"
  have sub: "taken \<subseteq> all_uids" by (auto simp: taken_def taken_uids_def)
  have sets: "set (listing (all_uids - taken)) = all_uids - taken" "set (listing taken) = taken"
    using assms sub by auto
  let ?uids = "listing (all_uids - taken) @ listing taken"
  have all: "set ?uids = all_uids" using sets sub by auto
  have run: "RequestUnusedUid listing env all_uids s = try_uids env ?uids s" if "ue_ensure_ok env" "ue_list_ok env"
    using that by (simp add: RequestUnusedUid_def taken_def Let_def)
  have "uid \<in> all_uids \<and> ue_pgrep env uid = 1 \<and> \<not> ue_locked env uid \<and>
      us_held s' = insert uid (us_held s) \<and> int_str uid \<in> us_files s' \<and>
      (uid \<in> taken \<longrightarrow> (\<forall>u \<in> all_uids - taken. ue_locked env u \<or> ue_flock_fails env u \<or> ue_pgrep env u = 0))"
    if r: "RequestUnusedUid listing env all_uids s = (Inr uid, s')" for uid s'
  proof -
    have "try_uids env ?uids s = (Inr uid, s')"
      using r run by (auto simp: RequestUnusedUid_def split: if_splits)
    from try_uids_ok [OF this] obtain pre post where p: "?uids = pre @ uid # post"
      "\<forall>u \<in> set pre. ue_locked env u \<or> ue_flock_fails env u \<or> ue_pgrep env u = 0"
      "\<not> ue_locked env uid" "ue_pgrep env uid = 1" "us_held s' = insert uid (us_held s)"
      "us_files s' = us_files s \<union> int_str ` set (pre @ [uid])" by blast
    have "all_uids - taken \<subseteq> set pre" if "uid \<in> taken"
    proof -
      have "uid \<notin> set (listing (all_uids - taken))" using that sets(1) by simp
      then have "\<exists>us. pre = listing (all_uids - taken) @ us"
        using p(1) by (auto simp: append_eq_append_conv2 append_eq_Cons_conv)
      then show ?thesis using sets(1) by auto
    qed
    moreover have "uid \<in> all_uids" using all p(1) by auto
    ultimately show ?thesis using p(2-6) by auto
  qed
  moreover have "\<exists>uid s'. RequestUnusedUid listing env all_uids s = (Inr uid, s')"
    if "ue_ensure_ok env" "ue_list_ok env" "\<forall>v \<in> all_uids. ue_open_ok env v \<and> ue_pgrep env v \<in> {0, 1}"
      "u \<in> all_uids" "\<not> ue_locked env u" "\<not> ue_flock_fails env u" "ue_pgrep env u = 1" for u
    using try_uids_finds [of u ?uids env s] that all run by auto
  ultimately show ?thesis unfolding taken_def by blast
qed

theorem uid_request_witness:
  "let env = \<lparr>ue_ensure_ok = True, ue_list_ok = True, ue_open_ok = (\<lambda>_. True), ue_locked = (\<lambda>u. u = 5),
              ue_flock_fails = (\<lambda>_. False), ue_pgrep = (\<lambda>_. 1)\<rparr>;
       s = \<lparr>us_files = {''5''}, us_held = {}\<rparr>
   in \<exists>uid s'. RequestUnusedUid sorted_list_of_set env {5, 6} s = (Inr uid, s') \<and> uid \<in> {5, 6} \<and> us_held s' = {uid}"
proof -
  define env where "env = \<lparr>ue_ensure_ok = True, ue_list_ok = True, ue_open_ok = (\<lambda>_ :: int. True), ue_locked = (\<lambda>u :: int. u = 5),
              ue_flock_fails = (\<lambda>_ :: int. False), ue_pgrep = (\<lambda>_ :: int. 1 :: int)\<rparr>"
  define s where "s = \<lparr>us_files = {''5''}, us_held = {} :: int set\<rparr>"
  have l: "set (sorted_list_of_set A) = A" if "A \<subseteq> {5, 6}" for A :: "int set"
    using that finite_subset [of A "{5, 6}"] by simp
  note r = uid_request [of "{5, 6}" sorted_list_of_set env s, OF l]
  obtain uid s' where u: "RequestUnusedUid sorted_list_of_set env {5, 6} s = (Inr uid, s')"
    using conjunct2 [OF r] by (auto simp: env_def)
  have "uid \<in> {5, 6} \<and> us_held s' = insert uid (us_held s)" using conjunct1 [OF r] u by blast
  then have "uid \<in> {5, 6} \<and> us_held s' = {uid}" by (simp add: s_def)
  with u show ?thesis unfolding Let_def env_def [symmetric] s_def [symmetric] by blast
qed

text \<open>\<^verbatim>\<open>ExecWithUnusedUid\<close> leaves no lock behind that it took: whether the function returns or
  raises, the locks held afterwards are those held before; if the function raises, its
  exception is passed on and the user-id's lock file is removed.\<close>

theorem uid_exec:
  assumes "RequestUnusedUid listing env all_uids s = (Inr uid, s1)" "uid \<notin> us_held s"
  shows "case ExecWithUnusedUid fn listing env all_uids s of (r, s') \<Rightarrow>
    r = fn uid \<and> us_held s' = us_held s \<and>
    us_files s' = (case fn uid of Inl e \<Rightarrow> us_files s1 - {int_str uid} | Inr v \<Rightarrow> us_files s1)"
proof -
  have "us_held s1 = insert uid (us_held s) \<and> int_str uid \<in> us_files s1"
    using assms(1) by (auto simp: RequestUnusedUid_def Let_def split: if_splits dest!: try_uids_ok)
  with assms show ?thesis
    by (auto simp: ExecWithUnusedUid_def st_bind_def ReleaseUid_def unlock_uid_def st_raise_def Let_def split: sum.splits)
qed

theorem uid_exec_witness:
  "let env = \<lparr>ue_ensure_ok = True, ue_list_ok = True, ue_open_ok = (\<lambda>_. True), ue_locked = (\<lambda>u. False),
              ue_flock_fails = (\<lambda>_. False), ue_pgrep = (\<lambda>_. 1)\<rparr>;
       s = \<lparr>us_files = {}, us_held = {}\<rparr>
   in case ExecWithUnusedUid (\<lambda>u. Inl ValueError :: unit res) sorted_list_of_set env {6} s of
        (r, s') \<Rightarrow> r = Inl ValueError \<and> us_held s' = {} \<and> us_files s' = {}"
proof -
  define env where "env = \<lparr>ue_ensure_ok = True, ue_list_ok = True, ue_open_ok = (\<lambda>_ :: int. True), ue_locked = (\<lambda>u :: int. False),
              ue_flock_fails = (\<lambda>_ :: int. False), ue_pgrep = (\<lambda>_ :: int. 1 :: int)\<rparr>"
  define s where "s = \<lparr>us_files = {} :: string set, us_held = {} :: int set\<rparr>"
  have "RequestUnusedUid sorted_list_of_set env {6} s = (Inr 6, \<lparr>us_files = {int_str 6}, us_held = {6}\<rparr>)"
    by (simp add: RequestUnusedUid_def taken_uids_def env_def s_def IsUidUsed_def)
  then show ?thesis
    using uid_exec [of sorted_list_of_set env "{6}" s 6 _ "\<lambda>u. Inl ValueError :: unit res"]
    unfolding Let_def env_def [symmetric] s_def [symmetric] by (simp add: s_def split: prod.splits)
qed

end
