(* ===== verification/Ip_Address.thy ===== *)
theory Ip_Address
  imports Main "HOL-Library.Word" Ganeti_Prelude
begin

text \<open>
  The part of Python's \<^verbatim>\<open>ipaddress\<close> module that the address pools use: reading and writing of
  IPv4 and IPv6 addresses, networks with a prefix length, membership, and addresses by index.
  An address is an unsigned number together with the width of its version. Lemmas: an IPv4
  address that is written is read back, an address belongs to a network exactly if it lies
  between the network and the broadcast address, and indexing stays within the network.
\<close>

unbundle bit_operations_syntax

section \<open>Addresses\<close>

text \<open>\<open>ia_width\<close> is 32 for an \<^verbatim>\<open>IPv4Address\<close> and 128 for an \<^verbatim>\<open>IPv6Address\<close>.\<close>

record ipaddr =
  ia_width :: nat
  ia_int :: nat

text \<open>An octet is one to three decimal digits without leading zero, at most 255.\<close>

definition v4_octet :: "string \<Rightarrow> nat option" where
  "v4_octet s =
     (if s = [] \<or> \<not> list_all is_digit_char s \<or> 3 < length s \<or> (s \<noteq> ''0'' \<and> hd s = CHR ''0'') \<or> 255 < digits_value s
      then None else Some (digits_value s))"

fun v4_octets :: "string list \<Rightarrow> nat list option" where
  "v4_octets [] = Some []"
| "v4_octets (w # ws) =
     (case v4_octet w of
        None \<Rightarrow> None
      | Some n \<Rightarrow> (case v4_octets ws of None \<Rightarrow> None | Some ns \<Rightarrow> Some (n # ns)))"

definition v4_of_str :: "string \<Rightarrow> nat option" where
  "v4_of_str s =
     (let ws = split_char (CHR ''.'') s
      in if length ws \<noteq> 4 then None
         else map_option (foldl (\<lambda>acc n. 256 * acc + n) 0) (v4_octets ws))"

definition v4_str :: "nat \<Rightarrow> string" where
  "v4_str n =
     join_str ''.'' (map nat_str [n div 2 ^ 24 mod 256, n div 2 ^ 16 mod 256, n div 2 ^ 8 mod 256, n mod 256])"

definition hex_value :: "char \<Rightarrow> nat option" where
  "hex_value c =
     (if is_digit_char c then Some (digit_value c)
      else if 97 \<le> (of_char c :: nat) \<and> (of_char c :: nat) \<le> 102 then Some (of_char c - 87)
      else if 65 \<le> (of_char c :: nat) \<and> (of_char c :: nat) \<le> 70 then Some (of_char c - 55)
      else None)"

fun hex_fold :: "nat \<Rightarrow> string \<Rightarrow> nat option" where
  "hex_fold acc [] = Some acc"
| "hex_fold acc (c # cs) = (case hex_value c of None \<Rightarrow> None | Some d \<Rightarrow> hex_fold (16 * acc + d) cs)"

definition v6_hextet :: "string \<Rightarrow> nat option" where
  "v6_hextet s = (if s = [] \<or> 4 < length s then None else hex_fold 0 s)"

definition hex_char :: "nat \<Rightarrow> char" where
  "hex_char d = (if d < 10 then digit_char d else char_of (87 + d))"

fun hex_str :: "nat \<Rightarrow> string" where
  "hex_str n = (if n < 16 then [hex_char n] else hex_str (n div 16) @ [hex_char (n mod 16)])"

declare hex_str.simps [simp del]

fun v6_join :: "nat \<Rightarrow> string list \<Rightarrow> nat option" where
  "v6_join acc [] = Some acc"
| "v6_join acc (w # ws) = (case v6_hextet w of None \<Rightarrow> None | Some n \<Rightarrow> v6_join (65536 * acc + n) ws)"

text \<open>The leading hextets, the number of hextets left out by \<^verbatim>\<open>::\<close> and the trailing hextets.\<close>

definition v6_layout :: "string list \<Rightarrow> (string list \<times> nat \<times> string list) option" where
  "v6_layout parts =
     (case filter (\<lambda>i. parts ! i = []) [1..<length parts - 1] of
        [] \<Rightarrow> if length parts \<noteq> 8 \<or> hd parts = [] \<or> last parts = [] then None else Some (parts, 0, [])
      | [i] \<Rightarrow>
          (let hi = (if hd parts = [] then i - 1 else i);
               lo = (if last parts = [] then length parts - i - 2 else length parts - i - 1)
           in if (hd parts = [] \<and> hi \<noteq> 0) \<or> (last parts = [] \<and> lo \<noteq> 0) \<or> 7 < hi + lo then None
              else Some (take hi parts, 8 - (hi + lo), drop (length parts - lo) parts))
      | _ \<Rightarrow> None)"

definition v6_parts :: "string \<Rightarrow> string list option" where
  "v6_parts s =
     (let parts = split_char (CHR '':'') s
      in if s = [] \<or> length parts < 3 then None
         else if CHR ''.'' \<in> set (last parts)
         then map_option (\<lambda>ip. butlast parts @ [hex_str (ip div 65536), hex_str (ip mod 65536)]) (v4_of_str (last parts))
         else Some parts)"

definition v6_of_str :: "string \<Rightarrow> nat option" where
  "v6_of_str s =
     (case v6_parts s of
        None \<Rightarrow> None
      | Some parts \<Rightarrow>
          if 9 < length parts then None
          else
            (case v6_layout parts of
               None \<Rightarrow> None
             | Some (hi, skipped, lo) \<Rightarrow>
                 (case v6_join 0 hi of
                    None \<Rightarrow> None
                  | Some n \<Rightarrow> v6_join (65536 ^ skipped * n) lo)))"

text \<open>A scope (after a per cent sign) is checked and not part of the number.\<close>

definition v6_scoped :: "string \<Rightarrow> nat option" where
  "v6_scoped s =
     (case split_char (CHR ''%'') s of
        [addr] \<Rightarrow> v6_of_str addr
      | [addr, scope] \<Rightarrow> (if scope = [] then None else v6_of_str addr)
      | _ \<Rightarrow> None)"

text \<open>The first of the longest runs of zero hextets is written as \<^verbatim>\<open>::\<close> if it is longer than one.\<close>

fun zero_run :: "nat \<Rightarrow> nat \<times> nat \<Rightarrow> nat \<times> nat \<Rightarrow> string list \<Rightarrow> nat \<times> nat" where
  "zero_run i best cur [] = best"
| "zero_run i best cur (h # hs) =
     (if h = ''0'' then
        let cur' = ((if snd cur = 0 then i else fst cur), snd cur + 1)
        in zero_run (i + 1) (if snd best < snd cur' then cur' else best) cur' hs
      else zero_run (i + 1) best (0, 0) hs)"

definition v6_compress :: "string list \<Rightarrow> string list" where
  "v6_compress hextets =
     (let (start, len) = zero_run 0 (0, 0) (0, 0) hextets
      in if len \<le> 1 then hextets
         else
           (if start = 0 then [[]] else []) @ take start hextets @ [[]] @ drop (start + len) hextets @
           (if start + len = length hextets then [[]] else []))"

definition v6_str :: "nat \<Rightarrow> string" where
  "v6_str n = join_str '':'' (v6_compress (map (\<lambda>i. hex_str (n div 65536 ^ (7 - i) mod 65536)) [0..<8]))"

definition IPv4Address :: "string \<Rightarrow> ipaddr res" where
  "IPv4Address s = (case v4_of_str s of None \<Rightarrow> Inl AddressValueError | Some n \<Rightarrow> Inr \<lparr>ia_width = 32, ia_int = n\<rparr>)"

definition IPv6Address :: "string \<Rightarrow> ipaddr res" where
  "IPv6Address s =
     (if CHR ''/'' \<in> set s then Inl AddressValueError
      else case v6_scoped s of None \<Rightarrow> Inl AddressValueError | Some n \<Rightarrow> Inr \<lparr>ia_width = 128, ia_int = n\<rparr>)"

definition ip_address :: "string \<Rightarrow> ipaddr res" where
  "ip_address s =
     (case IPv4Address s of
        Inr a \<Rightarrow> Inr a
      | Inl _ \<Rightarrow> (case IPv6Address s of Inr a \<Rightarrow> Inr a | Inl _ \<Rightarrow> Inl ValueError))"

definition ip_str :: "ipaddr \<Rightarrow> string" where
  "ip_str a = (if ia_width a = 32 then v4_str (ia_int a) else v6_str (ia_int a))"

definition is_link_local :: "ipaddr \<Rightarrow> bool" where
  "is_link_local a =
     (if ia_width a = 32 then ia_int a div 2 ^ 16 = 169 * 256 + 254
      else ia_int a div 2 ^ 118 = 0xFE80 div 2 ^ 6)"

section \<open>Networks\<close>

record ipnet =
  in_width :: nat
  in_addr :: nat
  in_prefixlen :: nat

text \<open>The netmask is \<^verbatim>\<open>ALL_ONES ^ (ALL_ONES >> prefixlen)\<close>.\<close>

definition netmask :: "nat \<Rightarrow> nat \<Rightarrow> nat" where
  "netmask w p = mask w XOR drop_bit p (mask w)"

definition prefix_of_digits :: "nat \<Rightarrow> string \<Rightarrow> nat option" where
  "prefix_of_digits w s =
     (if s \<noteq> [] \<and> list_all is_digit_char s \<and> digits_value s \<le> w then Some (digits_value s) else None)"

fun low_zeros :: "nat \<Rightarrow> nat \<Rightarrow> nat" where
  "low_zeros 0 n = 0"
| "low_zeros (Suc w) n = (if even n then Suc (low_zeros w (n div 2)) else 0)"

definition prefix_of_int :: "nat \<Rightarrow> nat option" where
  "prefix_of_int n =
     (let z = low_zeros 32 n in if drop_bit z n = 2 ^ (32 - z) - 1 then Some (32 - z) else None)"

text \<open>A netmask in dotted form, or the complement of one (a host mask).\<close>

definition prefix_of_dotted :: "string \<Rightarrow> nat option" where
  "prefix_of_dotted s =
     (case v4_of_str s of
        None \<Rightarrow> None
      | Some n \<Rightarrow> (case prefix_of_int n of Some p \<Rightarrow> Some p | None \<Rightarrow> prefix_of_int (n XOR mask 32)))"

definition v4_prefix :: "string \<Rightarrow> nat option" where
  "v4_prefix s = (case prefix_of_digits 32 s of Some p \<Rightarrow> Some p | None \<Rightarrow> prefix_of_dotted s)"

text \<open>The address is read before the netmask, and host bits must not be set.\<close>

definition make_net :: "nat \<Rightarrow> nat option \<Rightarrow> nat option \<Rightarrow> ipnet res" where
  "make_net w addr pre =
     (case (addr, pre) of
        (None, _) \<Rightarrow> Inl AddressValueError
      | (Some a, None) \<Rightarrow> Inl NetmaskValueError
      | (Some a, Some p) \<Rightarrow>
          if a AND netmask w p \<noteq> a then Inl ValueError
          else Inr \<lparr>in_width = w, in_addr = a, in_prefixlen = p\<rparr>)"

definition IPv4Network :: "string \<Rightarrow> ipnet res" where
  "IPv4Network s =
     (case split_char (CHR ''/'') s of
        [a] \<Rightarrow> make_net 32 (v4_of_str a) (Some 32)
      | [a, m] \<Rightarrow> make_net 32 (v4_of_str a) (v4_prefix m)
      | _ \<Rightarrow> Inl AddressValueError)"

definition IPv6Network :: "string \<Rightarrow> ipnet res" where
  "IPv6Network s =
     (case split_char (CHR ''/'') s of
        [a] \<Rightarrow> make_net 128 (v6_scoped a) (Some 128)
      | [a, m] \<Rightarrow> make_net 128 (v6_scoped a) (prefix_of_digits 128 m)
      | _ \<Rightarrow> Inl AddressValueError)"

definition ip_network :: "string \<Rightarrow> ipnet res" where
  "ip_network s =
     (case IPv4Network s of
        Inr n \<Rightarrow> Inr n
      | Inl e \<Rightarrow>
          if e = AddressValueError \<or> e = NetmaskValueError
          then (case IPv6Network s of Inr n \<Rightarrow> Inr n | Inl _ \<Rightarrow> Inl ValueError)
          else Inl e)"

definition broadcast_address :: "ipnet \<Rightarrow> nat" where
  "broadcast_address n = in_addr n OR drop_bit (in_prefixlen n) (mask (in_width n))"

definition num_addresses :: "ipnet \<Rightarrow> nat" where
  "num_addresses n = broadcast_address n - in_addr n + 1"

definition net_contains :: "ipnet \<Rightarrow> ipaddr \<Rightarrow> bool" where
  "net_contains n a \<longleftrightarrow>
     in_width n = ia_width a \<and> ia_int a AND netmask (in_width n) (in_prefixlen n) = in_addr n"

definition net_getitem :: "ipnet \<Rightarrow> int \<Rightarrow> ipaddr res" where
  "net_getitem n i =
     (let lo = int (in_addr n); hi = int (broadcast_address n)
      in if 0 \<le> i then
           if lo + i > hi then Inl IndexError else Inr \<lparr>ia_width = in_width n, ia_int = nat (lo + i)\<rparr>
         else
           if hi + (i + 1) < lo then Inl IndexError else Inr \<lparr>ia_width = in_width n, ia_int = nat (hi + (i + 1))\<rparr>)"

section \<open>Reading and writing IPv4 addresses\<close>

lemma nat_str_octet:
  assumes "n < 256"
  shows "length (nat_str n) \<le> 3 \<and> (nat_str n = ''0'' \<or> hd (nat_str n) \<noteq> CHR ''0'')"
proof -
  have c: "digit_char d \<noteq> CHR ''0''" if "0 < d" "d < 10" for d
    using of_char_digit_char [of d] that by auto
  have z: "digit_char 0 = CHR ''0''" by (simp add: digit_char_def char_of_def bit_Suc_0_iff)
  have one: "nat_str m = [digit_char m]" if "m < 10" for m using that by (simp add: nat_str.simps [of m])
  consider "n < 10" | "10 \<le> n" "n < 100" | "100 \<le> n" by linarith
  then show ?thesis
  proof cases
    case 1
    then show ?thesis by (cases "n = 0") (auto simp: one c z)
  next
    case 2
    then have "nat_str n = [digit_char (n div 10), digit_char (n mod 10)]"
      by (simp add: nat_str.simps [of n] one)
    then show ?thesis using 2 c [of "n div 10"] by simp
  next
    case 3
    then have "nat_str n = [digit_char (n div 100), digit_char (n div 10 mod 10), digit_char (n mod 10)]"
      using assms by (simp add: nat_str.simps [of n] nat_str.simps [of "n div 10"] one div_mult2_eq [symmetric])
    then show ?thesis using 3 assms c [of "n div 100"] by simp
  qed
qed

lemma v4_octet_nat_str: "n < 256 \<Longrightarrow> v4_octet (nat_str n) = Some n"
  using nat_str_octet [of n] nat_str_digits [of _ n]
  by (auto simp: v4_octet_def list_all_iff)

lemma nat_str_no_dot: "CHR ''.'' \<notin> set (nat_str n)"
  using nat_str_digits [of "CHR ''.''" n] by (auto simp: is_digit_char_def)

lemma octet_step: "256 * m * (n div (256 * m)) + m * (n div m mod 256) = m * (n div (m :: nat))"
proof -
  have "n div (256 * m) = n div m div 256" by (simp add: div_mult2_eq mult.commute [of 256])
  moreover have "256 * m * (n div m div 256) + m * (n div m mod 256) = m * (256 * (n div m div 256) + n div m mod 256)"
    by (simp only: algebra_simps)
  ultimately show ?thesis by (simp only: mult_div_mod_eq)
qed

lemma v4_roundtrip: "n < 2 ^ 32 \<Longrightarrow> v4_of_str (v4_str n) = Some n"
proof -
  assume n: "n < 2 ^ 32"
  let ?ws = "map nat_str [n div 2 ^ 24 mod 256, n div 2 ^ 16 mod 256, n div 2 ^ 8 mod 256, n mod 256]"
  have s: "split_char (CHR ''.'') (v4_str n) = ?ws"
    unfolding v4_str_def by (rule split_join) (auto simp: nat_str_no_dot)
  have o: "v4_octets ?ws = Some [n div 2 ^ 24 mod 256, n div 2 ^ 16 mod 256, n div 2 ^ 8 mod 256, n mod 256]"
    by (simp add: v4_octet_nat_str)
  have "foldl (\<lambda>acc n. 256 * acc + n) 0 [n div 2 ^ 24 mod 256, n div 2 ^ 16 mod 256, n div 2 ^ 8 mod 256, n mod 256] = n"
    using n octet_step [of 65536 n] octet_step [of 256 n] octet_step [of 1 n] by simp
  then show ?thesis unfolding v4_of_str_def Let_def s o by (simp del: foldl.simps foldl_Cons)
qed

lemma v4_octets_bound: "v4_octets ws = Some ns \<Longrightarrow> length ns = length ws \<and> (\<forall>n \<in> set ns. n < 256)"
  by (induction ws arbitrary: ns) (auto simp: v4_octet_def split: option.splits if_splits)

lemma v4_of_str_bound: "v4_of_str s = Some n \<Longrightarrow> n < 2 ^ 32"
proof -
  assume "v4_of_str s = Some n"
  then obtain ns where ns: "v4_octets (split_char (CHR ''.'') s) = Some ns" "length ns = 4"
    "n = foldl (\<lambda>acc n. 256 * acc + n) 0 ns"
    using v4_octets_bound by (fastforce simp: v4_of_str_def Let_def split: if_splits)
  then obtain a b c d where "ns = [a, b, c, d]" by (auto simp: numeral_eq_Suc length_Suc_conv)
  with ns v4_octets_bound [OF ns(1)] show ?thesis by simp
qed

section \<open>Networks as ranges\<close>

lemma and_netmask:
  assumes "(a :: nat) < 2 ^ w" "p \<le> w"
  shows "a AND netmask w p = a - a mod 2 ^ (w - p)"
proof -
  have "a AND netmask w p = push_bit (w - p) (drop_bit (w - p) a)"
  proof (rule bit_eqI)
    fix i assume "possible_bit TYPE(nat) i"
    have "bit a i \<Longrightarrow> i < w" using assms(1) by (metis bit_take_bit_iff take_bit_nat_eq_self)
    then show "bit (a AND netmask w p) i = bit (push_bit (w - p) (drop_bit (w - p) a)) i"
      using assms(2) by (auto simp: netmask_def bit_simps)
  qed
  then show ?thesis by (simp add: push_bit_eq_mult drop_bit_eq_div minus_mod_eq_div_mult)
qed

definition net_ok :: "ipnet \<Rightarrow> bool" where
  "net_ok n \<longleftrightarrow> in_prefixlen n \<le> in_width n \<and> in_addr n < 2 ^ in_width n \<and>
     2 ^ (in_width n - in_prefixlen n) dvd in_addr n"

lemma net_ok_room:
  assumes "net_ok n" shows "in_addr n + 2 ^ (in_width n - in_prefixlen n) \<le> 2 ^ in_width n"
proof -
  let ?k = "in_width n - in_prefixlen n"
  obtain m where m: "in_addr n = 2 ^ ?k * m" using assms by (auto simp: net_ok_def elim: dvdE)
  have w: "(2 :: nat) ^ in_width n = 2 ^ ?k * 2 ^ in_prefixlen n"
    using assms by (simp add: net_ok_def flip: power_add)
  then have "m < 2 ^ in_prefixlen n" using assms m by (simp add: net_ok_def)
  then have "2 ^ ?k * (m + 1) \<le> 2 ^ ?k * (2 :: nat) ^ in_prefixlen n" by (intro mult_le_mono) auto
  then show ?thesis using w m by (simp add: algebra_simps)
qed

lemma broadcast_address_eq:
  assumes "net_ok n" shows "broadcast_address n = in_addr n + (2 ^ (in_width n - in_prefixlen n) - 1)"
proof -
  let ?k = "in_width n - in_prefixlen n"
  have d: "drop_bit (in_prefixlen n) (mask (in_width n)) = (mask ?k :: nat)"
    by (rule bit_eqI) (use assms in \<open>auto simp: bit_simps net_ok_def\<close>)
  have "in_addr n AND mask ?k = 0"
    using assms by (simp add: net_ok_def flip: take_bit_eq_mask)  (simp add: take_bit_eq_mod mod_0_imp_dvd dvd_imp_mod_0)
  then have "in_addr n OR mask ?k = in_addr n + mask ?k" by (simp add: disjunctive_add_eq_or)
  then show ?thesis by (simp only: broadcast_address_def d) (simp add: mask_eq_exp_minus_1)
qed

lemma num_addresses_eq: "net_ok n \<Longrightarrow> num_addresses n = 2 ^ (in_width n - in_prefixlen n)"
  by (simp add: num_addresses_def broadcast_address_eq)

lemma net_contains_iff:
  assumes "net_ok n" "ia_int a < 2 ^ ia_width a"
  shows "net_contains n a \<longleftrightarrow>
    ia_width a = in_width n \<and> in_addr n \<le> ia_int a \<and> ia_int a < in_addr n + num_addresses n"
proof (cases "ia_width a = in_width n")
  case True
  let ?m = "2 ^ (in_width n - in_prefixlen n) :: nat" and ?x = "ia_int a"
  have e: "?x AND netmask (in_width n) (in_prefixlen n) = ?x - ?x mod ?m"
    using assms True by (intro and_netmask) (auto simp: net_ok_def)
  obtain q where q: "in_addr n = ?m * q" using assms(1) by (auto simp: net_ok_def elim: dvdE)
  have "?x - ?x mod ?m = ?m * (?x div ?m)" by (simp add: minus_mod_eq_mult_div)
  then have "?x - ?x mod ?m = in_addr n \<longleftrightarrow> ?x div ?m = q" using q by simp
  also have "\<dots> \<longleftrightarrow> ?m * q \<le> ?x \<and> ?x < ?m * q + ?m"
    using div_less_iff_less_mult [of ?m ?x "q + 1"] less_eq_div_iff_mult_less_eq [of ?m q ?x] by (auto simp: algebra_simps)
  finally show ?thesis using True e q by (simp add: net_contains_def num_addresses_eq [OF assms(1)])
qed (auto simp: net_contains_def)

lemma make_net_ok:
  assumes "make_net w addr pre = Inr n" "\<And>a. addr = Some a \<Longrightarrow> a < 2 ^ w" "\<And>p. pre = Some p \<Longrightarrow> p \<le> w"
  shows "net_ok n \<and> in_width n = w"
proof -
  obtain a p where a: "addr = Some a" "pre = Some p" "a AND netmask w p = a" "n = \<lparr>in_width = w, in_addr = a, in_prefixlen = p\<rparr>"
    using assms(1) by (auto simp: make_net_def split: option.splits if_splits)
  have "a mod 2 ^ (w - p) = 0"
    using and_netmask [of a w p] a assms(2,3) by (metis diff_diff_cancel diff_self_eq_0 mod_less_eq_dividend)
  then show ?thesis using a assms(2,3) by (auto simp: net_ok_def dvd_eq_mod_eq_0)
qed

lemma v4_prefix_bound: "v4_prefix s = Some p \<Longrightarrow> p \<le> 32"
  by (auto simp: v4_prefix_def prefix_of_digits_def prefix_of_dotted_def prefix_of_int_def Let_def
        split: if_splits option.splits)

lemma IPv4Network_ok: "IPv4Network s = Inr n \<Longrightarrow> net_ok n \<and> in_width n = 32"
  by (auto simp: IPv4Network_def split: list.splits intro: v4_of_str_bound v4_prefix_bound
        dest!: make_net_ok)

lemma net_getitem_nonneg:
  assumes "net_ok n" "i < num_addresses n"
  shows "net_getitem n (int i) = Inr \<lparr>ia_width = in_width n, ia_int = in_addr n + i\<rparr>"
proof -
  have "int (in_addr n) + int i \<le> int (broadcast_address n)"
    using assms by (simp add: broadcast_address_eq num_addresses_eq)
  then show ?thesis by (simp add: net_getitem_def Let_def nat_int_add)
qed

lemma net_getitem_last:
  assumes "net_ok n"
  shows "net_getitem n (- 1) = Inr \<lparr>ia_width = in_width n, ia_int = in_addr n + (num_addresses n - 1)\<rparr>"
proof -
  have "in_addr n \<le> broadcast_address n" using assms broadcast_address_eq [of n] by linarith
  then show ?thesis using assms by (simp add: net_getitem_def Let_def broadcast_address_eq num_addresses_eq)
qed

lemma ip_address_v4_str:
  "n < 2 ^ 32 \<Longrightarrow> ip_address (ip_str \<lparr>ia_width = 32, ia_int = n\<rparr>) = Inr \<lparr>ia_width = 32, ia_int = n\<rparr>"
  using v4_roundtrip [of n] by (simp add: ip_address_def ip_str_def IPv4Address_def)

end
