(* ===== verification/Address_Pool.thy ===== *)
theory Address_Pool
  imports Main Ip_Address
begin

text \<open>
  The IPv4 address pools of \<^verbatim>\<open>lib/network.py\<close>, which keep the reserved addresses of a network
  in two bit arrays, and the slot allocation of \<^verbatim>\<open>lib/utils/bitarrays.py\<close>. The bit arrays
  themselves are a package outside the source: their operations are the argument
  \<open>ba\<close> of the definitions, with the documented behaviour as the predicate
  \<open>bitarray_laws\<close>, stated through \<^verbatim>\<open>to01\<close>. \<open>list_bits\<close> is the array of booleans, for which
  the laws hold.
\<close>

section \<open>Bit arrays\<close>

text \<open>
  \<open>ba_parse\<close> is \<^verbatim>\<open>bitarray("0101")\<close>, \<open>ba_alloc\<close> is \<^verbatim>\<open>bitarray(n)\<close> with arbitrary contents;
  \<open>ba_get\<close>, \<open>ba_set\<close>, \<open>ba_or\<close>, \<open>ba_index\<close> and \<open>ba_search\<close> are indexing, item assignment,
  \<^verbatim>\<open>|\<close>, \<^verbatim>\<open>index\<close> and the package's \<^verbatim>\<open>search\<close>, as a list of all positions.
\<close>

record 'b bitarray_ops =
  ba_parse :: "string \<Rightarrow> 'b res"
  ba_alloc :: "nat \<Rightarrow> 'b"
  ba_setall :: "'b \<Rightarrow> bool \<Rightarrow> 'b"
  ba_len :: "'b \<Rightarrow> nat"
  ba_get :: "'b \<Rightarrow> nat \<Rightarrow> bool res"
  ba_set :: "'b \<Rightarrow> nat \<Rightarrow> bool \<Rightarrow> 'b res"
  ba_or :: "'b \<Rightarrow> 'b \<Rightarrow> 'b res"
  ba_all :: "'b \<Rightarrow> bool"
  ba_count :: "'b \<Rightarrow> bool \<Rightarrow> nat"
  ba_index :: "'b \<Rightarrow> bool \<Rightarrow> nat res"
  ba_search :: "'b \<Rightarrow> 'b \<Rightarrow> nat list"
  ba_to01 :: "'b \<Rightarrow> string"

definition bits_of :: "string \<Rightarrow> bool list" where
  "bits_of s = map (\<lambda>c. c = CHR ''1'') s"

definition str_of_bits :: "bool list \<Rightarrow> string" where
  "str_of_bits bs = map (\<lambda>b. if b then CHR ''1'' else CHR ''0'') bs"

definition ba_bits :: "'b bitarray_ops \<Rightarrow> 'b \<Rightarrow> bool list" where
  "ba_bits ba b = bits_of (ba_to01 ba b)"

text \<open>The positions of a bit, as \<^verbatim>\<open>search\<close> gives them for an array of length one.\<close>

definition positions :: "bool list \<Rightarrow> bool \<Rightarrow> nat list" where
  "positions bs v = filter (\<lambda>i. bs ! i = v) [0..<length bs]"

definition bitarray_laws :: "'b bitarray_ops \<Rightarrow> bool" where
  "bitarray_laws ba \<longleftrightarrow>
     (\<forall>b. ba_to01 ba b = str_of_bits (ba_bits ba b)) \<and>
     (\<forall>bs. \<exists>b. ba_parse ba (str_of_bits bs) = Inr b \<and> ba_bits ba b = bs) \<and>
     (\<forall>n. length (ba_bits ba (ba_alloc ba n)) = n) \<and>
     (\<forall>b v. ba_bits ba (ba_setall ba b v) = map (\<lambda>_. v) (ba_bits ba b)) \<and>
     (\<forall>b. ba_len ba b = length (ba_bits ba b)) \<and>
     (\<forall>b i. ba_get ba b i = (if i < length (ba_bits ba b) then Inr (ba_bits ba b ! i) else Inl IndexError)) \<and>
     (\<forall>b i v. i < length (ba_bits ba b) \<longrightarrow>
        (\<exists>b'. ba_set ba b i v = Inr b' \<and> ba_bits ba b' = (ba_bits ba b)[i := v])) \<and>
     (\<forall>a b. length (ba_bits ba a) = length (ba_bits ba b) \<longrightarrow>
        (\<exists>c. ba_or ba a b = Inr c \<and> ba_bits ba c = map2 (\<or>) (ba_bits ba a) (ba_bits ba b))) \<and>
     (\<forall>b. ba_all ba b = list_all id (ba_bits ba b)) \<and>
     (\<forall>b v. ba_count ba b v = length (positions (ba_bits ba b) v)) \<and>
     (\<forall>b v. ba_index ba b v =
        (case positions (ba_bits ba b) v of [] \<Rightarrow> Inl ValueError | i # _ \<Rightarrow> Inr i)) \<and>
     (\<forall>b c v. ba_bits ba c = [v] \<longrightarrow> ba_search ba b c = positions (ba_bits ba b) v)"

definition list_bits :: "bool list bitarray_ops" where
  "list_bits = \<lparr>
     ba_parse = (\<lambda>s. if set s \<subseteq> {CHR ''0'', CHR ''1''} then Inr (bits_of s) else Inl ValueError),
     ba_alloc = (\<lambda>n. replicate n True),
     ba_setall = (\<lambda>b v. map (\<lambda>_. v) b),
     ba_len = length,
     ba_get = (\<lambda>b i. if i < length b then Inr (b ! i) else Inl IndexError),
     ba_set = (\<lambda>b i v. if i < length b then Inr (b[i := v]) else Inl IndexError),
     ba_or = (\<lambda>a b. if length a = length b then Inr (map2 (\<or>) a b) else Inl ValueError),
     ba_all = list_all id,
     ba_count = (\<lambda>b v. length (positions b v)),
     ba_index = (\<lambda>b v. case positions b v of [] \<Rightarrow> Inl ValueError | i # _ \<Rightarrow> Inr i),
     ba_search = (\<lambda>b c. case c of [v] \<Rightarrow> positions b v | _ \<Rightarrow> []),
     ba_to01 = str_of_bits\<rparr>"

text \<open>\<^verbatim>\<open>CompatBitarray.search\<close>: all positions, or the first \<open>limit\<close> of them.\<close>

definition compat_search :: "'b bitarray_ops \<Rightarrow> 'b \<Rightarrow> 'b \<Rightarrow> nat option \<Rightarrow> nat list" where
  "compat_search ba b c limit =
     (let res = ba_search ba b c in case limit of None \<Rightarrow> res | Some n \<Rightarrow> take n res)"

definition GetFreeSlot :: "'b bitarray_ops \<Rightarrow> 'b \<Rightarrow> 'b \<Rightarrow> nat option \<Rightarrow> bool \<Rightarrow> (nat \<times> 'b) res" where
  "GetFreeSlot ba available_slot slots slot reserve =
     res_bind
       (case slot of
          Some s \<Rightarrow>
            res_bind (check (s < ba_len ba slots) AssertionError) (\<lambda>_.
            res_bind (ba_get ba slots s) (\<lambda>used.
              if used then Inl (GenericError ''Slot occupied'') else Inr s))
        | None \<Rightarrow>
            (case compat_search ba slots available_slot (Some 1) of
               [] \<Rightarrow> Inl (GenericError ''All slots occupied'')
             | i # _ \<Rightarrow> Inr i))
       (\<lambda>s. if reserve then res_bind (ba_set ba slots s True) (\<lambda>slots'. Inr (s, slots')) else Inr (s, slots))"

section \<open>The pool of a network\<close>

definition ComputeIpv4NumHosts :: "nat \<Rightarrow> nat" where
  "ComputeIpv4NumHosts network_size = 2 ^ (32 - network_size)"

definition IPV4_NETWORK_MIN_SIZE :: nat where
  "IPV4_NETWORK_MIN_SIZE = 30"

definition IPV4_NETWORK_MAX_SIZE :: nat where
  "IPV4_NETWORK_MAX_SIZE = 16"

definition IPV4_NETWORK_MIN_NUM_HOSTS :: nat where
  "IPV4_NETWORK_MIN_NUM_HOSTS = ComputeIpv4NumHosts IPV4_NETWORK_MIN_SIZE"

definition IPV4_NETWORK_MAX_NUM_HOSTS :: nat where
  "IPV4_NETWORK_MAX_NUM_HOSTS = ComputeIpv4NumHosts IPV4_NETWORK_MAX_SIZE"

text \<open>The fields of \<^verbatim>\<open>objects.Network\<close> that the pool reads and writes.\<close>

record network =
  nw_network :: string
  nw_gateway :: "string option"
  nw_network6 :: "string option"
  nw_gateway6 :: "string option"
  nw_reservations :: "string option"
  nw_ext_reservations :: "string option"

record 'b address_pool =
  ap_net :: network
  ap_network :: ipnet
  ap_gateway :: "ipaddr option"
  ap_network6 :: "ipnet option"
  ap_gateway6 :: "ipaddr option"
  ap_reservations :: 'b
  ap_ext_reservations :: 'b

text \<open>A value that is missing or empty is not converted.\<close>

definition if_given :: "(string \<Rightarrow> 'a res) \<Rightarrow> string option \<Rightarrow> 'a option res" where
  "if_given f v =
     (case v of
        None \<Rightarrow> Inr None
      | Some s \<Rightarrow> if s = [] then Inr None else res_bind (f s) (\<lambda>x. Inr (Some x)))"

definition load_reservations :: "'b bitarray_ops \<Rightarrow> nat \<Rightarrow> string option \<Rightarrow> 'b res" where
  "load_reservations ba n v =
     res_bind (if_given (ba_parse ba) v) (\<lambda>r.
       case r of Some b \<Rightarrow> Inr b | None \<Rightarrow> Inr (ba_setall ba (ba_alloc ba n) False))"

definition AddressPool :: "'b bitarray_ops \<Rightarrow> network \<Rightarrow> 'b address_pool res" where
  "AddressPool ba net =
     res_bind (ip_network (nw_network net)) (\<lambda>network.
     res_bind (check (\<not> num_addresses network > IPV4_NETWORK_MAX_NUM_HOSTS)
                 (AddressPoolError ''A big network is currently not supported'')) (\<lambda>_.
     res_bind (check (\<not> num_addresses network < IPV4_NETWORK_MIN_NUM_HOSTS)
                 (AddressPoolError ''A network is too small'')) (\<lambda>_.
     res_bind (if_given ip_address (nw_gateway net)) (\<lambda>gateway.
     res_bind (if_given IPv6Network (nw_network6 net)) (\<lambda>network6.
     res_bind (if_given IPv6Address (nw_gateway6 net)) (\<lambda>gateway6.
     res_bind (load_reservations ba (num_addresses network) (nw_reservations net)) (\<lambda>res.
     res_bind (load_reservations ba (num_addresses network) (nw_ext_reservations net)) (\<lambda>ext.
     res_bind (check (ba_len ba res = num_addresses network) AssertionError) (\<lambda>_.
     res_bind (check (ba_len ba ext = num_addresses network) AssertionError) (\<lambda>_.
       Inr \<lparr>ap_net = net, ap_network = network, ap_gateway = gateway, ap_network6 = network6,
            ap_gateway6 = gateway6, ap_reservations = res, ap_ext_reservations = ext\<rparr>))))))))))"

definition Contains :: "'b address_pool \<Rightarrow> string option \<Rightarrow> bool res" where
  "Contains p address =
     (case address of
        None \<Rightarrow> Inr False
      | Some a \<Rightarrow> res_bind (ip_address a) (\<lambda>addr. Inr (net_contains (ap_network p) addr)))"

definition GetAddrIndex :: "'b address_pool \<Rightarrow> string \<Rightarrow> nat res" where
  "GetAddrIndex p address =
     res_bind (ip_address address) (\<lambda>addr.
       if \<not> net_contains (ap_network p) addr then Inl (AddressPoolError ''network does not contain address'')
       else Inr (ia_int addr - in_addr (ap_network p)))"

definition Update :: "'b bitarray_ops \<Rightarrow> 'b address_pool \<Rightarrow> 'b address_pool" where
  "Update ba p =
     p\<lparr>ap_net := (ap_net p)\<lparr>nw_ext_reservations := Some (ba_to01 ba (ap_ext_reservations p)),
                           nw_reservations := Some (ba_to01 ba (ap_reservations p))\<rparr>\<rparr>"

definition Mark :: "'b bitarray_ops \<Rightarrow> string \<Rightarrow> bool \<Rightarrow> bool \<Rightarrow> 'b address_pool \<Rightarrow> 'b address_pool res" where
  "Mark ba address value external p =
     res_bind (GetAddrIndex p address) (\<lambda>idx.
       if external
       then res_bind (ba_set ba (ap_ext_reservations p) idx value) (\<lambda>b. Inr (Update ba (p\<lparr>ap_ext_reservations := b\<rparr>)))
       else res_bind (ba_set ba (ap_reservations p) idx value) (\<lambda>b. Inr (Update ba (p\<lparr>ap_reservations := b\<rparr>))))"

definition GetSize :: "'b address_pool \<Rightarrow> nat" where
  "GetSize p = 2 ^ (32 - in_prefixlen (ap_network p))"

definition all_reservations :: "'b bitarray_ops \<Rightarrow> 'b address_pool \<Rightarrow> 'b res" where
  "all_reservations ba p = ba_or ba (ap_reservations p) (ap_ext_reservations p)"

definition Validate :: "'b bitarray_ops \<Rightarrow> 'b address_pool \<Rightarrow> unit res" where
  "Validate ba p =
     res_bind (check (ba_len ba (ap_reservations p) = GetSize p) AssertionError) (\<lambda>_.
     res_bind (check (ba_len ba (ap_ext_reservations p) = GetSize p) AssertionError) (\<lambda>_.
     res_bind (case ap_gateway p of
                 None \<Rightarrow> Inr ()
               | Some g \<Rightarrow> check (net_contains (ap_network p) g) AssertionError) (\<lambda>_.
       case (ap_network6 p, ap_gateway6 p) of
         (Some n, Some g) \<Rightarrow> check (net_contains n g \<or> is_link_local g) AssertionError
       | _ \<Rightarrow> Inr ())))"

definition IsFull :: "'b bitarray_ops \<Rightarrow> 'b address_pool \<Rightarrow> bool res" where
  "IsFull ba p = res_bind (all_reservations ba p) (\<lambda>r. Inr (ba_all ba r))"

definition GetReservedCount :: "'b bitarray_ops \<Rightarrow> 'b address_pool \<Rightarrow> nat res" where
  "GetReservedCount ba p = res_bind (all_reservations ba p) (\<lambda>r. Inr (ba_count ba r True))"

definition GetFreeCount :: "'b bitarray_ops \<Rightarrow> 'b address_pool \<Rightarrow> nat res" where
  "GetFreeCount ba p = res_bind (all_reservations ba p) (\<lambda>r. Inr (ba_count ba r False))"

definition GetMap :: "'b bitarray_ops \<Rightarrow> 'b address_pool \<Rightarrow> string res" where
  "GetMap ba p =
     res_bind (all_reservations ba p) (\<lambda>r.
       Inr (map (\<lambda>c. if c = CHR ''0'' then CHR ''.'' else c)
              (map (\<lambda>c. if c = CHR ''1'' then CHR ''X'' else c) (ba_to01 ba r))))"

definition IsReserved :: "'b bitarray_ops \<Rightarrow> string \<Rightarrow> bool \<Rightarrow> 'b address_pool \<Rightarrow> bool res" where
  "IsReserved ba address external p =
     res_bind (GetAddrIndex p address) (\<lambda>idx.
       if external then ba_get ba (ap_ext_reservations p) idx else ba_get ba (ap_reservations p) idx)"

definition Reserve :: "'b bitarray_ops \<Rightarrow> string \<Rightarrow> bool \<Rightarrow> 'b address_pool \<Rightarrow> 'b address_pool res" where
  "Reserve ba address external p =
     res_bind (IsReserved ba address external p) (\<lambda>r.
       if r then Inl (AddressPoolError (if external then ''IP is already externally reserved''
                                        else ''IP is already used by an instance''))
       else Mark ba address True external p)"

definition Release :: "'b bitarray_ops \<Rightarrow> string \<Rightarrow> bool \<Rightarrow> 'b address_pool \<Rightarrow> 'b address_pool res" where
  "Release ba address external p =
     res_bind (IsReserved ba address external p) (\<lambda>r.
       if \<not> r then Inl (AddressPoolError (if external then ''IP is not externally reserved''
                                          else ''IP is not used by an instance''))
       else Mark ba address False external p)"

definition GetFreeAddress :: "'b bitarray_ops \<Rightarrow> 'b address_pool \<Rightarrow> (string \<times> 'b address_pool) res" where
  "GetFreeAddress ba p =
     res_bind (IsFull ba p) (\<lambda>full.
       if full then Inl (AddressPoolError ''network is full'')
       else
         res_bind (all_reservations ba p) (\<lambda>r.
         res_bind (ba_index ba r False) (\<lambda>idx.
         res_bind (net_getitem (ap_network p) (int idx)) (\<lambda>a.
         res_bind (Reserve ba (ip_str a) False p) (\<lambda>p'. Inr (ip_str a, p'))))))"

definition GenerateFree :: "'b bitarray_ops \<Rightarrow> 'b \<Rightarrow> 'b address_pool \<Rightarrow> string res" where
  "GenerateFree ba free p =
     res_bind (all_reservations ba p) (\<lambda>r.
       case compat_search ba r free (Some 1) of
         idx # _ \<Rightarrow> res_bind (net_getitem (ap_network p) (int idx)) (\<lambda>a. Inr (ip_str a))
       | [] \<Rightarrow> Inl (AddressPoolError ''network is full''))"

fun addresses_at :: "ipnet \<Rightarrow> nat list \<Rightarrow> string list res" where
  "addresses_at n [] = Inr []"
| "addresses_at n (i # is) =
     res_bind (net_getitem n (int i)) (\<lambda>a. res_bind (addresses_at n is) (\<lambda>as. Inr (ip_str a # as)))"

definition GetExternalReservations :: "'b bitarray_ops \<Rightarrow> 'b \<Rightarrow> 'b address_pool \<Rightarrow> string list res" where
  "GetExternalReservations ba reserved p =
     addresses_at (ap_network p) (compat_search ba (ap_ext_reservations p) reserved None)"

definition InitializeNetwork :: "'b bitarray_ops \<Rightarrow> network \<Rightarrow> 'b address_pool res" where
  "InitializeNetwork ba net =
     res_bind (AddressPool ba net) (\<lambda>obj.
     res_bind (net_getitem (ap_network obj) 0) (\<lambda>first.
     res_bind (net_getitem (ap_network obj) (- 1)) (\<lambda>last.
     res_bind (Reserve ba (ip_str first) True (Update ba obj)) (\<lambda>obj1.
     res_bind (Reserve ba (ip_str last) True obj1) (\<lambda>obj2.
     res_bind (case nw_gateway net of None \<Rightarrow> Inr obj2 | Some g \<Rightarrow> Reserve ba g True obj2) (\<lambda>obj3.
     res_bind (Validate ba obj3) (\<lambda>_. Inr obj3)))))))"

section \<open>Consequences of the laws\<close>

lemma bits_of_str [simp]: "bits_of (str_of_bits bs) = bs"
  by (auto simp: bits_of_def str_of_bits_def comp_def)

lemma length_str_of_bits [simp]: "length (str_of_bits bs) = length bs"
  by (simp add: str_of_bits_def)

lemma ba_bits_list [simp]: "ba_bits list_bits b = b"
  by (simp add: ba_bits_def list_bits_def)

lemma list_bits_laws: "bitarray_laws list_bits"
proof -
  have "set (str_of_bits bs) \<subseteq> {CHR ''0'', CHR ''1''}" for bs by (auto simp: str_of_bits_def)
  then show ?thesis unfolding bitarray_laws_def ba_bits_list by (auto simp: list_bits_def)
qed

named_theorems ba_laws \<open>the laws of bit arrays, one by one\<close>

lemma law_to01 [ba_laws]: "bitarray_laws ba \<Longrightarrow> ba_to01 ba b = str_of_bits (ba_bits ba b)"
  unfolding bitarray_laws_def by (drule conjunct1) (erule spec)

lemma law_parse: "bitarray_laws ba \<Longrightarrow> \<exists>b. ba_parse ba (str_of_bits bs) = Inr b \<and> ba_bits ba b = bs"
  unfolding bitarray_laws_def by blast

lemma law_alloc [ba_laws]: "bitarray_laws ba \<Longrightarrow> ba_bits ba (ba_setall ba (ba_alloc ba n) v) = replicate n v"
  unfolding bitarray_laws_def by (simp add: map_replicate_const)

lemma law_len [ba_laws]: "bitarray_laws ba \<Longrightarrow> ba_len ba b = length (ba_bits ba b)"
  unfolding bitarray_laws_def by blast

lemma law_get [ba_laws]:
  "bitarray_laws ba \<Longrightarrow> ba_get ba b i = (if i < length (ba_bits ba b) then Inr (ba_bits ba b ! i) else Inl IndexError)"
  unfolding bitarray_laws_def by blast

lemma law_set: "bitarray_laws ba \<Longrightarrow> i < length (ba_bits ba b) \<Longrightarrow>
    \<exists>b'. ba_set ba b i v = Inr b' \<and> ba_bits ba b' = (ba_bits ba b)[i := v]"
  unfolding bitarray_laws_def by blast

lemma law_or: "bitarray_laws ba \<Longrightarrow> length (ba_bits ba a) = length (ba_bits ba b) \<Longrightarrow>
    \<exists>c. ba_or ba a b = Inr c \<and> ba_bits ba c = map2 (\<or>) (ba_bits ba a) (ba_bits ba b)"
  unfolding bitarray_laws_def by blast

lemma law_all [ba_laws]: "bitarray_laws ba \<Longrightarrow> ba_all ba b = list_all id (ba_bits ba b)"
  unfolding bitarray_laws_def by blast

lemma law_count [ba_laws]: "bitarray_laws ba \<Longrightarrow> ba_count ba b v = length (positions (ba_bits ba b) v)"
  unfolding bitarray_laws_def by blast

lemma law_index [ba_laws]: "bitarray_laws ba \<Longrightarrow>
    ba_index ba b v = (case positions (ba_bits ba b) v of [] \<Rightarrow> Inl ValueError | i # _ \<Rightarrow> Inr i)"
  unfolding bitarray_laws_def by blast

lemma law_search: "bitarray_laws ba \<Longrightarrow> ba_bits ba c = [v] \<Longrightarrow> ba_search ba b c = positions (ba_bits ba b) v"
  unfolding bitarray_laws_def by blast

lemma positions_Nil: "positions bs v = [] \<longleftrightarrow> (\<forall>i < length bs. bs ! i \<noteq> v)"
  by (auto simp: positions_def filter_empty_conv)

lemma positions_Cons:
  assumes "positions bs v = i # is" shows "i < length bs" "bs ! i = v" "j < i \<Longrightarrow> bs ! j \<noteq> v"
proof -
  have i: "i \<in> set (positions bs v)" using assms by simp
  then show "i < length bs" "bs ! i = v" by (auto simp: positions_def)
  have "sorted (positions bs v)" by (simp add: positions_def sorted_wrt_filter)
  then have le: "i \<le> k" if "k \<in> set (positions bs v)" for k using assms that by auto
  show "bs ! j \<noteq> v" if "j < i"
  proof
    assume "bs ! j = v"
    then have "j \<in> set (positions bs v)" using that \<open>i < length bs\<close> by (simp add: positions_def)
    then show False using le [of j] that by simp
  qed
qed

lemma length_positions_sum: "length (positions bs True) + length (positions bs False) = length bs"
  using sum_length_filter_compl [of "\<lambda>i. bs ! i" "[0..<length bs]"] by (simp add: positions_def)

text \<open>\<^verbatim>\<open>GetFreeSlot\<close> gives the first free slot, or the one asked for if it is free.\<close>

lemma GetFreeSlot_first:
  assumes "bitarray_laws ba" "ba_bits ba av = [False]"
  shows "case GetFreeSlot ba av slots None True of
      Inl e \<Rightarrow> e = GenericError ''All slots occupied'' \<and> (\<forall>i < length (ba_bits ba slots). ba_bits ba slots ! i)
    | Inr (i, slots') \<Rightarrow> i < length (ba_bits ba slots) \<and> \<not> ba_bits ba slots ! i \<and> (\<forall>j < i. ba_bits ba slots ! j) \<and>
        ba_bits ba slots' = (ba_bits ba slots)[i := True]"
proof (cases "positions (ba_bits ba slots) False")
  case Nil
  then have "\<forall>i < length (ba_bits ba slots). ba_bits ba slots ! i" by (simp add: positions_Nil)
  with Nil show ?thesis by (simp add: GetFreeSlot_def compat_search_def law_search [OF assms])
next
  case (Cons i "is")
  note p = positions_Cons [OF Cons]
  obtain s' where "ba_set ba slots i True = Inr s'" "ba_bits ba s' = (ba_bits ba slots)[i := True]"
    using law_set [OF assms(1) p(1)] by blast
  then show ?thesis using Cons p by (auto simp: GetFreeSlot_def compat_search_def law_search [OF assms])
qed

lemma GetFreeSlot_given:
  assumes "bitarray_laws ba" "s < length (ba_bits ba slots)"
  shows "case GetFreeSlot ba av slots (Some s) True of
      Inl e \<Rightarrow> e = GenericError ''Slot occupied'' \<and> ba_bits ba slots ! s
    | Inr (i, slots') \<Rightarrow> i = s \<and> \<not> ba_bits ba slots ! s \<and> ba_bits ba slots' = (ba_bits ba slots)[s := True]"
  using law_set [OF assms, of True] assms by (auto simp: GetFreeSlot_def law_len law_get)

section \<open>Well-formed pools\<close>

definition pool_ok :: "'b bitarray_ops \<Rightarrow> 'b address_pool \<Rightarrow> bool" where
  "pool_ok ba p \<longleftrightarrow> net_ok (ap_network p) \<and> in_width (ap_network p) = 32 \<and>
     length (ba_bits ba (ap_reservations p)) = num_addresses (ap_network p) \<and>
     length (ba_bits ba (ap_ext_reservations p)) = num_addresses (ap_network p)"

text \<open>The address with index \<open>i\<close>, and whether it is reserved in either array.\<close>

definition pool_addr :: "'b address_pool \<Rightarrow> nat \<Rightarrow> string" where
  "pool_addr p i = v4_str (in_addr (ap_network p) + i)"

definition taken :: "'b bitarray_ops \<Rightarrow> 'b address_pool \<Rightarrow> nat \<Rightarrow> bool" where
  "taken ba p i \<longleftrightarrow> ba_bits ba (ap_reservations p) ! i \<or> ba_bits ba (ap_ext_reservations p) ! i"

lemma ip_address_bound: "ip_address s = Inr a \<Longrightarrow> ia_width a = 32 \<Longrightarrow> ia_int a < 2 ^ ia_width a"
  by (auto simp: ip_address_def IPv4Address_def IPv6Address_def split: option.splits if_splits sum.splits
        dest: v4_of_str_bound)

lemma GetAddrIndex_bound:
  assumes "pool_ok ba p" "GetAddrIndex p a = Inr i" shows "i < num_addresses (ap_network p)"
proof -
  obtain addr where a: "ip_address a = Inr addr" "net_contains (ap_network p) addr"
    "i = ia_int addr - in_addr (ap_network p)"
    using assms(2) by (auto simp: GetAddrIndex_def res_bind_eq_Inr split: if_splits)
  have "ia_width addr = 32" using a(2) assms(1) by (simp add: net_contains_def pool_ok_def)
  then have "ia_int addr < 2 ^ ia_width addr" using ip_address_bound [OF a(1)] by simp
  then show ?thesis using a assms(1) by (auto simp: pool_ok_def net_contains_iff)
qed

lemma pool_addr_bound: "pool_ok ba p \<Longrightarrow> i < num_addresses (ap_network p) \<Longrightarrow> in_addr (ap_network p) + i < 2 ^ 32"
  using net_ok_room [of "ap_network p"] by (simp add: pool_ok_def num_addresses_eq)

lemma GetAddrIndex_pool_addr:
  assumes "pool_ok ba p" "i < num_addresses (ap_network p)"
  shows "GetAddrIndex p (pool_addr p i) = Inr i"
proof -
  let ?a = "\<lparr>ia_width = 32, ia_int = in_addr (ap_network p) + i\<rparr>"
  have b: "in_addr (ap_network p) + i < 2 ^ 32" using pool_addr_bound [OF assms] .
  have "ip_address (pool_addr p i) = Inr ?a"
    using ip_address_v4_str [OF b] by (simp add: pool_addr_def ip_str_def)
  moreover have "net_contains (ap_network p) ?a"
    using assms b by (subst net_contains_iff) (auto simp: pool_ok_def)
  ultimately show ?thesis by (simp add: GetAddrIndex_def)
qed

text \<open>\<^verbatim>\<open>_Mark\<close> sets one bit of one array, and writes both arrays to the network object.\<close>

definition marked :: "'b bitarray_ops \<Rightarrow> nat \<Rightarrow> bool \<Rightarrow> bool \<Rightarrow> 'b address_pool \<Rightarrow> 'b address_pool \<Rightarrow> bool" where
  "marked ba i v external p p' \<longleftrightarrow>
     ba_bits ba (ap_reservations p') =
       (if external then ba_bits ba (ap_reservations p) else (ba_bits ba (ap_reservations p))[i := v]) \<and>
     ba_bits ba (ap_ext_reservations p') =
       (if external then (ba_bits ba (ap_ext_reservations p))[i := v] else ba_bits ba (ap_ext_reservations p)) \<and>
     ap_network p' = ap_network p \<and> ap_gateway p' = ap_gateway p \<and> ap_network6 p' = ap_network6 p \<and>
     ap_gateway6 p' = ap_gateway6 p \<and>
     ap_net p' = (ap_net p)\<lparr>nw_ext_reservations := Some (ba_to01 ba (ap_ext_reservations p')),
       nw_reservations := Some (ba_to01 ba (ap_reservations p'))\<rparr>"

lemma marked_ok: "pool_ok ba p \<Longrightarrow> marked ba i v ext p p' \<Longrightarrow> pool_ok ba p'"
  by (auto simp: pool_ok_def marked_def)

lemma Mark_marked:
  assumes "bitarray_laws ba" "pool_ok ba p" "GetAddrIndex p a = Inr i"
  shows "\<exists>p'. Mark ba a v ext p = Inr p' \<and> marked ba i v ext p p'"
proof -
  have i: "i < length (ba_bits ba (ap_reservations p))" "i < length (ba_bits ba (ap_ext_reservations p))"
    using GetAddrIndex_bound [OF assms(2,3)] assms(2) by (simp_all add: pool_ok_def)
  show ?thesis
    using law_set [OF assms(1) i(1), of v] law_set [OF assms(1) i(2), of v] assms(3)
    by (cases ext) (auto simp: Mark_def marked_def Update_def)
qed

lemma IsReserved_eq:
  assumes "bitarray_laws ba" "pool_ok ba p" "GetAddrIndex p a = Inr i"
  shows "IsReserved ba a ext p =
    Inr (if ext then ba_bits ba (ap_ext_reservations p) ! i else ba_bits ba (ap_reservations p) ! i)"
  using assms GetAddrIndex_bound [OF assms(2,3)] by (simp add: IsReserved_def law_get pool_ok_def)

lemma Reserve_cases:
  assumes "bitarray_laws ba" "pool_ok ba p"
  shows "(case Reserve ba a ext p of
      Inl e \<Rightarrow> GetAddrIndex p a = Inl e \<or> (\<exists>i m. GetAddrIndex p a = Inr i \<and> e = AddressPoolError m \<and>
        (if ext then ba_bits ba (ap_ext_reservations p) ! i else ba_bits ba (ap_reservations p) ! i))
    | Inr p' \<Rightarrow> \<exists>i. GetAddrIndex p a = Inr i \<and> marked ba i True ext p p' \<and>
        \<not> (if ext then ba_bits ba (ap_ext_reservations p) ! i else ba_bits ba (ap_reservations p) ! i))"
proof (cases "GetAddrIndex p a")
  case (Inl e)
  then show ?thesis by (simp add: Reserve_def IsReserved_def)
next
  case (Inr i)
  then show ?thesis
    using Mark_marked [OF assms Inr, of True ext] IsReserved_eq [OF assms Inr, of ext]
    by (auto simp: Reserve_def)
qed

lemma Release_cases:
  assumes "bitarray_laws ba" "pool_ok ba p"
  shows "(case Release ba a ext p of
      Inl e \<Rightarrow> GetAddrIndex p a = Inl e \<or> (\<exists>i m. GetAddrIndex p a = Inr i \<and> e = AddressPoolError m \<and>
        \<not> (if ext then ba_bits ba (ap_ext_reservations p) ! i else ba_bits ba (ap_reservations p) ! i))
    | Inr p' \<Rightarrow> \<exists>i. GetAddrIndex p a = Inr i \<and> marked ba i False ext p p' \<and>
        (if ext then ba_bits ba (ap_ext_reservations p) ! i else ba_bits ba (ap_reservations p) ! i))"
proof (cases "GetAddrIndex p a")
  case (Inl e)
  then show ?thesis by (simp add: Release_def IsReserved_def)
next
  case (Inr i)
  then show ?thesis
    using Mark_marked [OF assms Inr, of False ext] IsReserved_eq [OF assms Inr, of ext]
    by (auto simp: Release_def)
qed

lemma all_reservations_taken:
  assumes "bitarray_laws ba" "pool_ok ba p"
  shows "\<exists>r. all_reservations ba p = Inr r \<and> length (ba_bits ba r) = num_addresses (ap_network p) \<and>
    (\<forall>i < num_addresses (ap_network p). ba_bits ba r ! i = taken ba p i)"
  using law_or [OF assms(1), of "ap_reservations p" "ap_ext_reservations p"] assms(2)
  by (auto simp: all_reservations_def pool_ok_def taken_def)

section \<open>Sequences of operations\<close>

datatype pool_op = OpReserve string bool | OpRelease string bool | OpGetFree

fun pool_exec :: "'b bitarray_ops \<Rightarrow> pool_op \<Rightarrow> 'b address_pool \<Rightarrow> 'b address_pool res" where
  "pool_exec ba (OpReserve a ext) p = Reserve ba a ext p"
| "pool_exec ba (OpRelease a ext) p = Release ba a ext p"
| "pool_exec ba OpGetFree p = res_bind (GetFreeAddress ba p) (\<lambda>r. Inr (snd r))"

text \<open>The invariant of a pool: it is well-formed, its converted fields are those of its
  network object, and the network object holds both arrays.\<close>

definition pool_loaded :: "'b address_pool \<Rightarrow> bool" where
  "pool_loaded p \<longleftrightarrow>
     ip_network (nw_network (ap_net p)) = Inr (ap_network p) \<and>
     IPV4_NETWORK_MIN_NUM_HOSTS \<le> num_addresses (ap_network p) \<and>
     num_addresses (ap_network p) \<le> IPV4_NETWORK_MAX_NUM_HOSTS \<and>
     if_given ip_address (nw_gateway (ap_net p)) = Inr (ap_gateway p) \<and>
     if_given IPv6Network (nw_network6 (ap_net p)) = Inr (ap_network6 p) \<and>
     if_given IPv6Address (nw_gateway6 (ap_net p)) = Inr (ap_gateway6 p)"

definition pool_synced :: "'b bitarray_ops \<Rightarrow> 'b address_pool \<Rightarrow> bool" where
  "pool_synced ba p \<longleftrightarrow>
     nw_reservations (ap_net p) = Some (ba_to01 ba (ap_reservations p)) \<and>
     nw_ext_reservations (ap_net p) = Some (ba_to01 ba (ap_ext_reservations p))"

definition pool_inv :: "'b bitarray_ops \<Rightarrow> 'b address_pool \<Rightarrow> bool" where
  "pool_inv ba p \<longleftrightarrow> bitarray_laws ba \<and> pool_ok ba p \<and> pool_loaded p \<and> pool_synced ba p"

lemma marked_inv: "pool_inv ba p \<Longrightarrow> marked ba i v ext p p' \<Longrightarrow> pool_inv ba p'"
  by (auto simp: pool_inv_def dest: marked_ok) (auto simp: marked_def pool_loaded_def pool_synced_def)

lemma GetFreeAddress_Reserve:
  assumes "GetFreeAddress ba p = Inr (a, p')" shows "Reserve ba a False p = Inr p'"
  using assms by (auto simp: GetFreeAddress_def res_bind_eq_Inr split: if_splits)

lemma Reserve_inv: "pool_inv ba p \<Longrightarrow> Reserve ba a ext p = Inr p' \<Longrightarrow> pool_inv ba p'"
  using Reserve_cases [of ba p a ext] marked_inv [of ba p] by (auto simp: pool_inv_def)

lemma Release_inv: "pool_inv ba p \<Longrightarrow> Release ba a ext p = Inr p' \<Longrightarrow> pool_inv ba p'"
  using Release_cases [of ba p a ext] marked_inv [of ba p] by (auto simp: pool_inv_def)

interpretation addr_ops: guarded_ops "pool_exec ba" "pool_inv ba" for ba
proof
  fix s opr s'
  assume "pool_inv ba s" "pool_exec ba opr s = Inr s'"
  then show "pool_inv ba s'"
    by (cases opr) (auto intro: Reserve_inv Release_inv simp: res_bind_eq_Inr dest: GetFreeAddress_Reserve)
qed

text \<open>Loading a pool from its network object.\<close>

lemma load_str:
  assumes "bitarray_laws ba" "0 < length bs"
  shows "\<exists>b. load_reservations ba n (Some (str_of_bits bs)) = Inr b \<and> ba_bits ba b = bs"
proof -
  have "str_of_bits bs \<noteq> []" using assms(2) by (simp add: str_of_bits_def)
  then show ?thesis using law_parse [OF assms(1), of bs] by (auto simp: load_reservations_def if_given_def)
qed

lemma AddressPool_cases:
  assumes "AddressPool ba net = Inr p"
  shows "ap_net p = net \<and> pool_loaded p \<and> ba_len ba (ap_reservations p) = num_addresses (ap_network p) \<and>
    ba_len ba (ap_ext_reservations p) = num_addresses (ap_network p) \<and>
    load_reservations ba (num_addresses (ap_network p)) (nw_reservations net) = Inr (ap_reservations p) \<and>
    load_reservations ba (num_addresses (ap_network p)) (nw_ext_reservations net) = Inr (ap_ext_reservations p)"
  using assms by (auto simp: AddressPool_def res_bind_eq_Inr pool_loaded_def)

lemma IPv6Network_width: "IPv6Network s = Inr n \<Longrightarrow> in_width n = 128"
  by (auto simp: IPv6Network_def make_net_def split: list.splits option.splits if_splits)

lemma ip_network_ok: "ip_network s = Inr n \<Longrightarrow> in_width n = 32 \<Longrightarrow> net_ok n"
  by (auto simp: ip_network_def split: sum.splits if_splits dest: IPv4Network_ok IPv6Network_width)

lemma Update_inv:
  assumes "bitarray_laws ba" "AddressPool ba net = Inr p" "in_width (ap_network p) = 32"
  shows "pool_inv ba (Update ba p)"
  using AddressPool_cases [OF assms(2)] assms(1,3)
  by (auto simp: pool_inv_def pool_ok_def Update_def pool_synced_def law_len pool_loaded_def intro: ip_network_ok)

lemma reload:
  assumes "pool_inv ba p"
  shows "\<exists>q. AddressPool ba (ap_net p) = Inr q \<and> ap_network q = ap_network p \<and> ap_gateway q = ap_gateway p \<and>
    ap_network6 q = ap_network6 p \<and> ap_gateway6 q = ap_gateway6 p \<and>
    ba_bits ba (ap_reservations q) = ba_bits ba (ap_reservations p) \<and>
    ba_bits ba (ap_ext_reservations q) = ba_bits ba (ap_ext_reservations p)"
proof -
  let ?n = "num_addresses (ap_network p)"
  have laws: "bitarray_laws ba" and l: "pool_loaded p" and s: "pool_synced ba p" and k: "pool_ok ba p"
    using assms by (auto simp: pool_inv_def)
  have n: "0 < length (ba_bits ba (ap_reservations p))" "0 < length (ba_bits ba (ap_ext_reservations p))"
    using k by (simp_all add: pool_ok_def num_addresses_def)
  obtain r where r: "load_reservations ba ?n (nw_reservations (ap_net p)) = Inr r"
    "ba_bits ba r = ba_bits ba (ap_reservations p)"
    using load_str [OF laws n(1), of ?n] s by (auto simp: pool_synced_def law_to01 [OF laws])
  obtain e where e: "load_reservations ba ?n (nw_ext_reservations (ap_net p)) = Inr e"
    "ba_bits ba e = ba_bits ba (ap_ext_reservations p)"
    using load_str [OF laws n(2), of ?n] s by (auto simp: pool_synced_def law_to01 [OF laws])
  show ?thesis
    using l k r e by (auto simp: AddressPool_def pool_loaded_def res_bind_eq_Inr pool_ok_def law_len [OF laws])
qed

text \<open>Reserving an address of the pool externally.\<close>

lemma Reserve_ext:
  assumes "pool_inv ba p" "GetAddrIndex p a = Inr i" "\<not> ba_bits ba (ap_ext_reservations p) ! i"
  shows "\<exists>p'. Reserve ba a True p = Inr p' \<and> marked ba i True True p p' \<and> pool_inv ba p'"
proof -
  have l: "bitarray_laws ba" "pool_ok ba p" using assms(1) by (auto simp: pool_inv_def)
  show ?thesis
    using Mark_marked [OF l assms(2), of True True] IsReserved_eq [OF l assms(2), of True] assms(3)
      marked_inv [OF assms(1)] by (auto simp: Reserve_def)
qed

lemma GetAddrIndex_marked: "marked ba i v ext p p' \<Longrightarrow> GetAddrIndex p' a = GetAddrIndex p a"
proof -
  assume "marked ba i v ext p p'"
  then have n: "ap_network p' = ap_network p" by (simp add: marked_def)
  show ?thesis unfolding GetAddrIndex_def n ..
qed

lemma reserve_ends:
  assumes "pool_inv ba p" "\<forall>i < num_addresses (ap_network p). \<not> ba_bits ba (ap_ext_reservations p) ! i"
  shows "\<exists>p1 p2. Reserve ba (pool_addr p 0) True p = Inr p1 \<and>
    Reserve ba (pool_addr p (num_addresses (ap_network p) - 1)) True p1 = Inr p2 \<and>
    marked ba 0 True True p p1 \<and> marked ba (num_addresses (ap_network p) - 1) True True p1 p2 \<and> pool_inv ba p2"
proof -
  let ?n = "num_addresses (ap_network p)"
  have n: "4 \<le> ?n" and k: "pool_ok ba p"
    using assms(1)
    by (auto simp: pool_inv_def pool_loaded_def IPV4_NETWORK_MIN_NUM_HOSTS_def ComputeIpv4NumHosts_def IPV4_NETWORK_MIN_SIZE_def)
  have g: "GetAddrIndex p (pool_addr p 0) = Inr 0" "GetAddrIndex p (pool_addr p (?n - 1)) = Inr (?n - 1)"
    using n by (auto intro!: GetAddrIndex_pool_addr [OF k])
  obtain p1 where p1: "Reserve ba (pool_addr p 0) True p = Inr p1" "marked ba 0 True True p p1" "pool_inv ba p1"
    using Reserve_ext [OF assms(1) g(1)] assms(2) n by auto
  have "GetAddrIndex p1 (pool_addr p (?n - 1)) = Inr (?n - 1)"
    using g(2) GetAddrIndex_marked [OF p1(2)] by simp
  moreover have "\<not> ba_bits ba (ap_ext_reservations p1) ! (?n - 1)"
    using p1(2) assms(2) n k by (simp add: marked_def pool_ok_def)
  ultimately show ?thesis using Reserve_ext [OF p1(3)] p1(1,2) by blast
qed

lemma ip_address_empty [simp]: "ip_address [] = Inl ValueError"
  by (simp add: ip_address_def IPv4Address_def v4_of_str_def IPv6Address_def v6_scoped_def v6_of_str_def v6_parts_def)

lemma Validate_eq:
  assumes "pool_inv ba p"
  shows "Validate ba p =
    check ((case ap_gateway p of None \<Rightarrow> True | Some g \<Rightarrow> net_contains (ap_network p) g) \<and>
           (case (ap_network6 p, ap_gateway6 p) of
              (Some n, Some g) \<Rightarrow> net_contains n g \<or> is_link_local g | _ \<Rightarrow> True)) AssertionError"
proof -
  have "ba_len ba (ap_reservations p) = GetSize p" "ba_len ba (ap_ext_reservations p) = GetSize p"
    using assms by (auto simp: pool_inv_def pool_ok_def law_len GetSize_def num_addresses_eq)
  then show ?thesis by (auto simp: Validate_def check_def split: option.splits)
qed

lemma InitializeNetwork_ends:
  assumes "bitarray_laws ba" "AddressPool ba net = Inr p0" "in_width (ap_network p0) = 32"
    and "\<forall>i < num_addresses (ap_network p0). \<not> ba_bits ba (ap_ext_reservations p0) ! i"
  shows "\<exists>p1 p2. marked ba 0 True True (Update ba p0) p1 \<and>
    marked ba (num_addresses (ap_network p0) - 1) True True p1 p2 \<and> pool_inv ba p2 \<and>
    InitializeNetwork ba net =
      res_bind (case nw_gateway net of None \<Rightarrow> Inr p2 | Some g \<Rightarrow> Reserve ba g True p2) (\<lambda>obj3.
      res_bind (Validate ba obj3) (\<lambda>_. Inr obj3))"
proof -
  let ?p = "Update ba p0" and ?n = "num_addresses (ap_network p0)"
  have u: "ap_network ?p = ap_network p0" "ap_ext_reservations ?p = ap_ext_reservations p0" by (simp_all add: Update_def)
  have inv: "pool_inv ba ?p" by (rule Update_inv [OF assms(1-3)])
  then have ok: "net_ok (ap_network p0)" by (simp add: pool_inv_def pool_ok_def u)
  obtain p1 p2 where p: "Reserve ba (pool_addr ?p 0) True ?p = Inr p1" "Reserve ba (pool_addr ?p (?n - 1)) True p1 = Inr p2"
    "marked ba 0 True True ?p p1" "marked ba (?n - 1) True True p1 p2" "pool_inv ba p2"
    using reserve_ends [OF inv] assms(4) unfolding u by blast
  have "net_getitem (ap_network p0) 0 = Inr \<lparr>ia_width = 32, ia_int = in_addr (ap_network p0)\<rparr>"
    using net_getitem_nonneg [OF ok, of 0] assms(3) by (simp add: num_addresses_def)
  then have "InitializeNetwork ba net =
      res_bind (case nw_gateway net of None \<Rightarrow> Inr p2 | Some g \<Rightarrow> Reserve ba g True p2) (\<lambda>obj3.
      res_bind (Validate ba obj3) (\<lambda>_. Inr obj3))"
    using p(1,2) net_getitem_last [OF ok] assms(2,3)
    by (simp add: InitializeNetwork_def ip_str_def pool_addr_def u)
  with p(3-5) show ?thesis by blast
qed

text \<open>What the reporting operations give.\<close>

lemma counts_sum:
  assumes "bitarray_laws ba" "pool_ok ba p"
  shows "\<exists>r f. GetReservedCount ba p = Inr r \<and> GetFreeCount ba p = Inr f \<and> r + f = num_addresses (ap_network p)"
  using all_reservations_taken [OF assms] length_positions_sum
  by (auto simp: GetReservedCount_def GetFreeCount_def law_count [OF assms(1)])

lemma GetMap_eq:
  assumes "bitarray_laws ba" "pool_ok ba p"
  shows "GetMap ba p = Inr (map (\<lambda>i. if taken ba p i then CHR ''X'' else CHR ''.'') [0..<num_addresses (ap_network p)])"
proof -
  obtain r where r: "all_reservations ba p = Inr r" "length (ba_bits ba r) = num_addresses (ap_network p)"
    "\<forall>i < num_addresses (ap_network p). ba_bits ba r ! i = taken ba p i"
    using all_reservations_taken [OF assms] by blast
  show ?thesis using r
    by (auto simp: GetMap_def law_to01 [OF assms(1)] str_of_bits_def intro!: nth_equalityI)
qed

lemma GetExternalReservations_eq:
  assumes "bitarray_laws ba" "pool_ok ba p" "ba_bits ba reserved = [True]"
  shows "GetExternalReservations ba reserved p = Inr (map (pool_addr p) (positions (ba_bits ba (ap_ext_reservations p)) True))"
proof -
  have "addresses_at (ap_network p) is = Inr (map (pool_addr p) is)"
    if "\<forall>i \<in> set is. i < num_addresses (ap_network p)" for "is"
    using that assms(2)
    by (induction "is") (auto simp: net_getitem_nonneg pool_ok_def ip_str_def pool_addr_def)
  moreover have "\<forall>i \<in> set (positions (ba_bits ba (ap_ext_reservations p)) True). i < num_addresses (ap_network p)"
    using assms(2) by (auto simp: positions_def pool_ok_def)
  ultimately show ?thesis
    by (simp add: GetExternalReservations_def compat_search_def law_search [OF assms(1,3)])
qed

text \<open>A network of four addresses, for the examples.\<close>

definition demo_net :: network where
  "demo_net = \<lparr>nw_network = ''10.0.0.0/30'', nw_gateway = Some ''10.0.0.1'', nw_network6 = None, nw_gateway6 = None,
     nw_reservations = None, nw_ext_reservations = None\<rparr>"

definition demo_pool :: "bool list address_pool" where
  "demo_pool = \<lparr>ap_net = demo_net, ap_network = \<lparr>in_width = 32, in_addr = 167772160, in_prefixlen = 30\<rparr>,
     ap_gateway = Some \<lparr>ia_width = 32, ia_int = 167772161\<rparr>, ap_network6 = None, ap_gateway6 = None,
     ap_reservations = [False, False, False, False], ap_ext_reservations = [False, False, False, False]\<rparr>"

lemmas v4_eval = v4_of_str_def v4_octet_def is_digit_char_def digits_value_def digit_value_def

lemma demo_address: "ip_address ''10.0.0.1'' = Inr \<lparr>ia_width = 32, ia_int = 167772161\<rparr>"
  by (simp add: ip_address_def IPv4Address_def v4_eval)

lemma demo_net_ok: "net_ok (ap_network demo_pool)"
  by (simp add: demo_pool_def net_ok_def)

lemma demo_network: "ip_network ''10.0.0.0/30'' = Inr (ap_network demo_pool)"
  by (simp add: ip_network_def IPv4Network_def v4_eval v4_prefix_def prefix_of_digits_def make_net_def and_netmask demo_pool_def)

lemma demo_size: "num_addresses (ap_network demo_pool) = 4"
  using num_addresses_eq [OF demo_net_ok] by (simp add: demo_pool_def)

lemma demo_free: "i < 4 \<Longrightarrow> \<not> ap_reservations demo_pool ! i \<and> \<not> ap_ext_reservations demo_pool ! i"
proof -
  assume "i < 4"
  then have "i = 0 \<or> i = 1 \<or> i = 2 \<or> i = 3" by auto
  then show ?thesis by (elim disjE) (simp_all add: demo_pool_def)
qed

lemma demo_load: "AddressPool list_bits demo_net = Inr demo_pool"
proof -
  have r: "map (\<lambda>_. False) (replicate 4 True) = [False, False, False, False]" by (simp add: numeral_eq_Suc)
  show ?thesis
    using demo_size unfolding AddressPool_def load_reservations_def
    by (simp add: demo_net_def demo_network demo_address if_given_def
          list_bits_def IPV4_NETWORK_MIN_NUM_HOSTS_def IPV4_NETWORK_MAX_NUM_HOSTS_def ComputeIpv4NumHosts_def
          IPV4_NETWORK_MIN_SIZE_def IPV4_NETWORK_MAX_SIZE_def r del: map_replicate) (simp add: demo_pool_def demo_net_def)
qed

section \<open>Properties\<close>

text \<open>C32: on a well-formed pool \<^verbatim>\<open>GetFreeAddress\<close> raises \<^verbatim>\<open>AddressPoolError\<close> exactly if every address
  is reserved internally or externally; otherwise it gives the lowest address that is in
  neither array, which \<^verbatim>\<open>GenerateFree\<close> gives too, reserves it internally, changes no other
  reservation, and writes the arrays to the network object.\<close>

theorem address_pool_free:
  assumes "bitarray_laws ba" "pool_ok ba p" "ba_bits ba free = [False]"
  shows "case GetFreeAddress ba p of
      Inl e \<Rightarrow> e = AddressPoolError ''network is full'' \<and> GenerateFree ba free p = Inl e \<and>
        (\<forall>i < num_addresses (ap_network p). taken ba p i)
    | Inr (a, p') \<Rightarrow> \<exists>i < num_addresses (ap_network p). a = pool_addr p i \<and> GenerateFree ba free p = Inr a \<and>
        \<not> taken ba p i \<and> (\<forall>j < i. taken ba p j) \<and> marked ba i True False p p' \<and> pool_ok ba p'"
proof -
  let ?n = "num_addresses (ap_network p)"
  obtain r where r: "all_reservations ba p = Inr r" "length (ba_bits ba r) = ?n"
    "\<And>i. i < ?n \<Longrightarrow> ba_bits ba r ! i = taken ba p i" using all_reservations_taken [OF assms(1,2)] by blast
  show ?thesis
  proof (cases "positions (ba_bits ba r) False")
    case Nil
    then have t: "\<forall>i < ?n. taken ba p i" using r(2,3) by (simp add: positions_Nil)
    then have "list_all id (ba_bits ba r)" using r(2,3) by (simp add: list_all_length)
    then show ?thesis using t r(1) Nil assms(1)
      by (simp add: GetFreeAddress_def IsFull_def law_all GenerateFree_def compat_search_def law_search [OF assms(1,3)])
  next
    case (Cons i "is")
    note p = positions_Cons [OF Cons]
    have i1: "i < ?n" using p(1) r(2) by simp
    have i2: "taken ba p j" if "j < i" for j using p(3) [OF that] r(3) [of j] i1 that by simp
    have i: "i < ?n" "\<not> taken ba p i" "\<forall>j < i. taken ba p j" using i1 i2 p(2) r(3) by auto
    have nf: "\<not> list_all id (ba_bits ba r)" using p(1,2) by (auto simp: list_all_length)
    have a: "net_getitem (ap_network p) (int i) = Inr \<lparr>ia_width = 32, ia_int = in_addr (ap_network p) + i\<rparr>"
      using assms(2) i(1) by (simp add: net_getitem_nonneg pool_ok_def)
    have s: "ip_str \<lparr>ia_width = 32, ia_int = in_addr (ap_network p) + i\<rparr> = pool_addr p i"
      by (simp add: ip_str_def pool_addr_def)
    have idx: "GetAddrIndex p (pool_addr p i) = Inr i" using GetAddrIndex_pool_addr [OF assms(2) i(1)] .
    obtain p' where p': "Reserve ba (pool_addr p i) False p = Inr p'" "marked ba i True False p p'"
      using Mark_marked [OF assms(1,2) idx, of True False] IsReserved_eq [OF assms(1,2) idx, of False] i(2)
      by (auto simp: Reserve_def taken_def)
    have "GetFreeAddress ba p = Inr (pool_addr p i, p')"
      using r(1) nf assms(1) Cons a p'(1) by (simp add: GetFreeAddress_def IsFull_def law_all law_index s)
    moreover have "GenerateFree ba free p = Inr (pool_addr p i)"
      using r(1) Cons a by (simp add: GenerateFree_def compat_search_def law_search [OF assms(1,3)] s)
    ultimately show ?thesis using i p'(2) marked_ok [OF assms(2) p'(2)] by auto
  qed
qed

theorem address_pool_free_witness:
  "\<exists>a p'. GetFreeAddress list_bits demo_pool = Inr (a, p') \<and> a = pool_addr demo_pool 0"
proof -
  have ok: "pool_ok list_bits demo_pool" using demo_net_ok demo_size by (simp add: pool_ok_def) (simp add: demo_pool_def)
  have free: "\<not> taken list_bits demo_pool i" if "i < 4" for i
    using demo_free [OF that] by (simp add: taken_def)
  have f: "ba_bits list_bits [False] = [False]" by simp
  note r = address_pool_free [OF list_bits_laws ok f]
  show ?thesis
  proof (cases "GetFreeAddress list_bits demo_pool")
    case (Inl e)
    then have "taken list_bits demo_pool 0" using r demo_size by simp
    with free [of 0] show ?thesis by simp
  next
    case (Inr ap)
    obtain a p' where ap: "ap = (a, p')" by (cases ap)
    obtain i where "a = pool_addr demo_pool i" "\<forall>j < i. taken list_bits demo_pool j"
      using r Inr ap by auto
    moreover have "i = 0" using calculation(2) free [of 0] by (cases i) auto
    ultimately show ?thesis using Inr ap by blast
  qed
qed

text \<open>The network object is a faithful record of the pool: after any sequence of reservations,
  releases and requests for free addresses, failed ones included, on a pool created from a
  network object, creating the pool again from the object gives the same network,
  gateways and reservations.\<close>

theorem address_pool_reload:
  assumes "bitarray_laws ba" "AddressPool ba net = Inr p0" "in_width (ap_network p0) = 32"
    and "p = run_ops (pool_exec ba) ops (Update ba p0)"
  shows "\<exists>q. AddressPool ba (ap_net p) = Inr q \<and> ap_network q = ap_network p \<and> ap_gateway q = ap_gateway p \<and>
    ap_network6 q = ap_network6 p \<and> ap_gateway6 q = ap_gateway6 p \<and>
    ba_bits ba (ap_reservations q) = ba_bits ba (ap_reservations p) \<and>
    ba_bits ba (ap_ext_reservations q) = ba_bits ba (ap_ext_reservations p)"
  unfolding assms(4) by (intro reload addr_ops.run_ops_inv Update_inv) (use assms in auto)

theorem address_pool_reload_witness:
  "AddressPool list_bits demo_net = Inr demo_pool \<and>
   (\<exists>q. AddressPool list_bits (ap_net (run_ops (pool_exec list_bits) [OpGetFree, OpReserve ''10.0.0.2'' True] (Update list_bits demo_pool))) = Inr q)"
  using address_pool_reload [OF list_bits_laws demo_load _ refl, of "[OpGetFree, OpReserve ''10.0.0.2'' True]"] demo_load
  by (auto simp: demo_pool_def)

text \<open>Initializing a network without external reservations succeeds exactly if its gateway, if
  it has one, is an address of the network other than the first and the last, and its
  IPv6 gateway fits its IPv6 network; then exactly the first, the last and the gateway's address
  are externally reserved, and the internal reservations are unchanged.\<close>

theorem address_pool_initialize:
  assumes "bitarray_laws ba" "AddressPool ba net = Inr p0" "in_width (ap_network p0) = 32"
    and "\<forall>i < num_addresses (ap_network p0). \<not> ba_bits ba (ap_ext_reservations p0) ! i"
  shows "((\<exists>p. InitializeNetwork ba net = Inr p) \<longleftrightarrow>
      (case nw_gateway net of None \<Rightarrow> True
       | Some g \<Rightarrow> (\<exists>k. GetAddrIndex p0 g = Inr k \<and> k \<notin> {0, num_addresses (ap_network p0) - 1})) \<and>
      (case (ap_network6 p0, ap_gateway6 p0) of
         (Some n, Some g) \<Rightarrow> net_contains n g \<or> is_link_local g | _ \<Rightarrow> True)) \<and>
    (\<forall>p. InitializeNetwork ba net = Inr p \<longrightarrow>
       ba_bits ba (ap_reservations p) = ba_bits ba (ap_reservations p0) \<and>
       (\<forall>i < num_addresses (ap_network p0). ba_bits ba (ap_ext_reservations p) ! i \<longleftrightarrow>
          i = 0 \<or> i = num_addresses (ap_network p0) - 1 \<or>
          (\<exists>g. nw_gateway net = Some g \<and> GetAddrIndex p0 g = Inr i)))"
proof -
  let ?n = "num_addresses (ap_network p0)" and ?gw = "nw_gateway net"
  obtain p1 p2 where m: "marked ba 0 True True (Update ba p0) p1" "marked ba (?n - 1) True True p1 p2"
    and inv: "pool_inv ba p2" and run: "InitializeNetwork ba net =
      res_bind (case ?gw of None \<Rightarrow> Inr p2 | Some g \<Rightarrow> Reserve ba g True p2) (\<lambda>obj3.
      res_bind (Validate ba obj3) (\<lambda>_. Inr obj3))"
    using InitializeNetwork_ends [OF assms] by blast
  have p0: "ap_net p0 = net" "pool_loaded p0" "length (ba_bits ba (ap_ext_reservations p0)) = ?n"
    using AddressPool_cases [OF assms(2)] assms(1) by (auto simp: law_len)
  have p2: "ap_network p2 = ap_network p0" "ap_gateway p2 = ap_gateway p0" "ap_network6 p2 = ap_network6 p0"
    "ap_gateway6 p2 = ap_gateway6 p0" "ba_bits ba (ap_reservations p2) = ba_bits ba (ap_reservations p0)"
    "ba_bits ba (ap_ext_reservations p2) = (ba_bits ba (ap_ext_reservations p0))[0 := True, ?n - 1 := True]"
    using m by (auto simp: marked_def Update_def)
  have bits: "ba_bits ba (ap_ext_reservations p2) ! i \<longleftrightarrow> i = 0 \<or> i = ?n - 1" if "i < ?n" for i
    using that assms(4) p0(3) by (auto simp: p2(6) nth_list_update)
  have idx: "GetAddrIndex p2 g = GetAddrIndex p0 g" for g unfolding GetAddrIndex_def p2(1) ..
  have lt: "i < ?n" if "GetAddrIndex p0 g = Inr i" for g i
    using GetAddrIndex_bound [of ba p2 g i] inv that by (simp add: pool_inv_def idx p2(1))
  show ?thesis
  proof (cases ?gw)
    case None
    then have "ap_gateway p0 = None" using p0(1,2) by (auto simp: pool_loaded_def if_given_def)
    then show ?thesis using None run bits by (auto simp: Validate_eq [OF inv] p2 res_bind_eq_Inr)
  next
    case (Some g)
    show ?thesis
    proof (cases "\<exists>k. GetAddrIndex p0 g = Inr k \<and> k \<notin> {0, ?n - 1}")
      case True
      then obtain k where k: "GetAddrIndex p0 g = Inr k" "k \<noteq> 0" "k \<noteq> ?n - 1" by auto
      obtain p3 where p3: "Reserve ba g True p2 = Inr p3" "marked ba k True True p2 p3" "pool_inv ba p3"
        using Reserve_ext [OF inv, of g k] k bits [OF lt [OF k(1)]] by (auto simp: idx)
      have gw: "\<exists>a. ap_gateway p0 = Some a \<and> net_contains (ap_network p0) a"
      proof -
        obtain a where a: "ip_address g = Inr a" "net_contains (ap_network p0) a"
          using k(1) by (auto simp: GetAddrIndex_def res_bind_eq_Inr split: if_splits)
        then have "g \<noteq> []" by auto
        then have "ap_gateway p0 = Some a" using a(1) Some p0(1,2) by (auto simp: pool_loaded_def if_given_def)
        with a(2) show ?thesis by blast
      qed
      have "ba_bits ba (ap_ext_reservations p3) ! i \<longleftrightarrow> i = 0 \<or> i = ?n - 1 \<or> i = k" if "i < ?n" for i
        using bits [OF that] p3(2) lt [OF k(1)] that p0(3) p2(6) by (auto simp: marked_def nth_list_update)
      moreover have f: "ap_network p3 = ap_network p0" "ap_gateway p3 = ap_gateway p0" "ap_network6 p3 = ap_network6 p0"
        "ap_gateway6 p3 = ap_gateway6 p0" "ba_bits ba (ap_reservations p3) = ba_bits ba (ap_reservations p0)"
        using p3(2) p2 by (auto simp: marked_def)
      moreover have "InitializeNetwork ba net = res_bind (Validate ba p3) (\<lambda>_. Inr p3)"
        using run Some p3(1) by simp
      ultimately show ?thesis using Some k gw unfolding Validate_eq [OF p3(3)] f(1-4)
        by (auto simp: res_bind_eq_Inr f(5))
    next
      case False
      then have "\<And>p. Reserve ba g True p2 \<noteq> Inr p"
        using Reserve_cases [of ba p2 g True] inv bits lt by (auto simp: pool_inv_def idx split: sum.splits)
      then show ?thesis using False Some run by (auto simp: res_bind_eq_Inr)
    qed
  qed
qed

theorem address_pool_initialize_witness:
  "\<exists>p. InitializeNetwork list_bits demo_net = Inr p"
proof -
  have "\<forall>i < 4. \<not> ap_ext_reservations demo_pool ! i" using demo_free by blast
  moreover have "GetAddrIndex demo_pool ''10.0.0.1'' = Inr 1"
    using demo_net_ok demo_size
    by (simp add: GetAddrIndex_def demo_address net_contains_iff) (simp add: demo_pool_def)
  moreover have "in_width (ap_network demo_pool) = 32" "ap_network6 demo_pool = None" "nw_gateway demo_net = Some ''10.0.0.1''"
    by (simp_all add: demo_pool_def demo_net_def)
  ultimately show ?thesis
    using address_pool_initialize [OF list_bits_laws demo_load] demo_size by simp
qed

end
