(* ===== verification/Reservations.thy ===== *)
theory Reservations
  imports Main Ganeti_Prelude
begin

text \<open>
  The temporary reservations of \<^verbatim>\<open>lib/config/temporary_reservations.py\<close>: resources that the
  execution context of a job has reserved until the job is done. The dictionary of
  reservations is an association list from contexts to sets, in the order of insertion.
  Lemmas: a resource is reserved by one context at most, dropping a context frees its
  resources and no others, and when a generated resource is found.
\<close>

section \<open>The reservation manager\<close>

type_synonym ('e, 'r) reservations = "('e \<times> 'r set) list"

definition empty_reservations :: "('e, 'r) reservations" where
  "empty_reservations = []"

fun Reserved :: "'r \<Rightarrow> ('e, 'r) reservations \<Rightarrow> bool" where
  "Reserved resource [] = False"
| "Reserved resource ((ec, held) # m) = (if resource \<in> held then True else Reserved resource m)"

text \<open>Assigning to a key of a dictionary keeps its position, or adds it at the end.\<close>

fun add_reservation :: "'e \<Rightarrow> 'r \<Rightarrow> ('e, 'r) reservations \<Rightarrow> ('e, 'r) reservations" where
  "add_reservation ec_id resource [] = [(ec_id, {resource})]"
| "add_reservation ec_id resource ((ec, held) # m) =
     (if ec = ec_id then (ec, insert resource held) # m else (ec, held) # add_reservation ec_id resource m)"

definition Reserve_resource :: "'e \<Rightarrow> 'r \<Rightarrow> ('e, 'r) reservations \<Rightarrow> ('e, 'r) reservations res" where
  "Reserve_resource ec_id resource m =
     (if Reserved resource m then Inl (ReservationError ''Duplicate reservation for resource'')
      else Inr (add_reservation ec_id resource m))"

definition DropECReservations :: "'e \<Rightarrow> ('e, 'r) reservations \<Rightarrow> ('e, 'r) reservations" where
  "DropECReservations ec_id m = filter (\<lambda>(ec, held). ec \<noteq> ec_id) m"

definition GetReserved :: "('e, 'r) reservations \<Rightarrow> 'r set" where
  "GetReserved m = fold (\<lambda>(ec, held) all. all \<union> held) m {}"

definition GetECReserved :: "'e \<Rightarrow> ('e, 'r) reservations \<Rightarrow> 'r set" where
  "GetECReserved ec_id m = (case map_of m ec_id of None \<Rightarrow> {} | Some held \<Rightarrow> held)"

section \<open>Generating a resource\<close>

text \<open>
  The generator is a function of its own state. The loop never changes the number of
  retries, so it may go on for ever: its result is then \<open>None\<close>.
\<close>

partial_function (option) generate_loop ::
  "('g \<Rightarrow> 'r option \<times> 'g) \<Rightarrow> 'r set \<Rightarrow> nat \<Rightarrow> 'g \<Rightarrow> ('r res \<times> 'g) option" where
  "generate_loop gen all_elems retries g =
     (if 0 < retries then
        (case gen g of (new_resource, g') \<Rightarrow>
           if new_resource \<noteq> None \<and> the new_resource \<notin> all_elems then Some (Inr (the new_resource), g')
           else generate_loop gen all_elems retries g')
      else Some (Inl (ConfigurationError ''Not able generate new resource''), g))"

definition Generate :: "'r set \<Rightarrow> ('g \<Rightarrow> 'r option \<times> 'g) \<Rightarrow> 'e \<Rightarrow> 'g \<Rightarrow> ('e, 'r) reservations \<Rightarrow>
    ('r res \<times> 'g \<times> ('e, 'r) reservations) option" where
  "Generate existing gen ec_id g m =
     (case generate_loop gen (GetReserved m \<union> existing) 64 g of
        None \<Rightarrow> None
      | Some (Inl e, g') \<Rightarrow> Some (Inl e, g', m)
      | Some (Inr r, g') \<Rightarrow>
          (case Reserve_resource ec_id r m of
             Inl e \<Rightarrow> Some (Inl e, g', m)
           | Inr m' \<Rightarrow> Some (Inr r, g', m')))"

section \<open>One holder per resource\<close>

definition reservations_ok :: "('e, 'r) reservations \<Rightarrow> bool" where
  "reservations_ok m \<longleftrightarrow> distinct (map fst m) \<and>
     (\<forall>(e1, h1) \<in> set m. \<forall>(e2, h2) \<in> set m. e1 \<noteq> e2 \<longrightarrow> h1 \<inter> h2 = {})"

lemma Reserved_iff: "Reserved r m \<longleftrightarrow> (\<exists>(ec, held) \<in> set m. r \<in> held)"
  by (induction m) auto

lemma fold_union: "fold (\<lambda>(ec, held) all. all \<union> held) m A = A \<union> (\<Union>(ec, held) \<in> set m. held)"
  by (induction m arbitrary: A) auto

lemma GetReserved_iff: "r \<in> GetReserved m \<longleftrightarrow> Reserved r m"
  by (auto simp: GetReserved_def fold_union Reserved_iff)

lemma add_reservation_keys: "fst ` set (add_reservation e r m) = insert e (fst ` set m)"
proof (induction m)
  case (Cons p m)
  then show ?case by (cases p) (simp, blast)
qed simp

lemma add_reservation_distinct: "distinct (map fst m) \<Longrightarrow> distinct (map fst (add_reservation e r m))"
proof (induction m)
  case (Cons p m)
  then show ?case using add_reservation_keys [of e r m] by (cases p) (simp, blast)
qed simp

lemma add_reservation_map_of:
  "map_of (add_reservation e r m) =
     (map_of m)(e \<mapsto> insert r (case map_of m e of None \<Rightarrow> {} | Some h \<Rightarrow> h))"
  by (induction m) auto

lemma ok_map_of:
  "reservations_ok m \<longleftrightarrow> distinct (map fst m) \<and>
     (\<forall>e1 e2 h1 h2. map_of m e1 = Some h1 \<longrightarrow> map_of m e2 = Some h2 \<longrightarrow> e1 \<noteq> e2 \<longrightarrow> h1 \<inter> h2 = {})"
  unfolding reservations_ok_def by (cases "distinct (map fst m)") (simp_all add: map_of_eq_Some_iff split_beta, fastforce)

lemma Reserved_map_of: "distinct (map fst m) \<Longrightarrow> Reserved r m \<longleftrightarrow> (\<exists>e h. map_of m e = Some h \<and> r \<in> h)"
  by (auto simp: Reserved_iff map_of_eq_Some_iff)

lemma Reserve_ok:
  assumes "reservations_ok m" "Reserve_resource e r m = Inr m'" shows "reservations_ok m'"
proof -
  have d: "distinct (map fst m)" and m': "m' = add_reservation e r m" "\<not> Reserved r m"
    using assms by (auto simp: reservations_ok_def Reserve_resource_def split: if_splits)
  have "\<forall>e h. map_of m e = Some h \<longrightarrow> r \<notin> h" using m'(2) d by (auto simp: Reserved_map_of)
  then show ?thesis
    using assms(1) d by (auto simp: ok_map_of m'(1) add_reservation_map_of add_reservation_distinct split: option.splits)
qed

lemma DropECReservations_map_of: "map_of (DropECReservations e m) = (map_of m)(e := None)"
  by (induction m) (auto simp: DropECReservations_def)

lemma Drop_ok: "reservations_ok m \<Longrightarrow> reservations_ok (DropECReservations e m)"
proof -
  assume ok: "reservations_ok m"
  then have "distinct (map fst (DropECReservations e m))"
    by (simp add: reservations_ok_def DropECReservations_def distinct_map_filter)
  then show ?thesis using ok by (auto simp: ok_map_of DropECReservations_map_of split: if_splits)
qed

section \<open>Operations\<close>

datatype ('e, 'r) res_op = OpTake 'e 'r | OpDrop 'e

fun res_exec :: "('e, 'r) res_op \<Rightarrow> ('e, 'r) reservations \<Rightarrow> ('e, 'r) reservations res" where
  "res_exec (OpTake e r) m = Reserve_resource e r m"
| "res_exec (OpDrop e) m = Inr (DropECReservations e m)"

interpretation res_ops: guarded_ops res_exec reservations_ok
proof
  fix s opr s'
  assume "reservations_ok s" "res_exec opr s = Inr s'"
  then show "reservations_ok s'" by (cases opr) (auto intro: Reserve_ok Drop_ok)
qed

section \<open>The generator loop\<close>

text \<open>The first resource that the generator offers and that is not in use.\<close>

fun offers :: "('g \<Rightarrow> 'r option \<times> 'g) \<Rightarrow> 'g \<Rightarrow> nat \<Rightarrow> 'r option" where
  "offers gen g 0 = fst (gen g)"
| "offers gen g (Suc n) = offers gen (snd (gen g)) n"

definition fresh :: "'r set \<Rightarrow> 'r option \<Rightarrow> bool" where
  "fresh used r \<longleftrightarrow> r \<noteq> None \<and> the r \<notin> used"

lemma generate_loop_finds:
  assumes "fresh used (offers gen g n)" "\<And>k. k < n \<Longrightarrow> \<not> fresh used (offers gen g k)"
  shows "\<exists>g'. generate_loop gen used 64 g = Some (Inr (the (offers gen g n)), g')"
  using assms
proof (induction n arbitrary: g)
  case 0
  then show ?case by (subst generate_loop.simps) (simp add: fresh_def split_beta)
next
  case (Suc n)
  have "\<not> fresh used (fst (gen g))" using Suc.prems(2) [of 0] by simp
  moreover have "\<exists>g'. generate_loop gen used 64 (snd (gen g)) = Some (Inr (the (offers gen (snd (gen g)) n)), g')"
    using Suc.prems(1) Suc.prems(2) [of "Suc _"] by (intro Suc.IH) auto
  ultimately show ?case
    by (subst generate_loop.simps) (auto simp: fresh_def split_beta)
qed

lemma generate_loop_result:
  assumes "generate_loop gen used k g = Some y" "0 < k"
  shows "\<exists>n. fresh used (offers gen g n) \<and> fst y = Inr (the (offers gen g n))"
proof -
  have "0 < k \<longrightarrow> (\<exists>n. fresh used (offers gen g n) \<and> fst y = Inr (the (offers gen g n)))"
  proof (rule generate_loop.raw_induct [where P = "\<lambda>gen used k g y. 0 < k \<longrightarrow>
        (\<exists>n. fresh used (offers gen g n) \<and> fst y = Inr (the (offers gen g n)))", OF _ assms(1)])
    fix loop and gen :: "'c \<Rightarrow> 'a option \<times> 'c" and used k g y
    let ?P = "\<lambda>gen used k g y. 0 < k \<longrightarrow> (\<exists>n. fresh used (offers gen g n) \<and> fst y = Inr (the (offers gen g n)))"
    assume IH: "\<And>gen used k g y. loop gen used k g = Some y \<Longrightarrow> ?P gen used k g y"
      and step: "(if 0 < k then case gen g of (new_resource, g') \<Rightarrow>
           if new_resource \<noteq> None \<and> the new_resource \<notin> used then Some (Inr (the new_resource), g')
           else loop gen used k g'
         else Some (Inl (ConfigurationError ''Not able generate new resource''), g)) = Some y"
    show "?P gen used k g y"
    proof (cases "0 < k \<and> \<not> fresh used (fst (gen g))")
      case True
      then have "loop gen used k (snd (gen g)) = Some y" using step by (auto simp: fresh_def split_beta split: if_splits)
      from IH [OF this] True obtain n where
        "fresh used (offers gen (snd (gen g)) n)" "fst y = Inr (the (offers gen (snd (gen g)) n))" by blast
      then show ?thesis by (intro impI exI [of _ "Suc n"]) simp
    next
      case False
      then show ?thesis using step by (auto simp: fresh_def split_beta intro!: exI [of _ 0] split: if_splits)
    qed
  qed
  with assms(2) show ?thesis by blast
qed

section \<open>Properties\<close>

text \<open>C33: whatever resources are reserved and dropped, by whatever execution contexts and in
  whatever order, failed requests included: no resource has two holders; a resource is
  reserved exactly while one context has it; and dropping a context frees exactly its
  resources.\<close>

theorem reservations_exclusive:
  assumes "m = run_ops res_exec ops empty_reservations"
  shows "(\<forall>e1 e2 r. r \<in> GetECReserved e1 m \<and> r \<in> GetECReserved e2 m \<longrightarrow> e1 = e2) \<and>
    (\<forall>r. Reserved r m \<longleftrightarrow> (\<exists>e. r \<in> GetECReserved e m)) \<and>
    (\<forall>e. GetReserved (DropECReservations e m) = GetReserved m - GetECReserved e m)"
proof -
  have ok: "reservations_ok m"
    unfolding assms by (rule res_ops.run_ops_inv) (simp add: reservations_ok_def empty_reservations_def)
  then have d: "distinct (map fst m)" by (simp add: reservations_ok_def)
  have one: "e1 = e2" if r: "r \<in> GetECReserved e1 m" "r \<in> GetECReserved e2 m" for e1 e2 r
  proof (rule ccontr)
    assume "e1 \<noteq> e2"
    moreover obtain h1 h2 where "map_of m e1 = Some h1" "r \<in> h1" "map_of m e2 = Some h2" "r \<in> h2"
      using r by (auto simp: GetECReserved_def split: option.splits)
    ultimately show False using ok unfolding ok_map_of by blast
  qed
  have some: "Reserved r m \<longleftrightarrow> (\<exists>e. r \<in> GetECReserved e m)" for r
    by (auto simp: Reserved_map_of [OF d] GetECReserved_def split: option.splits)
  have dd: "distinct (map fst (DropECReservations e m))" for e
    using Drop_ok [OF ok] by (simp add: reservations_ok_def)
  have "r \<in> GetReserved (DropECReservations e m) \<longleftrightarrow> r \<in> GetReserved m - GetECReserved e m" for r e
  proof -
    have "r \<in> GetReserved (DropECReservations e m) \<longleftrightarrow> (\<exists>e'. e' \<noteq> e \<and> r \<in> GetECReserved e' m)"
      by (auto simp: GetReserved_iff Reserved_map_of [OF dd] DropECReservations_map_of GetECReserved_def
            split: option.splits if_splits)
    moreover have "r \<in> GetReserved m \<longleftrightarrow> (\<exists>e. r \<in> GetECReserved e m)" by (simp add: GetReserved_iff some)
    ultimately show ?thesis using one by (metis Diff_iff)
  qed
  with one some show ?thesis by blast
qed

theorem reservations_exclusive_witness:
  "(\<forall>r. Reserved r (run_ops res_exec [OpTake (1 :: nat) ''a'', OpTake 2 ''a''] empty_reservations) \<longleftrightarrow>
     (\<exists>e. r \<in> GetECReserved e (run_ops res_exec [OpTake (1 :: nat) ''a'', OpTake 2 ''a''] empty_reservations)))"
  using reservations_exclusive [OF refl, of "[OpTake (1 :: nat) ''a'', OpTake 2 ''a'']"] by blast

text \<open>C34: \<^verbatim>\<open>Generate\<close> returns exactly if the generator sooner or later offers a resource that is
  neither reserved nor existing; then it returns the first such resource and reserves it
  for the context. Otherwise it never returns: the error that is meant for this case is
  never raised, because the number of retries is not counted down.\<close>

theorem generate_terminates:
  "(case Generate existing gen ec_id g m of
      None \<Rightarrow> \<forall>n. \<not> fresh (GetReserved m \<union> existing) (offers gen g n)
    | Some (r, g', m') \<Rightarrow>
        \<exists>n. fresh (GetReserved m \<union> existing) (offers gen g n) \<and>
          (\<forall>k < n. \<not> fresh (GetReserved m \<union> existing) (offers gen g k)) \<and>
          r = Inr (the (offers gen g n)) \<and> m' = add_reservation ec_id (the (offers gen g n)) m)"
proof (cases "\<exists>n. fresh (GetReserved m \<union> existing) (offers gen g n)")
  case True
  let ?F = "\<lambda>n. fresh (GetReserved m \<union> existing) (offers gen g n)"
  define n where "n = (LEAST n. ?F n)"
  have n: "?F n" "\<And>k. k < n \<Longrightarrow> \<not> ?F k" using True not_less_Least by (auto simp: n_def intro: LeastI)
  obtain g' where "generate_loop gen (GetReserved m \<union> existing) 64 g = Some (Inr (the (offers gen g n)), g')"
    using generate_loop_finds [of "GetReserved m \<union> existing" gen g n] n by blast
  moreover have "Reserve_resource ec_id (the (offers gen g n)) m = Inr (add_reservation ec_id (the (offers gen g n)) m)"
    using n(1) by (auto simp: fresh_def GetReserved_iff Reserve_resource_def)
  ultimately show ?thesis using n by (auto simp: Generate_def)
next
  case False
  then have "generate_loop gen (GetReserved m \<union> existing) 64 g = None"
    using generate_loop_result [of gen "GetReserved m \<union> existing" 64 g] by (cases "generate_loop gen (GetReserved m \<union> existing) 64 g") auto
  then show ?thesis using False by (simp add: Generate_def)
qed

theorem generate_terminates_witness:
  "Generate {0, 1} (\<lambda>g :: nat. (Some g, Suc g)) ''job-1'' 0 [] \<noteq> None"
proof
  assume "Generate {0, 1} (\<lambda>g :: nat. (Some g, Suc g)) ''job-1'' 0 [] = None"
  then have "\<not> fresh (GetReserved ([] :: (string, nat) reservations) \<union> {0, 1}) (offers (\<lambda>g :: nat. (Some g, Suc g)) 0 2)"
    using generate_terminates [where existing = "{0, 1}" and gen = "\<lambda>g :: nat. (Some g, Suc g)" and ec_id = "''job-1''" and g = 0 and m = "[]"] by auto
  then show False by (simp add: fresh_def GetReserved_def numeral_2_eq_2)
qed

end
