(* ===== verification/Retry.thy ===== *)
theory Retry
  imports Complex_Main Ganeti_Prelude
begin

text \<open>
  Retrying and timeouts: \<^verbatim>\<open>lib/utils/retry.py\<close>, the \<^verbatim>\<open>RunningTimeout\<close> of \<^verbatim>\<open>lib/utils/algo.py\<close> and
  the timeouts of lock attempts of \<^verbatim>\<open>lib/mcpu.py\<close>. Times are rational numbers. What the retried
  function, the clock and the waiting function do is their own: they are functions of a
  state \<open>'w\<close>, which stands for the world they read and change. A loop that may go on for
  ever has the result \<open>None\<close>.
\<close>

section \<open>Delays\<close>

record delay_calculator =
  dc_factor :: rat
  dc_limit :: "rat option"
  dc_next :: rat

definition RetryDelayCalculator :: "rat \<Rightarrow> rat \<Rightarrow> rat option \<Rightarrow> delay_calculator res" where
  "RetryDelayCalculator start factor limit =
     res_bind (check (start > 0) AssertionError) (\<lambda>_.
     res_bind (check (factor \<ge> 1) AssertionError) (\<lambda>_.
     res_bind (check (case limit of None \<Rightarrow> True | Some l \<Rightarrow> l \<ge> 0) AssertionError) (\<lambda>_.
       Inr \<lparr>dc_factor = factor, dc_limit = limit, dc_next = start\<rparr>)))"

text \<open>Without a limit the minimum of \<^verbatim>\<open>None\<close> and a number is asked for, a \<^verbatim>\<open>TypeError\<close>.\<close>

definition dc_call :: "delay_calculator \<Rightarrow> rat res \<times> delay_calculator" where
  "dc_call c =
     (case dc_limit c of
        None \<Rightarrow> (Inl TypeError, c)
      | Some l \<Rightarrow>
          if dc_next c < l then (Inr (dc_next c), c\<lparr>dc_next := min l (dc_next c * dc_factor c)\<rparr>)
          else (Inr (dc_next c), c))"

datatype 'w delay =
    DelayFn "'w \<Rightarrow> rat \<times> 'w"
  | DelayTuple rat rat "rat option"
  | RETRY_REMAINING_TIME
  | DelayStatic rat

datatype 'w calc_delay =
    CalcFn "'w \<Rightarrow> rat \<times> 'w"
  | CalcIncreasing delay_calculator
  | CalcRemaining
  | CalcStatic rat

fun make_calc :: "'w delay \<Rightarrow> 'w calc_delay res" where
  "make_calc (DelayFn f) = Inr (CalcFn f)"
| "make_calc (DelayTuple start factor limit) =
     res_bind (RetryDelayCalculator start factor limit) (\<lambda>c. Inr (CalcIncreasing c))"
| "make_calc RETRY_REMAINING_TIME = Inr CalcRemaining"
| "make_calc (DelayStatic d) = Inr (CalcStatic d)"

fun next_delay :: "'w calc_delay \<Rightarrow> rat \<Rightarrow> 'w \<Rightarrow> rat res \<times> 'w calc_delay \<times> 'w" where
  "next_delay (CalcFn f) remaining w = (case f w of (d, w') \<Rightarrow> (Inr d, CalcFn f, w'))"
| "next_delay (CalcIncreasing c) remaining w = (case dc_call c of (r, c') \<Rightarrow> (r, CalcIncreasing c', w))"
| "next_delay CalcRemaining remaining w = (Inr remaining, CalcRemaining, w)"
| "next_delay (CalcStatic d) remaining w = (Inr d, CalcStatic d, w)"

section \<open>Retrying until a time is over\<close>

text \<open>
  How a call ends: with a value, with \<^verbatim>\<open>RetryAgain\<close> or \<^verbatim>\<open>RetryTimeout\<close> and their arguments, or
  with another exception.
\<close>

datatype ('a, 'x) outcome = Value 'a | Again 'x | TimedOut 'x | Raises exn

type_synonym ('w, 'a, 'x) caller = "'w \<Rightarrow> ('a, 'x) outcome \<times> 'w"

text \<open>One round of the loop: how it ends, or the delays and the world it goes on with.\<close>

definition retry_round ::
  "('w, 'a, 'x) caller \<Rightarrow> ('w \<Rightarrow> rat \<times> 'w) \<Rightarrow> (rat \<Rightarrow> 'w \<Rightarrow> 'w) \<Rightarrow> rat \<Rightarrow> 'w calc_delay \<Rightarrow> 'w \<Rightarrow>
     (('a, 'x) outcome \<times> 'w) + ('w calc_delay \<times> 'w)" where
  "retry_round fn time_fn wait_fn end_time calc w =
     (case fn w of
        (Value a, w1) \<Rightarrow> Inl (Value a, w1)
      | (Raises e, w1) \<Rightarrow> Inl (Raises e, w1)
      | (TimedOut x, w1) \<Rightarrow> Inl (Raises (ProgrammerError ''Nested retry loop detected''), w1)
      | (Again x, w1) \<Rightarrow>
          (case time_fn w1 of (now, w2) \<Rightarrow>
             let remaining_time = end_time - now
             in if remaining_time \<le> 0 then Inl (TimedOut x, w2)
                else
                  (case next_delay calc remaining_time w2 of
                     (Inl e, calc', w3) \<Rightarrow> Inl (Raises e, w3)
                   | (Inr d, calc', w3) \<Rightarrow> Inr (calc', if d > 0 then wait_fn d w3 else w3))))"

partial_function (option) retry_loop ::
  "('w, 'a, 'x) caller \<Rightarrow> ('w \<Rightarrow> rat \<times> 'w) \<Rightarrow> (rat \<Rightarrow> 'w \<Rightarrow> 'w) \<Rightarrow> rat \<Rightarrow> 'w calc_delay \<Rightarrow> 'w \<Rightarrow>
     (('a, 'x) outcome \<times> 'w) option" where
  "retry_loop fn time_fn wait_fn end_time calc w =
     (let r = retry_round fn time_fn wait_fn end_time calc w
      in if isl r then Some (projl r)
         else retry_loop fn time_fn wait_fn end_time (fst (projr r)) (snd (projr r)))"

definition Retry ::
  "('w, 'a, 'x) caller \<Rightarrow> 'w delay \<Rightarrow> rat \<Rightarrow> (rat \<Rightarrow> 'w \<Rightarrow> 'w) \<Rightarrow> ('w \<Rightarrow> rat \<times> 'w) \<Rightarrow> 'w \<Rightarrow>
     (('a, 'x) outcome \<times> 'w) option" where
  "Retry fn delay timeout wait_fn time_fn w =
     (case time_fn w of (now, w1) \<Rightarrow>
        case make_calc delay of
          Inl e \<Rightarrow> Some (Raises e, w1)
        | Inr calc \<Rightarrow> retry_loop fn time_fn wait_fn (now + timeout) calc w1)"

text \<open>\<^verbatim>\<open>RetryTimeout.RaiseInner\<close>: an exception that was passed on is raised itself.\<close>

datatype retry_arg = ExnArg exn | OtherArg json

fun RaiseInner :: "retry_arg list \<Rightarrow> ('a, retry_arg list) outcome" where
  "RaiseInner (ExnArg e # args) = Raises e"
| "RaiseInner args = TimedOut args"

section \<open>Retrying until a result is as expected\<close>

datatype 'r expected = ExpectFn "'r \<Rightarrow> bool" | ExpectValue 'r

fun is_expected :: "'r expected \<Rightarrow> 'r \<Rightarrow> bool" where
  "is_expected (ExpectFn p) r = p r"
| "is_expected (ExpectValue v) r = (r = v)"

text \<open>The dictionary \<^verbatim>\<open>rdict\<close> with the last result is a second part of the world.\<close>

definition simple_helper :: "'r expected \<Rightarrow> ('w, 'r, unit) caller \<Rightarrow> ('w \<times> 'r option, 'r, unit) caller" where
  "simple_helper expected fn ws =
     (case fn (fst ws) of
        (Value r, w') \<Rightarrow> (if \<not> is_expected expected r then Again () else Value r, (w', Some r))
      | (out, w') \<Rightarrow> (out, (w', snd ws)))"

fun lift_delay :: "'w delay \<Rightarrow> ('w \<times> 's) delay" where
  "lift_delay (DelayFn f) = DelayFn (\<lambda>(w, s). case f w of (d, w') \<Rightarrow> (d, (w', s)))"
| "lift_delay (DelayTuple start factor limit) = DelayTuple start factor limit"
| "lift_delay RETRY_REMAINING_TIME = RETRY_REMAINING_TIME"
| "lift_delay (DelayStatic d) = DelayStatic d"

definition SimpleRetry ::
  "'r expected \<Rightarrow> ('w, 'r, unit) caller \<Rightarrow> 'w delay \<Rightarrow> rat \<Rightarrow> (rat \<Rightarrow> 'w \<Rightarrow> 'w) \<Rightarrow> ('w \<Rightarrow> rat \<times> 'w) \<Rightarrow> 'w \<Rightarrow>
     (('r, unit) outcome \<times> 'w) option" where
  "SimpleRetry expected fn delay timeout wait_fn time_fn w =
     (case Retry (simple_helper expected fn) (lift_delay delay) timeout
             (\<lambda>d (w, s). (wait_fn d w, s)) (\<lambda>(w, s). case time_fn w of (t, w') \<Rightarrow> (t, (w', s))) (w, None) of
        None \<Rightarrow> None
      | Some (TimedOut x, (w', result)) \<Rightarrow>
          (case result of None \<Rightarrow> Some (Raises AssertionError, w') | Some r \<Rightarrow> Some (Value r, w'))
      | Some (out, (w', result)) \<Rightarrow> Some (out, w'))"

text \<open>The clock of \<^verbatim>\<open>CountRetry\<close> is the number of tries, which waiting increases.\<close>

definition CountRetry ::
  "'r expected \<Rightarrow> ('w, 'r, unit) caller \<Rightarrow> int \<Rightarrow> 'w \<Rightarrow> (('r, unit) outcome \<times> 'w) option" where
  "CountRetry expected fn count w =
     (case SimpleRetry expected
             (\<lambda>(tries, w). case fn w of (out, w') \<Rightarrow> (out, (tries, w')))
             (DelayStatic 1) (of_int count)
             (\<lambda>t (tries, w). (tries + t, w)) (\<lambda>(tries, w). (tries, (tries, w))) (0 :: rat, w) of
        None \<Rightarrow> None
      | Some (out, (tries, w')) \<Rightarrow> Some (out, w'))"

text \<open>Up to \<open>max_retries\<close> calls, of which only an \<^verbatim>\<open>OpExecError\<close> leads to another one.\<close>

fun retry_times :: "nat \<Rightarrow> ('w, 'a, unit) caller \<Rightarrow> exn option \<Rightarrow> 'w \<Rightarrow> (exn option + exn) \<times> 'w" where
  "retry_times 0 fn last_exception w = (Inl last_exception, w)"
| "retry_times (Suc n) fn last_exception w =
     (case fn w of
        (Raises (OpExecError m), w') \<Rightarrow> retry_times n fn (Some (OpExecError m)) w'
      | (Raises e, w') \<Rightarrow> (Inr e, w')
      | (_, w') \<Rightarrow> (Inl None, w'))"

definition RetryByNumberOfTimes :: "nat \<Rightarrow> (exn \<Rightarrow> exn) \<Rightarrow> ('w, 'a, unit) caller \<Rightarrow> 'w \<Rightarrow> unit res \<times> 'w" where
  "RetryByNumberOfTimes max_retries exception_class fn w =
     (case retry_times max_retries fn None w of
        (Inr e, w') \<Rightarrow> (Inl e, w')
      | (Inl (Some e), w') \<Rightarrow> (Inl (exception_class e), w')
      | (Inl None, w') \<Rightarrow> (Inr (), w'))"

section \<open>Running timeouts\<close>

record running_timeout =
  rt_timeout :: "rat option"
  rt_allow_negative :: bool
  rt_start_time :: "rat option"

definition RunningTimeout :: "rat option \<Rightarrow> bool \<Rightarrow> running_timeout res" where
  "RunningTimeout timeout allow_negative =
     (if (case timeout of None \<Rightarrow> False | Some t \<Rightarrow> t < 0) then Inl ValueError
      else Inr \<lparr>rt_timeout = timeout, rt_allow_negative = allow_negative, rt_start_time = None\<rparr>)"

text \<open>\<open>start\<close> is what the clock shows when the start time is taken, \<open>now\<close> what it shows after that.\<close>

definition Remaining :: "rat \<Rightarrow> rat \<Rightarrow> running_timeout \<Rightarrow> rat option \<times> running_timeout" where
  "Remaining start now rt =
     (case rt_timeout rt of
        None \<Rightarrow> (None, rt)
      | Some timeout \<Rightarrow>
          (let start_time = (case rt_start_time rt of None \<Rightarrow> start | Some s \<Rightarrow> s);
               rt' = rt\<lparr>rt_start_time := Some start_time\<rparr>;
               remaining_timeout = start_time + timeout - now
           in (Some (if \<not> rt_allow_negative rt then max 0 remaining_timeout else remaining_timeout), rt')))"

section \<open>Timeouts of lock attempts\<close>

text \<open>
  \<open>grow\<close> is the floating-point value of \<^verbatim>\<open>(x * 1.05) ** 1.25\<close>, and the three limits come from
  the generated constants. The list is built in order.
\<close>

partial_function (option) attempt_timeouts ::
  "(rat \<Rightarrow> rat) \<Rightarrow> rat \<Rightarrow> rat \<Rightarrow> rat \<Rightarrow> rat list \<Rightarrow> rat \<Rightarrow> rat list option" where
  "attempt_timeouts grow minwait maxwait limit result running_sum =
     (if running_sum < limit then
        let timeout = max (min (grow (last result)) maxwait) minwait
        in attempt_timeouts grow minwait maxwait limit (result @ [timeout]) (running_sum + timeout)
      else Some result)"

definition CalculateLockAttemptTimeouts :: "(rat \<Rightarrow> rat) \<Rightarrow> rat \<Rightarrow> rat \<Rightarrow> rat \<Rightarrow> rat list option" where
  "CalculateLockAttemptTimeouts grow minwait maxwait limit =
     attempt_timeouts grow minwait maxwait limit [minwait] minwait"

definition LockAttemptTimeoutStrategy :: "rat list \<Rightarrow> rat list" where
  "LockAttemptTimeoutStrategy timeout_per_attempt = timeout_per_attempt"

text \<open>The iterator is the list of the timeouts to come; \<open>rnd\<close> is the random number.\<close>

definition NextAttempt :: "rat \<Rightarrow> rat list \<Rightarrow> rat option \<times> rat list" where
  "NextAttempt rnd timeouts =
     (case timeouts of
        [] \<Rightarrow> (None, [])
      | t # ts \<Rightarrow>
          (let variation_range = t * (1 / 10)
           in (Some (t + (rnd * variation_range - variation_range * (1 / 2))), ts)))"

section \<open>Termination of the timeout loop\<close>

text \<open>A clock that waiting advances by at least the time waited, and nothing turns back.\<close>

definition clock_ok ::
  "('w \<Rightarrow> rat) \<Rightarrow> ('w, 'a, 'x) caller \<Rightarrow> ('w \<Rightarrow> rat \<times> 'w) \<Rightarrow> (rat \<Rightarrow> 'w \<Rightarrow> 'w) \<Rightarrow> bool" where
  "clock_ok clock fn time_fn wait_fn \<longleftrightarrow>
     (\<forall>w. clock w \<le> clock (snd (fn w))) \<and>
     (\<forall>w. clock w \<le> fst (time_fn w) \<and> fst (time_fn w) \<le> clock (snd (time_fn w))) \<and>
     (\<forall>d w. 0 < d \<longrightarrow> clock w + d \<le> clock (wait_fn d w))"

text \<open>Delays of at least \<open>e\<close>.\<close>

fun delay_ge :: "rat \<Rightarrow> 'w delay \<Rightarrow> bool" where
  "delay_ge e (DelayFn f) = False"
| "delay_ge e (DelayTuple start factor limit) = (e \<le> start)"
| "delay_ge e RETRY_REMAINING_TIME = True"
| "delay_ge e (DelayStatic d) = (e \<le> d)"

fun calc_ge :: "rat \<Rightarrow> 'w calc_delay \<Rightarrow> bool" where
  "calc_ge e (CalcFn f) = False"
| "calc_ge e (CalcIncreasing c) = (e \<le> dc_next c \<and> 1 \<le> dc_factor c)"
| "calc_ge e CalcRemaining = True"
| "calc_ge e (CalcStatic d) = (e \<le> d)"

lemma make_calc_ge: "delay_ge e delay \<Longrightarrow> make_calc delay = Inr calc \<Longrightarrow> calc_ge e calc"
  by (cases delay) (auto simp: RetryDelayCalculator_def res_bind_eq_Inr)

lemma next_delay_ge:
  assumes "calc_ge e calc" "0 < e" "next_delay calc remaining w = (Inr d, calc', w')" "0 < remaining"
  shows "(e \<le> d \<or> d = remaining) \<and> calc_ge e calc' \<and> w' = w"
proof (cases calc)
  case (CalcIncreasing c)
  obtain l where l: "dc_limit c = Some l" using assms(3) CalcIncreasing by (auto simp: dc_call_def split: option.splits)
  have n: "e \<le> dc_next c" "1 \<le> dc_factor c" using assms(1) CalcIncreasing by auto
  then have "dc_next c \<le> dc_next c * dc_factor c" using assms(2) by (simp add: mult_le_cancel_left1)
  then show ?thesis using assms(3) n CalcIncreasing l by (auto simp: dc_call_def split: if_splits)
qed (use assms in auto)

lemma retry_round_advances:
  assumes "clock_ok clock fn time_fn wait_fn" "calc_ge e calc" "0 < e"
    and "retry_round fn time_fn wait_fn end_time calc w = Inr (calc', w')"
  shows "clock w < end_time \<and> calc_ge e calc' \<and> (clock w + e \<le> clock w' \<or> end_time \<le> clock w')"
proof -
  obtain x w1 where f: "fn w = (Again x, w1)"
    using assms(4) by (auto simp: retry_round_def split: prod.splits outcome.splits)
  obtain now w2 where t: "time_fn w1 = (now, w2)" by (cases "time_fn w1")
  obtain d w3 where d: "0 < end_time - now" "next_delay calc (end_time - now) w2 = (Inr d, calc', w3)"
    "w' = (if d > 0 then wait_fn d w3 else w3)"
    using assms(4) f t by (auto simp: retry_round_def Let_def split: if_splits prod.splits sum.splits)
  have n: "e \<le> d \<or> d = end_time - now" "calc_ge e calc'" "w3 = w2"
    using next_delay_ge [OF assms(2,3) d(2,1)] by auto
  have "0 < d" using n(1) d(1) assms(3) by auto
  moreover have "clock w \<le> clock w1" "clock w1 \<le> now" "now \<le> clock w2"
    using assms(1) f t unfolding clock_ok_def by (metis fst_conv snd_conv)+
  moreover have "clock w2 + d \<le> clock (wait_fn d w2)" using assms(1) \<open>0 < d\<close> unfolding clock_ok_def by blast
  ultimately show ?thesis using n d by auto
qed

lemma retry_loop_returns:
  assumes "clock_ok clock fn time_fn wait_fn" "0 < e" "calc_ge e calc" "end_time - clock w \<le> of_nat n * e"
  shows "\<exists>y. retry_loop fn time_fn wait_fn end_time calc w = Some y"
  using assms(3,4)
proof (induction n arbitrary: calc w)
  case 0
  then have "isl (retry_round fn time_fn wait_fn end_time calc w)"
    using retry_round_advances [OF assms(1) 0(1) assms(2)] by (cases "retry_round fn time_fn wait_fn end_time calc w") fastforce+
  then show ?case by (subst retry_loop.simps) (simp add: Let_def)
next
  case (Suc n)
  show ?case
  proof (cases "retry_round fn time_fn wait_fn end_time calc w")
    case (Inl r)
    then show ?thesis by (subst retry_loop.simps) (simp add: Let_def)
  next
    case (Inr cw)
    obtain calc' w' where cw: "cw = (calc', w')" by (cases cw)
    have a: "calc_ge e calc'" "clock w + e \<le> clock w' \<or> end_time \<le> clock w'"
      using retry_round_advances [OF assms(1) Suc.prems(1) assms(2)] Inr cw by auto
    have "0 \<le> of_nat n * e" using assms(2) by simp
    then have "end_time - clock w' \<le> of_nat n * e"
      using a(2) Suc.prems(2) by (auto simp: algebra_simps)
    from Suc.IH [OF a(1) this] show ?thesis using Inr cw by (subst retry_loop.simps) (simp add: Let_def)
  qed
qed

lemma retry_round_timeout:
  assumes "retry_round fn time_fn wait_fn end_time calc w = Inl (TimedOut x, w')"
  shows "\<exists>w0. end_time \<le> fst (time_fn w0) \<and> w' = snd (time_fn w0)"
proof -
  obtain out w1 where f: "fn w = (out, w1)" by (cases "fn w")
  obtain now w2 where t: "time_fn w1 = (now, w2)" by (cases "time_fn w1")
  have "end_time \<le> now \<and> w' = w2"
    using assms f t by (cases out) (auto simp: retry_round_def Let_def split: if_splits prod.splits sum.splits)
  with t show ?thesis by (intro exI [of _ w1]) simp
qed

lemma retry_loop_timeout:
  fixes fn :: "('w, 'a, 'x) caller"
  assumes "retry_loop fn time_fn wait_fn end_time calc w = Some y"
  shows "\<forall>x. fst y = TimedOut x \<longrightarrow> (\<exists>w0. end_time \<le> fst (time_fn w0) \<and> snd y = snd (time_fn w0))"
proof (rule retry_loop.raw_induct [where P = "\<lambda>fn time_fn wait_fn end_time calc w y.
      \<forall>x. fst y = TimedOut x \<longrightarrow> (\<exists>w0. end_time \<le> fst (time_fn w0) \<and> snd y = snd (time_fn w0))", OF _ assms])
  fix loop and fn :: "('w, 'a, 'x) caller" and time_fn wait_fn end_time calc w y
  assume IH: "\<And>fn time_fn wait_fn end_time calc w y. loop fn time_fn wait_fn end_time calc w = Some y \<Longrightarrow>
      \<forall>x. fst y = TimedOut x \<longrightarrow> (\<exists>w0. end_time \<le> fst (time_fn w0) \<and> snd y = snd (time_fn w0))"
    and step: "(let r = retry_round fn time_fn wait_fn end_time calc w
      in if isl r then Some (projl r) else loop fn time_fn wait_fn end_time (fst (projr r)) (snd (projr r))) = Some y"
  show "\<forall>x. fst y = TimedOut x \<longrightarrow> (\<exists>w0. end_time \<le> fst (time_fn w0) \<and> snd y = snd (time_fn w0))"
  proof (cases "retry_round fn time_fn wait_fn end_time calc w")
    case (Inl r)
    then have "y = r" using step by simp
    then show ?thesis using Inl retry_round_timeout [of fn time_fn wait_fn end_time calc w] by (cases y) auto
  next
    case (Inr cw)
    then show ?thesis using step IH by simp
  qed
qed

section \<open>Counting tries\<close>

text \<open>Up to \<open>n\<close> calls, until one gives the expected result or raises; the last result counts.\<close>

fun try_upto :: "'r expected \<Rightarrow> ('w, 'r, unit) caller \<Rightarrow> nat \<Rightarrow> 'w \<Rightarrow> ('r, unit) outcome \<times> 'w" where
  "try_upto expected fn 0 w = (Raises AssertionError, w)"
| "try_upto expected fn (Suc n) w =
     (case fn w of
        (Value r, w') \<Rightarrow> if is_expected expected r \<or> n = 0 then (Value r, w') else try_upto expected fn n w'
      | (out, w') \<Rightarrow> (out, w'))"

definition no_retry_exn :: "('w, 'r, unit) caller \<Rightarrow> bool" where
  "no_retry_exn fn \<longleftrightarrow> (\<forall>w. (\<exists>r. fst (fn w) = Value r) \<or> (\<exists>e. fst (fn w) = Raises e))"

abbreviation count_fn :: "('w, 'r, unit) caller \<Rightarrow> (rat \<times> 'w, 'r, unit) caller" where
  "count_fn fn \<equiv> (\<lambda>(tries, w). case fn w of (out, w') \<Rightarrow> (out, (tries, w')))"

abbreviation count_loop ::
  "'r expected \<Rightarrow> ('w, 'r, unit) caller \<Rightarrow> rat \<Rightarrow> (rat \<times> 'w) \<times> 'r option \<Rightarrow>
     (('r, unit) outcome \<times> (rat \<times> 'w) \<times> 'r option) option" where
  "count_loop expected fn end_time \<equiv>
     retry_loop (simple_helper expected (count_fn fn))
       (\<lambda>(w, s). case (case w of (tries, w) \<Rightarrow> (tries, (tries, w))) of (t, w') \<Rightarrow> (t, (w', s)))
       (\<lambda>d (w, s). ((case w of (tries, w) \<Rightarrow> (tries + d, w)), s)) end_time (CalcStatic 1)"

lemma count_loop_value:
  "fn w = (Value r, w') \<Longrightarrow> count_loop expected fn end_time ((tries, w), prev) =
     (if is_expected expected r then Some (Value r, ((tries, w'), Some r))
      else if end_time - tries \<le> 0 then Some (TimedOut (), ((tries, w'), Some r))
      else count_loop expected fn end_time ((tries + 1, w'), Some r))"
  by (subst retry_loop.simps) (simp add: retry_round_def simple_helper_def Let_def)

lemma count_loop_raises:
  "fn w = (Raises e, w') \<Longrightarrow> count_loop expected fn end_time ((tries, w), prev) = Some (Raises e, ((tries, w'), prev))"
  by (subst retry_loop.simps) (simp add: retry_round_def simple_helper_def Let_def)

lemma no_retry_cases:
  assumes "no_retry_exn fn"
  obtains r w' where "fn w = (Value r, w')" | e w' where "fn w = (Raises e, w')"
  using assms by (cases "fn w") (auto simp: no_retry_exn_def, metis fst_conv)

lemma count_loop_eq:
  assumes "no_retry_exn fn" "end_time \<le> tries + of_nat n" "tries + of_nat n < end_time + 1"
  shows "\<exists>out s. count_loop expected fn end_time ((tries, w), prev) = Some (out, s) \<and>
    (case try_upto expected fn (Suc n) w of (out', w') \<Rightarrow>
       snd (fst s) = w' \<and> (out = out' \<or> (out = TimedOut () \<and> (\<exists>r. snd s = Some r \<and> out' = Value r))))"
  using assms(2,3)
proof (induction n arbitrary: tries w prev)
  case 0
  show ?case
    by (rule no_retry_cases [OF assms(1), of w]) (use 0 in \<open>auto simp: count_loop_value count_loop_raises\<close>)
next
  case (Suc n)
  have ih: "end_time \<le> (tries + 1) + of_nat n" "(tries + 1) + of_nat n < end_time + 1" "\<not> end_time - tries \<le> 0"
    using Suc.prems by (auto simp: algebra_simps)
  show ?case
    by (rule no_retry_cases [OF assms(1), of w])
      (use Suc.IH [OF ih(1,2)] ih(3) in \<open>auto simp: count_loop_value count_loop_raises\<close>)
qed

section \<open>The timeouts of lock attempts\<close>

lemma attempt_timeouts_ok:
  assumes "0 < minwait" "minwait \<le> maxwait" "result \<noteq> []" "\<forall>t \<in> set result. minwait \<le> t \<and> t \<le> maxwait"
    and "s = sum_list result" "limit - s \<le> of_nat n * minwait" "length result = 1 \<or> sum_list (butlast result) < limit"
  shows "\<exists>ts. attempt_timeouts grow minwait maxwait limit result s = Some ts \<and> ts \<noteq> [] \<and>
    (\<forall>t \<in> set ts. minwait \<le> t \<and> t \<le> maxwait) \<and> limit \<le> sum_list ts \<and>
    (length ts = 1 \<or> sum_list (butlast ts) < limit)"
  using assms(3-7)
proof (induction n arbitrary: result s)
  case 0
  then show ?case by (subst attempt_timeouts.simps) auto
next
  case (Suc n)
  show ?case
  proof (cases "s < limit")
    case True
    let ?t = "max (min (grow (last result)) maxwait) minwait"
    have t: "minwait \<le> ?t" "?t \<le> maxwait" using assms(2) by auto
    have "\<exists>ts. attempt_timeouts grow minwait maxwait limit (result @ [?t]) (s + ?t) = Some ts \<and> ts \<noteq> [] \<and>
      (\<forall>t \<in> set ts. minwait \<le> t \<and> t \<le> maxwait) \<and> limit \<le> sum_list ts \<and>
      (length ts = 1 \<or> sum_list (butlast ts) < limit)"
    proof (rule Suc.IH)
      show "limit - (s + ?t) \<le> of_nat n * minwait" using Suc.prems(4) t(1) by (simp add: algebra_simps)
      show "\<forall>t \<in> set (result @ [?t]). minwait \<le> t \<and> t \<le> maxwait" using Suc.prems(2) t by auto
    qed (use Suc.prems(3) True in \<open>auto simp: butlast_append\<close>)
    then show ?thesis using True by (subst attempt_timeouts.simps) (simp add: Let_def)
  next
    case False
    then show ?thesis using Suc.prems by (subst attempt_timeouts.simps) auto
  qed
qed

section \<open>Running timeouts and numbered retries\<close>

text \<open>The remaining time goes down with the clock, from the timeout itself, and not below zero
  unless that is allowed.\<close>

lemma Remaining_first:
  "RunningTimeout (Some t) neg = Inr rt \<Longrightarrow> start \<le> now \<Longrightarrow>
     fst (Remaining start now rt) = Some (if neg then t - (now - start) else max 0 (t - (now - start)))"
  by (auto simp: RunningTimeout_def Remaining_def Let_def split: if_splits)

lemma Remaining_later:
  assumes "Remaining start now rt = (Some r, rt')" "now \<le> later"
  shows "\<exists>r'. fst (Remaining start' later rt') = Some r' \<and> r' \<le> r \<and> (\<not> rt_allow_negative rt \<longrightarrow> 0 \<le> r')"
  using assms by (auto simp: Remaining_def Let_def split: option.splits if_splits)

lemma RunningTimeout_none: "RunningTimeout None neg = Inr rt \<Longrightarrow> Remaining start now rt = (None, rt)"
  by (auto simp: RunningTimeout_def Remaining_def)

text \<open>A calculator without limit raises as soon as it is asked for a delay.\<close>

lemma no_limit_raises: "RetryDelayCalculator start factor None = Inr c \<Longrightarrow> dc_call c = (Inl TypeError, c)"
  by (auto simp: RetryDelayCalculator_def res_bind_eq_Inr dc_call_def)

text \<open>The world after \<open>n\<close> calls.\<close>

fun after_calls :: "('w, 'a, 'x) caller \<Rightarrow> nat \<Rightarrow> 'w \<Rightarrow> 'w" where
  "after_calls fn 0 w = w"
| "after_calls fn (Suc n) w = after_calls fn n (snd (fn w))"

lemma RetryByNumberOfTimes_succeeds:
  assumes "\<And>k. k < n \<Longrightarrow> \<exists>m. fst (fn (after_calls fn k w)) = Raises (OpExecError m)"
    and "fst (fn (after_calls fn n w)) = Value v" "n < max_retries"
  shows "RetryByNumberOfTimes max_retries exc fn w = (Inr (), after_calls fn (Suc n) w)"
proof -
  have "retry_times max_retries fn l w = (Inl None, after_calls fn (Suc n) w)" for l
    using assms
  proof (induction n arbitrary: w l max_retries)
    case 0
    then show ?case by (cases max_retries; cases "fn w") auto
  next
    case (Suc n)
    obtain k where k: "max_retries = Suc k" using Suc.prems(3) by (cases max_retries) auto
    obtain m where m: "fst (fn w) = Raises (OpExecError m)" using Suc.prems(1) [of 0] by auto
    have "\<And>k. k < n \<Longrightarrow> \<exists>m. fst (fn (after_calls fn k (snd (fn w)))) = Raises (OpExecError m)"
      using Suc.prems(1) [of "Suc _"] by auto
    from Suc.IH [OF this, of k] Suc.prems(2,3) k m show ?case by (cases "fn w") simp
  qed
  then show ?thesis by (simp add: RetryByNumberOfTimes_def)
qed

section \<open>Invariants of retries\<close>

lemma retry_loop_inv:
  fixes fn :: "('w, 'a, 'x) caller"
  assumes "retry_loop fn time_fn wait_fn end_time calc w = Some y" "J calc w"
    and "\<And>c w. J c w \<Longrightarrow> case retry_round fn time_fn wait_fn end_time c w of
      Inl ow \<Rightarrow> Q (fst ow) (snd ow) | Inr cw \<Rightarrow> J (fst cw) (snd cw)"
  shows "Q (fst y) (snd y)"
proof -
  let ?H = "\<lambda>fn time_fn wait_fn end_time. \<forall>c w. J c w \<longrightarrow>
    (case retry_round fn time_fn wait_fn end_time c w of Inl ow \<Rightarrow> Q (fst ow) (snd ow) | Inr cw \<Rightarrow> J (fst cw) (snd cw))"
  have "?H fn time_fn wait_fn end_time \<longrightarrow> J calc w \<longrightarrow> Q (fst y) (snd y)"
  proof (rule retry_loop.raw_induct [where P = "\<lambda>fn time_fn wait_fn end_time calc w y.
        ?H fn time_fn wait_fn end_time \<longrightarrow> J calc w \<longrightarrow> Q (fst y) (snd y)", OF _ assms(1)])
    fix loop and fn :: "('w, 'a, 'x) caller" and time_fn wait_fn end_time calc w y
    assume IH: "\<And>fn time_fn wait_fn end_time calc w y. loop fn time_fn wait_fn end_time calc w = Some y \<Longrightarrow>
        ?H fn time_fn wait_fn end_time \<longrightarrow> J calc w \<longrightarrow> Q (fst y) (snd y)"
      and step: "(let r = retry_round fn time_fn wait_fn end_time calc w
        in if isl r then Some (projl r) else loop fn time_fn wait_fn end_time (fst (projr r)) (snd (projr r))) = Some y"
    show "?H fn time_fn wait_fn end_time \<longrightarrow> J calc w \<longrightarrow> Q (fst y) (snd y)"
    proof (intro impI)
      assume H: "?H fn time_fn wait_fn end_time" and J: "J calc w"
      show "Q (fst y) (snd y)"
      proof (cases "retry_round fn time_fn wait_fn end_time calc w")
        case (Inl r)
        then show ?thesis using step H [rule_format, OF J] by simp
      next
        case (Inr cw)
        then have "J (fst cw) (snd cw)" using H [rule_format, OF J] by simp
        moreover have "loop fn time_fn wait_fn end_time (fst cw) (snd cw) = Some y" using step Inr by simp
        ultimately show ?thesis using IH H by blast
      qed
    qed
  qed
  with assms(2,3) show ?thesis by blast
qed

text \<open>What a retried action establishes for its last result holds of the result of the retry.\<close>

lemma SimpleRetry_inv:
  fixes fn :: "('w, 'r, unit) caller"
  assumes run: "SimpleRetry expected fn (DelayStatic d) timeout wait_fn time_fn w = Some (out, w')" and "J w"
    and fn: "\<And>w. J w \<Longrightarrow> case fn w of (Value r, w') \<Rightarrow> K r w' | (Raises e, w') \<Rightarrow> J w' | (Again _, w') \<Rightarrow> False | (TimedOut _, w') \<Rightarrow> False"
    and K: "\<And>r w. K r w \<Longrightarrow> J w" "\<And>r w. K r w \<Longrightarrow> K r (snd (time_fn w))" "\<And>w. J w \<Longrightarrow> J (snd (time_fn w))"
    and wait: "\<And>w. J w \<Longrightarrow> J (wait_fn d w)"
  shows "case out of Value r \<Rightarrow> K r w' | _ \<Rightarrow> J w'"
proof -
  let ?time = "\<lambda>(w, s :: 'r option). case time_fn w of (t, w') \<Rightarrow> (t, (w', s))"
  let ?wait = "\<lambda>d (w, s :: 'r option). (wait_fn d w, s)"
  let ?fn = "simple_helper expected fn"
  define Q where "Q = (\<lambda>(out :: ('r, unit) outcome) (ws :: 'w \<times> 'r option). case out of Value r \<Rightarrow> K r (fst ws)
    | TimedOut _ \<Rightarrow> \<exists>r. snd ws = Some r \<and> K r (fst ws) | Raises _ \<Rightarrow> J (fst ws) | Again _ \<Rightarrow> False)"
  define I where "I = (\<lambda>(c :: ('w \<times> 'r option) calc_delay) (ws :: 'w \<times> 'r option). c = CalcStatic d \<and> J (fst ws))"
  obtain now w1 where t: "time_fn w = (now, w1)" by (cases "time_fn w")
  have J1: "J w1" using K(3) [OF \<open>J w\<close>] t by simp
  have round: "case retry_round ?fn ?time ?wait e c ws of
      Inl ow \<Rightarrow> Q (fst ow) (snd ow) | Inr cw \<Rightarrow> I (fst cw) (snd cw)"
    if "I c ws" for c ws e
  proof -
    obtain out2 w2 where f: "fn (fst ws) = (out2, w2)" by (cases "fn (fst ws)")
    obtain now2 w3 where t2: "time_fn w2 = (now2, w3)" by (cases "time_fn w2")
    show ?thesis
      using that fn [of "fst ws"] f t2 K(1) [of _ w2] K(2) [of _ w2] K(3) [of w2] wait [of w3]
      by (cases out2) (auto simp: retry_round_def simple_helper_def Q_def I_def Let_def)
  qed
  obtain y where y: "retry_loop ?fn ?time ?wait (now + timeout) (CalcStatic d) (w1, None) = Some y"
    using run t by (auto simp: SimpleRetry_def Retry_def split: option.splits)
  have "Q (fst y) (snd y)"
    by (rule retry_loop_inv [where J = I and Q = Q, OF y _ round]) (simp_all add: I_def J1)
  then show ?thesis
    using run t y K(1) by (cases y) (auto simp: SimpleRetry_def Retry_def Q_def split: outcome.splits option.splits)
qed

lemma SimpleRetry_returns:
  assumes "clock_ok clock fn time_fn wait_fn" "0 < d"
  shows "\<exists>y. SimpleRetry expected fn (DelayStatic d) timeout wait_fn time_fn w = Some y"
proof -
  let ?time = "\<lambda>(w, s :: 'b option). case time_fn w of (t, w') \<Rightarrow> (t, (w', s))"
  let ?wait = "\<lambda>d (w, s :: 'b option). (wait_fn d w, s)"
  have "clock_ok (\<lambda>ws. clock (fst ws)) (simple_helper expected fn) ?time ?wait"
    using assms(1) by (auto simp: clock_ok_def simple_helper_def split: prod.splits outcome.splits)
      (metis fst_conv snd_conv)+
  note ret = retry_loop_returns [OF this assms(2), of "CalcStatic d"]
  obtain now w1 where t: "time_fn w = (now, w1)" by (cases "time_fn w")
  obtain n where n: "(now + timeout - clock w1) / d \<le> of_nat n" using real_arch_simple by blast
  then have "now + timeout - clock (fst (w1, None :: 'b option)) \<le> of_nat n * d" using assms(2) by (simp add: divide_le_eq)
  from ret [OF _ this] obtain y where
    "retry_loop (simple_helper expected fn) ?time ?wait (now + timeout) (CalcStatic d) (w1, None) = Some y" by auto
  then show ?thesis
    using t by (cases y) (auto simp: SimpleRetry_def Retry_def split: outcome.splits option.splits)
qed

section \<open>Properties\<close>

text \<open>C35: \<^verbatim>\<open>Retry\<close> returns: with a static delay, an increasing delay or the remaining time, if the delay
  is at least some positive \<open>e\<close>, waiting takes at least the time it is asked to wait and
  the clock is never set back, the loop ends, for every function that is retried; and if it ends with
  \<^verbatim>\<open>RetryTimeout\<close>, the timeout is really over.\<close>

theorem retry_returns:
  assumes "clock_ok clock fn time_fn wait_fn" "0 < e" "delay_ge e delay"
  shows "\<exists>out w'. Retry fn delay timeout wait_fn time_fn w = Some (out, w') \<and>
    (\<forall>x. out = TimedOut x \<longrightarrow> fst (time_fn w) + timeout \<le> clock w')"
proof -
  obtain now w1 where t: "time_fn w = (now, w1)" by (cases "time_fn w")
  show ?thesis
  proof (cases "make_calc delay")
    case (Inl err)
    then show ?thesis using t by (simp add: Retry_def)
  next
    case (Inr calc)
    obtain n where n: "(now + timeout - clock w1) / e \<le> of_nat n" using real_arch_simple by blast
    then have "now + timeout - clock w1 \<le> of_nat n * e" using assms(2) by (simp add: divide_le_eq)
    then obtain y where y: "retry_loop fn time_fn wait_fn (now + timeout) calc w1 = Some y"
      using retry_loop_returns [OF assms(1,2) make_calc_ge [OF assms(3) Inr]] by blast
    have "now + timeout \<le> clock (snd y)" if "fst y = TimedOut x" for x
    proof -
      obtain w0 where "now + timeout \<le> fst (time_fn w0)" "snd y = snd (time_fn w0)"
        using retry_loop_timeout [OF y] \<open>fst y = TimedOut x\<close> by blast
      moreover have "fst (time_fn w0) \<le> clock (snd (time_fn w0))" using assms(1) unfolding clock_ok_def by blast
      ultimately show ?thesis by simp
    qed
    then show ?thesis using t Inr y by (cases y) (auto simp: Retry_def)
  qed
qed

theorem retry_returns_witness:
  "\<exists>out w'. Retry (\<lambda>w. (Again () :: (nat, unit) outcome, w)) (DelayTuple 1 2 (Some 3)) 10 (\<lambda>d w. w + d) (\<lambda>w. (w, w)) 5 = Some (out, w')"
  using retry_returns [of "\<lambda>w. w" "\<lambda>w. (Again () :: (nat, unit) outcome, w)" "\<lambda>w. (w, w)" "\<lambda>d w. w + d" 1 "DelayTuple 1 2 (Some 3)" 10 5]
  by (auto simp: clock_ok_def)

text \<open>C36: \<^verbatim>\<open>CountRetry\<close> always returns: it calls the function until a result is as expected or the
  function raises, and if neither happens gives the last result; the number of calls it
  makes at most is one more than the count it is given.\<close>

theorem count_retry_calls:
  assumes "no_retry_exn fn" "0 \<le> count"
  shows "CountRetry expected fn count w = Some (try_upto expected fn (Suc (nat count)) w)"
proof -
  have "of_int count \<le> (0 :: rat) + of_nat (nat count)" "(0 :: rat) + of_nat (nat count) < of_int count + 1"
    using assms(2) by simp_all
  from count_loop_eq [OF assms(1) this, of expected w None] obtain out s where
    s: "count_loop expected fn (of_int count) ((0, w), None) = Some (out, s)"
      "case try_upto expected fn (Suc (nat count)) w of (out', w') \<Rightarrow>
       snd (fst s) = w' \<and> (out = out' \<or> (out = TimedOut () \<and> (\<exists>r. snd s = Some r \<and> out' = Value r)))"
    by (elim exE conjE) (rule that)
  have fin: "try_upto expected fn (Suc n) w = (out', w') \<Longrightarrow> (\<exists>r. out' = Value r) \<or> (\<exists>e. out' = Raises e)" for n w out' w'
  proof (induction n arbitrary: w)
    case 0
    show ?case by (rule no_retry_cases [OF assms(1), of w]) (use 0 in auto)
  next
    case (Suc n)
    show ?case by (rule no_retry_cases [OF assms(1), of w]) (use Suc in \<open>auto split: if_splits\<close>)
  qed
  obtain tries w1 res where s1: "s = ((tries, w1), res)" by (cases s) auto
  obtain out' w' where t: "try_upto expected fn (Suc (nat count)) w = (out', w')" by (cases "try_upto expected fn (Suc (nat count)) w")
  have "SimpleRetry expected (count_fn fn) (DelayStatic 1) (of_int count)
      (\<lambda>t (tries, w). (tries + t, w)) (\<lambda>(tries, w). (tries, (tries, w))) (0, w) = Some (out', (tries, w'))"
    using s t fin [OF t] by (auto simp: SimpleRetry_def Retry_def s1 split: outcome.splits)
  then show ?thesis using t by (simp add: CountRetry_def)
qed

theorem count_retry_calls_witness:
  "CountRetry (ExpectValue (7 :: nat)) (\<lambda>w. (Value w, Suc w)) 2 0 = Some (Value 2, 3)"
  using count_retry_calls [of "\<lambda>w. (Value w, Suc w)" 2 "ExpectValue (7 :: nat)" 0]
  by (simp add: no_retry_exn_def numeral_2_eq_2)

text \<open>C38: the timeouts of lock attempts are computed in finitely many steps, whatever the growth
  function gives, if the shortest wait is positive: each lies within the two limits, their
  sum reaches the total time, and no timeout is added once it is reached. The varied timeout
  of an attempt is within five per cent of the computed one.\<close>

theorem lock_attempt_timeouts:
  assumes "0 < minwait" "minwait \<le> maxwait"
  shows "\<exists>ts. CalculateLockAttemptTimeouts grow minwait maxwait limit = Some ts \<and>
    (\<forall>t \<in> set ts. minwait \<le> t \<and> t \<le> maxwait) \<and> limit \<le> sum_list ts \<and>
    (length ts = 1 \<or> sum_list (butlast ts) < limit) \<and>
    (\<forall>rnd t rest. 0 \<le> rnd \<and> rnd < 1 \<and> t \<in> set ts \<longrightarrow>
       (\<exists>v. NextAttempt rnd (t # rest) = (Some v, rest) \<and> t * (95 / 100) \<le> v \<and> v < t * (105 / 100)))"
proof -
  obtain n where "(limit - minwait) / minwait \<le> of_nat n" using real_arch_simple by blast
  then have "limit - minwait \<le> of_nat n * minwait" using assms(1) by (simp add: divide_le_eq)
  then obtain ts where ts: "CalculateLockAttemptTimeouts grow minwait maxwait limit = Some ts"
    "\<forall>t \<in> set ts. minwait \<le> t \<and> t \<le> maxwait" "limit \<le> sum_list ts" "length ts = 1 \<or> sum_list (butlast ts) < limit"
    using attempt_timeouts_ok [OF assms, of "[minwait]" minwait limit n grow] assms
    by (auto simp: CalculateLockAttemptTimeouts_def)
  have "\<exists>v. NextAttempt rnd (t # rest) = (Some v, rest) \<and> t * (95 / 100) \<le> v \<and> v < t * (105 / 100)"
    if "0 \<le> rnd" "rnd < 1" "t \<in> set ts" for rnd t rest
  proof -
    have "0 < t" using ts(2) that(3) assms(1) by force
    then have "0 \<le> rnd * t" "rnd * t < t" using that by auto
    then show ?thesis using that by (simp add: NextAttempt_def Let_def algebra_simps)
  qed
  with ts show ?thesis by blast
qed

theorem lock_attempt_timeouts_witness:
  "\<exists>ts. CalculateLockAttemptTimeouts (\<lambda>x. x * 2) 1 10 50 = Some ts \<and> 50 \<le> sum_list ts"
  using lock_attempt_timeouts [of 1 10 "\<lambda>x. x * 2" 50] by auto

end
