(* ===== verification/Mcpu.thy ===== *)
theory Mcpu
  imports Retry "HOL-Library.List_Lexorder" "HOL-Library.Char_ord"
begin

text \<open>
  The opcode processor of \<^verbatim>\<open>lib/mcpu.py\<close> with the lock levels of \<^verbatim>\<open>lib/locking.py\<close>: it acquires
  the locks that a logical unit (LU) declares, level by level, from the configuration daemon,
  runs the unit between its hooks, and frees the locks again. The daemon, the
  configuration, the logical unit, the hooks and the callbacks of the job queue are the
  argument \<open>env\<close>, a record of their operations on a state \<open>'w\<close> of their own. The calls
  that matter are also recorded in a trace, of which the properties speak.
\<close>

section \<open>Lock levels\<close>

definition LEVEL_CLUSTER :: nat where "LEVEL_CLUSTER = 0"
definition LEVEL_INSTANCE :: nat where "LEVEL_INSTANCE = 1"
definition LEVEL_NODEGROUP :: nat where "LEVEL_NODEGROUP = 2"
definition LEVEL_NODE :: nat where "LEVEL_NODE = 3"
definition LEVEL_NODE_RES :: nat where "LEVEL_NODE_RES = 4"
definition LEVEL_NETWORK :: nat where "LEVEL_NETWORK = 5"

lemmas level_defs = LEVEL_CLUSTER_def LEVEL_INSTANCE_def LEVEL_NODEGROUP_def LEVEL_NODE_def LEVEL_NODE_RES_def
  LEVEL_NETWORK_def

definition LEVELS :: "nat list" where
  "LEVELS = [LEVEL_CLUSTER, LEVEL_INSTANCE, LEVEL_NODEGROUP, LEVEL_NODE, LEVEL_NODE_RES, LEVEL_NETWORK]"

definition LEVEL_NAMES :: "nat \<Rightarrow> string" where
  "LEVEL_NAMES level =
     [''cluster'', ''instance'', ''nodegroup'', ''node'', ''node-res'', ''network''] ! level"

definition LOCKSET_NAME :: string where
  "LOCKSET_NAME = ''[lockset]''"

definition BGL :: string where
  "BGL = ''BGL''"

lemma LEVELS_iff: "l \<in> set LEVELS \<longleftrightarrow> l < 6"
  by (auto simp: LEVELS_def level_defs)

section \<open>Logical units and their environment\<close>

text \<open>Lock names: all of a level (\<^verbatim>\<open>ALL_SET\<close>), one name, or a list.\<close>

datatype names = ALL_SET | OneName string | NameList "string list"

text \<open>The attributes of a logical unit with which it declares its locks.\<close>

record lu =
  lu_needed_locks :: "nat \<Rightarrow> names option"
  lu_add_locks :: "nat \<Rightarrow> names option"
  lu_share_locks :: "nat \<Rightarrow> bool"
  lu_opportunistic_locks :: "nat \<Rightarrow> bool"
  lu_opportunistic_locks_count :: "nat \<Rightarrow> int"
  lu_dont_collate_locks :: "nat \<Rightarrow> bool"

type_synonym request = "(string \<times> string) list"

text \<open>
  The attributes of opcodes that are copied to the jobs of a logical unit; \<open>None\<close> is a missing
  attribute.
\<close>

record op_params =
  op_debug_level :: "int option"
  op_priority :: "int option"
  op_comment :: "string option"
  op_reason :: "json list option"

datatype lu_result =
    PlainResult json
  | ResultWithJobs "op_params list list" "(string \<times> json) list"

datatype phase = HOOKS_PHASE_PRE | HOOKS_PHASE_POST

text \<open>
  The operations of the environment: the callbacks of the job (\<^verbatim>\<open>CurrentPriority\<close>,
  \<^verbatim>\<open>NotifyStart\<close>, \<^verbatim>\<open>NotifyRetry\<close>, \<^verbatim>\<open>Feedback\<close>, \<^verbatim>\<open>SubmitManyJobs\<close>), the requests to the
  configuration daemon, the configuration, the methods of the logical unit, the hooks, the
  signal flag, the clock and the random numbers.
\<close>

record ('w, 'h) env =
  env_CurrentPriority :: "('w, int option) meth"
  env_NotifyStart :: "('w, unit) meth"
  env_NotifyRetry :: "('w, unit) meth"
  env_Feedback :: "string \<Rightarrow> ('w, unit) meth"
  env_SubmitManyJobs :: "op_params list list \<Rightarrow> ('w, json) meth"
  env_UpdateLocksWaiting :: "int \<Rightarrow> request \<Rightarrow> ('w, unit) meth"
  env_HasPendingRequest :: "('w, bool) meth"
  env_OpportunisticLockUnion :: "int \<Rightarrow> request \<Rightarrow> ('w, string list) meth"
  env_FreeLocksLevel :: "string \<Rightarrow> ('w, unit) meth"
  env_ListLocks :: "('w, unit) meth"
  env_OutDate :: "'w \<Rightarrow> 'w"
  env_expand :: "nat \<Rightarrow> ('w, string list) meth"
  env_write_count :: "'w \<Rightarrow> int"
  env_DropECReservations :: "('w, unit) meth"
  env_lu_init :: "('w, unit) meth"
  env_ExpandNames :: "('w, unit) meth"
  env_lu :: "'w \<Rightarrow> lu option"
  env_DeclareLocks :: "nat \<Rightarrow> ('w, unit) meth"
  env_CheckPrereq :: "('w, unit) meth"
  env_Exec :: "('w, lu_result) meth"
  env_dry_run_result :: "'w \<Rightarrow> json"
  env_PrepareRetry :: "('w, unit) meth"
  env_RunPhase :: "phase \<Rightarrow> ('w, 'h) meth"
  env_HooksCallBack :: "phase \<Rightarrow> 'h \<Rightarrow> json option \<Rightarrow> ('w, json option) meth"
  env_RunConfigUpdate :: "('w, unit) meth"
  env_sighup :: "'w \<Rightarrow> bool"
  env_clear_sighup :: "'w \<Rightarrow> 'w"
  env_time :: "'w \<Rightarrow> rat \<times> 'w"
  env_sleep :: "rat \<Rightarrow> 'w \<Rightarrow> 'w"
  env_random :: "'w \<Rightarrow> rat \<times> 'w"

text \<open>The opcode that is executed, and the class of its logical unit.\<close>

record opcode =
  oc_params :: op_params
  oc_id :: string
  oc_dry_run :: bool
  oc_secrets :: "string list option"
  oc_result_ok :: "json \<Rightarrow> bool"
  oc_req_bgl :: "bool option"

section \<open>Actions\<close>

datatype event =
    EvRequest request
  | EvOpportunistic request
  | EvPending bool
  | EvFree string
  | EvStart
  | EvExec
  | EvNotifyRetry

record 'w state =
  st_world :: 'w
  st_trace :: "event list"
  st_cbs :: bool
  st_timeout :: "running_timeout option"
  st_executing :: int

text \<open>An action gives a result or an exception and a new state, or does not end.\<close>

type_synonym ('s, 'a) act = "'s \<Rightarrow> ('a res \<times> 's) option"

definition act_return :: "'a \<Rightarrow> ('s, 'a) act" where
  "act_return x s = Some (Inr x, s)"

definition act_raise :: "exn \<Rightarrow> ('s, 'a) act" where
  "act_raise e s = Some (Inl e, s)"

definition act_bind :: "('s, 'a) act \<Rightarrow> ('a \<Rightarrow> ('s, 'b) act) \<Rightarrow> ('s, 'b) act" where
  "act_bind m f s =
     (case m s of None \<Rightarrow> None | Some (Inl e, s') \<Rightarrow> Some (Inl e, s') | Some (Inr x, s') \<Rightarrow> f x s')"

definition act_catch :: "('s, 'a) act \<Rightarrow> (exn \<Rightarrow> ('s, 'a) act) \<Rightarrow> ('s, 'a) act" where
  "act_catch m h s =
     (case m s of None \<Rightarrow> None | Some (Inl e, s') \<Rightarrow> h e s' | Some (Inr x, s') \<Rightarrow> Some (Inr x, s'))"

definition act_finally :: "('s, 'a) act \<Rightarrow> ('s, unit) act \<Rightarrow> ('s, 'a) act" where
  "act_finally m f s =
     (case m s of
        None \<Rightarrow> None
      | Some (r, s') \<Rightarrow>
          (case f s' of None \<Rightarrow> None | Some (Inl e, s'') \<Rightarrow> Some (Inl e, s'') | Some (Inr _, s'') \<Rightarrow> Some (r, s'')))"

definition act_get :: "('s \<Rightarrow> 'a) \<Rightarrow> ('s, 'a) act" where
  "act_get f s = Some (Inr (f s), s)"

definition act_do :: "('s \<Rightarrow> 's) \<Rightarrow> ('s, unit) act" where
  "act_do f s = Some (Inr (), f s)"

lemmas act_defs = act_return_def act_raise_def act_bind_def act_catch_def act_finally_def act_get_def act_do_def

text \<open>Calling an operation of the environment, with or without a record in the trace.\<close>

definition call :: "('w, 'a) meth \<Rightarrow> ('w state, 'a) act" where
  "call m s = (case m (st_world s) of (r, w) \<Rightarrow> Some (r, s\<lparr>st_world := w\<rparr>))"

definition emit :: "event \<Rightarrow> ('w state, unit) act" where
  "emit ev = act_do (\<lambda>s. s\<lparr>st_trace := st_trace s @ [ev]\<rparr>)"

definition modify_world :: "('w \<Rightarrow> 'w) \<Rightarrow> ('w state, unit) act" where
  "modify_world f = act_do (\<lambda>s. s\<lparr>st_world := f (st_world s)\<rparr>)"

definition HasPendingRequest :: "('w, 'h) env \<Rightarrow> ('w state, bool) act" where
  "HasPendingRequest env =
     act_bind (call (env_HasPendingRequest env)) (\<lambda>p. act_bind (emit (EvPending p)) (\<lambda>_. act_return p))"

definition UpdateLocksWaiting :: "('w, 'h) env \<Rightarrow> int \<Rightarrow> request \<Rightarrow> ('w state, unit) act" where
  "UpdateLocksWaiting env priority request =
     act_bind (emit (EvRequest request)) (\<lambda>_. call (env_UpdateLocksWaiting env priority request))"

definition FreeLocksLevel :: "('w, 'h) env \<Rightarrow> string \<Rightarrow> ('w state, unit) act" where
  "FreeLocksLevel env levelname =
     act_bind (emit (EvFree levelname)) (\<lambda>_. call (env_FreeLocksLevel env levelname))"

section \<open>The processor\<close>

definition LUNameForOpName :: "string \<Rightarrow> string res" where
  "LUNameForOpName opname =
     (if take 2 opname = ''Op'' then Inr (''LU'' @ drop 2 opname) else Inl AssertionError)"

definition SetBaseOpParams :: "op_params \<Rightarrow> string \<Rightarrow> op_params \<Rightarrow> op_params" where
  "SetBaseOpParams src defcomment dst =
     (let dst1 = (if op_debug_level src \<noteq> None then dst\<lparr>op_debug_level := op_debug_level src\<rparr> else dst);
          dst2 = (if op_priority dst1 = None \<and> op_priority src \<noteq> None
                  then dst1\<lparr>op_priority := op_priority src\<rparr> else dst1);
          dst3 = (if op_comment dst2 = None \<or> op_comment dst2 = Some [] then dst2\<lparr>op_comment := Some defcomment\<rparr> else dst2)
      in case op_reason src of
           None \<Rightarrow> dst3
         | Some r \<Rightarrow> dst3\<lparr>op_reason := Some ((case op_reason dst3 of None \<Rightarrow> [] | Some r' \<Rightarrow> r') @ r)\<rparr>)"

definition JOB_IDS_KEY :: string where
  "JOB_IDS_KEY = ''jobs''"

definition ProcessResult ::
  "(op_params list list \<Rightarrow> ('w state, json) act) \<Rightarrow> opcode \<Rightarrow> lu_result \<Rightarrow> ('w state, json) act" where
  "ProcessResult submit_fn op result =
     (case result of
        PlainResult r \<Rightarrow> act_return r
      | ResultWithJobs jobs other \<Rightarrow>
          act_bind (submit_fn (map (map (SetBaseOpParams (oc_params op) (''Submitted by '' @ oc_id op))) jobs)) (\<lambda>ids.
            if JOB_IDS_KEY \<in> fst ` set other then act_raise AssertionError
            else act_return (JObj (other @ [(JOB_IDS_KEY, ids)]))))"

definition FailingSubmitManyJobs :: "op_params list list \<Rightarrow> ('w state, json) act" where
  "FailingSubmitManyJobs jobs =
     act_raise (ProgrammerError ''Opcodes processed without callbacks can not submit jobs'')"

definition LockList :: "names \<Rightarrow> names" where
  "LockList names = (case names of ALL_SET \<Rightarrow> ALL_SET | OneName n \<Rightarrow> NameList [n] | NameList ns \<Rightarrow> NameList ns)"

definition REDACTED :: string where
  "REDACTED = ''<redacted>''"

definition CheckSecretParameters :: "opcode \<Rightarrow> ('w state, unit) act" where
  "CheckSecretParameters op =
     (case oc_secrets op of
        None \<Rightarrow> act_return ()
      | Some values \<Rightarrow>
          if REDACTED \<in> set values then act_raise (OpPrereqError ''Please re-submit secret parameters to job.'')
          else act_return ())"

definition CheckLocksEnabled :: "bool \<Rightarrow> ('w state, unit) act" where
  "CheckLocksEnabled enable_locks =
     (if enable_locks then act_return () else act_raise (ProgrammerError ''Attempted to use disabled locks''))"

definition OP_PRIO_DEFAULT :: int where
  "OP_PRIO_DEFAULT = 0"

definition current_priority :: "('w, 'h) env \<Rightarrow> ('w state, int) act" where
  "current_priority env =
     act_bind (act_get st_cbs) (\<lambda>cbs.
     act_bind (if cbs then call (env_CurrentPriority env) else act_return None) (\<lambda>p.
       act_return (case p of None \<Rightarrow> OP_PRIO_DEFAULT | Some p \<Rightarrow> p)))"

text \<open>A retried action, as a function that \<^verbatim>\<open>SimpleRetry\<close> calls. The actions that are retried always end.\<close>

definition as_caller :: "('s, 'a) act \<Rightarrow> ('s, 'a, unit) caller" where
  "as_caller m s =
     (case m s of
        None \<Rightarrow> (Raises RuntimeError, s)
      | Some (Inl e, s') \<Rightarrow> (Raises e, s')
      | Some (Inr x, s') \<Rightarrow> (Value x, s'))"

definition simple_retry :: "('w, 'h) env \<Rightarrow> 'r expected \<Rightarrow> ('w state, 'r) act \<Rightarrow> rat \<Rightarrow> rat \<Rightarrow> ('w state, 'r) act" where
  "simple_retry env expected fn delay timeout s =
     (case SimpleRetry expected (as_caller fn) (DelayStatic delay) timeout
             (\<lambda>d s. s\<lparr>st_world := env_sleep env d (st_world s)\<rparr>)
             (\<lambda>s. case env_time env (st_world s) of (t, w) \<Rightarrow> (t, s\<lparr>st_world := w\<rparr>)) s of
        None \<Rightarrow> None
      | Some (Value r, s') \<Rightarrow> Some (Inr r, s')
      | Some (Raises e, s') \<Rightarrow> Some (Inl e, s')
      | Some (_, s') \<Rightarrow> Some (Inl RetryTimeout, s'))"

definition HasPending :: "('w, 'h) env \<Rightarrow> ('w state, bool) act" where
  "HasPending env =
     act_bind (act_get (\<lambda>s. env_sighup env (st_world s))) (\<lambda>sig.
       if sig then HasPendingRequest env else act_return True)"

text \<open>A missing timeout cannot be added to a time.\<close>

definition RequestAndWait :: "('w, 'h) env \<Rightarrow> request \<Rightarrow> rat option \<Rightarrow> ('w state, unit) act" where
  "RequestAndWait env request timeout =
     act_bind (current_priority env) (\<lambda>priority.
     act_bind (modify_world (env_clear_sighup env)) (\<lambda>_.
     act_bind (UpdateLocksWaiting env priority request) (\<lambda>_.
     act_bind (HasPendingRequest env) (\<lambda>pending.
     act_bind
       (if pending then
          act_bind
            (case timeout of
               None \<Rightarrow> act_raise TypeError
             | Some t \<Rightarrow> simple_retry env (ExpectValue False) (HasPending env) (5 / 100) t) (\<lambda>pending.
          act_bind (if pending then HasPendingRequest env else act_return False) (\<lambda>pending.
          act_bind (modify_world (env_clear_sighup env)) (\<lambda>_. act_return pending)))
        else act_return False) (\<lambda>pending.
     if pending then act_raise LockAcquireTimeout else act_return ())))))"

text \<open>Waiting without end for a request to be granted.\<close>

partial_function (option) wait_granted :: "('w, 'h) env \<Rightarrow> 'w state \<Rightarrow> (unit res \<times> 'w state) option" where
  "wait_granted env s =
     Option.bind (HasPendingRequest env s) (\<lambda>(r, s').
       if isl r then Some (Inl (projl r), s')
       else if \<not> projr r then Some (Inr (), s')
       else
         (case env_random env (st_world s') of (rnd, w) \<Rightarrow>
            wait_granted env (s'\<lparr>st_world := env_sleep env (10 * rnd) w\<rparr>)))"

fun request_one_by_one :: "('w, 'h) env \<Rightarrow> int \<Rightarrow> request \<Rightarrow> ('w state, unit) act" where
  "request_one_by_one env priority [] = act_return ()"
| "request_one_by_one env priority (r # rs) =
     act_bind (UpdateLocksWaiting env priority [r]) (\<lambda>_.
     act_bind (wait_granted env) (\<lambda>_. request_one_by_one env priority rs))"

definition lock_request :: "nat \<Rightarrow> bool \<Rightarrow> string list \<Rightarrow> request" where
  "lock_request level shared names =
     map (\<lambda>lock. (LEVEL_NAMES level @ ''/'' @ lock, if shared then ''shared'' else ''exclusive'')) (sort names)"

definition expand_names :: "('w, 'h) env \<Rightarrow> nat \<Rightarrow> bool \<Rightarrow> names \<Rightarrow> ('w state, string list) act" where
  "expand_names env level opportunistic names =
     (case names of
        ALL_SET \<Rightarrow>
          if opportunistic then (if level = LEVEL_CLUSTER then act_return [BGL] else call (env_expand env level))
          else act_return [LOCKSET_NAME]
      | OneName n \<Rightarrow> act_return [n]
      | NameList ns \<Rightarrow> act_return ns)"

text \<open>The result is only used if \<open>request_only\<close> is given; it is the request.\<close>

definition AcquireLocks ::
  "('w, 'h) env \<Rightarrow> bool \<Rightarrow> nat \<Rightarrow> names \<Rightarrow> bool \<Rightarrow> bool \<Rightarrow> rat option \<Rightarrow> int \<Rightarrow> bool \<Rightarrow> ('w state, request) act" where
  "AcquireLocks env enable_locks level names shared opportunistic timeout opportunistic_count request_only =
     act_bind (CheckLocksEnabled enable_locks) (\<lambda>_.
     act_bind (current_priority env) (\<lambda>priority.
     act_bind (expand_names env level opportunistic names) (\<lambda>ns.
     let request = lock_request level shared ns
     in if ns = [] then act_return []
        else if request_only then act_return request
        else
          act_bind (modify_world (env_OutDate env)) (\<lambda>_.
            case timeout of
              None \<Rightarrow> act_bind (request_one_by_one env priority request) (\<lambda>_. act_return request)
            | Some t \<Rightarrow>
                if opportunistic then
                  act_bind
                    (simple_retry env (ExpectFn (\<lambda>l. l \<noteq> []))
                       (act_bind (emit (EvOpportunistic request)) (\<lambda>_.
                          call (env_OpportunisticLockUnion env opportunistic_count request))) 2 t)
                    (\<lambda>locks. if locks = [] then act_raise LockAcquireTimeout else act_return request)
                else act_bind (RequestAndWait env request timeout) (\<lambda>_. act_return request)))))"

text \<open>\<^verbatim>\<open>calc_timeout\<close>: no timeout, or what remains of the timeout that runs.\<close>

definition calc_timeout :: "('w, 'h) env \<Rightarrow> ('w state, rat option) act" where
  "calc_timeout env s =
     (case st_timeout s of
        None \<Rightarrow> Some (Inr None, s)
      | Some rt \<Rightarrow>
          (let (start, w1) = (if rt_start_time rt = None \<and> rt_timeout rt \<noteq> None then env_time env (st_world s) else (0, st_world s));
               (now, w2) = (if rt_timeout rt \<noteq> None then env_time env w1 else (0, w1));
               (v, rt') = Remaining start now rt
           in Some (Inr v, s\<lparr>st_world := w2, st_timeout := Some rt'\<rparr>)))"

definition Log :: "('w, 'h) env \<Rightarrow> string \<Rightarrow> ('w state, unit) act" where
  "Log env message =
     act_bind (act_get st_cbs) (\<lambda>cbs. if cbs then call (env_Feedback env message) else act_return ())"

definition LogStep :: "('w, 'h) env \<Rightarrow> int \<Rightarrow> int \<Rightarrow> string \<Rightarrow> ('w state, unit) act" where
  "LogStep env current tot message =
     Log env (''STEP '' @ int_str current @ ''/'' @ int_str tot @ '' '' @ message)"

text \<open>The message is already formatted.\<close>

definition LogWarning :: "('w, 'h) env \<Rightarrow> string \<Rightarrow> string option \<Rightarrow> ('w state, unit) act" where
  "LogWarning env message hint =
     act_bind (if message \<noteq> [] then Log env ('' - WARNING: '' @ message) else act_return ()) (\<lambda>_.
       case hint of None \<Rightarrow> act_return () | Some h \<Rightarrow> Log env (''      Hint: '' @ h))"

definition LogInfo :: "('w, 'h) env \<Rightarrow> string \<Rightarrow> ('w state, unit) act" where
  "LogInfo env message = Log env ('' - INFO: '' @ message)"

definition ExecLU :: "('w, 'h) env \<Rightarrow> opcode \<Rightarrow> ('w state, json) act" where
  "ExecLU env op =
     act_bind (act_get (\<lambda>s. env_write_count env (st_world s))) (\<lambda>write_count.
     act_bind (modify_world (env_OutDate env)) (\<lambda>_.
     act_bind (call (env_CheckPrereq env)) (\<lambda>_.
     act_bind (call (env_RunPhase env HOOKS_PHASE_PRE)) (\<lambda>h_results.
     act_bind (call (env_HooksCallBack env HOOKS_PHASE_PRE h_results None)) (\<lambda>_.
     if oc_dry_run op then
       act_bind (LogInfo env ''dry-run mode requested, not actually executing the operation'') (\<lambda>_.
         act_get (\<lambda>s. env_dry_run_result env (st_world s)))
     else
       act_bind (act_get st_cbs) (\<lambda>cbs.
       act_bind (act_do (\<lambda>s. s\<lparr>st_executing := st_executing s + 1\<rparr>)) (\<lambda>_.
       act_finally
         (act_bind (emit EvExec) (\<lambda>_.
          act_bind (call (env_Exec env)) (\<lambda>r.
          act_bind (ProcessResult (if cbs then (\<lambda>jobs. call (env_SubmitManyJobs env jobs)) else FailingSubmitManyJobs) op r) (\<lambda>result.
          act_bind (call (env_RunPhase env HOOKS_PHASE_POST)) (\<lambda>h_results.
          act_bind (call (env_HooksCallBack env HOOKS_PHASE_POST h_results (Some result))) (\<lambda>result.
            act_return (case result of None \<Rightarrow> JNull | Some r \<Rightarrow> r)))))))
         (act_bind (act_do (\<lambda>s. s\<lparr>st_executing := st_executing s - 1\<rparr>)) (\<lambda>_.
          act_bind (act_get (\<lambda>s. env_write_count env (st_world s))) (\<lambda>now_count.
            if write_count \<noteq> now_count then call (env_RunConfigUpdate env) else act_return ())))))))))) "

text \<open>What becomes of an exception of the unit: it is retried later if resources were missing.\<close>

definition prepare_retry :: "('w, 'h) env \<Rightarrow> bool \<Rightarrow> ('w state, unit) act" where
  "prepare_retry env cbs =
     act_bind (call (env_PrepareRetry env)) (\<lambda>_.
       if cbs then act_bind (emit EvNotifyRetry) (\<lambda>_. call (env_NotifyRetry env)) else act_return ())"

definition lu_failed :: "('w, 'h) env \<Rightarrow> bool \<Rightarrow> exn \<Rightarrow> ('w state, json) act" where
  "lu_failed env cbs err =
     (case err of
        OpPrereqTempNores m \<Rightarrow>
          act_bind
            (act_catch (prepare_retry env cbs)
               (\<lambda>e. if e = OpRetryNotSupportedError then act_raise err else act_raise e))
            (\<lambda>_. act_raise LockAcquireTimeout)
      | AssertionError \<Rightarrow> act_raise (OpExecError ''Internal assertion error: please report this as a bug.'')
      | _ \<Rightarrow> act_raise err)"

definition run_lu :: "('w, 'h) env \<Rightarrow> opcode \<Rightarrow> ('w state, json) act" where
  "run_lu env op =
     act_bind (act_get st_cbs) (\<lambda>cbs.
     act_bind (emit EvStart) (\<lambda>_.
     act_bind (if cbs then call (env_NotifyStart env) else act_return ()) (\<lambda>_.
     act_catch (ExecLU env op) (lu_failed env cbs))))"

definition ListLocks :: "('w, 'h) env \<Rightarrow> ('w state, unit) act" where
  "ListLocks env = call (env_ListLocks env)"

text \<open>Sending the collected requests of the lower levels.\<close>

definition flush :: "('w, 'h) env \<Rightarrow> request \<Rightarrow> ('w state, unit) act" where
  "flush env pending =
     (if pending = [] then act_return ()
      else
        act_bind (calc_timeout env) (\<lambda>t.
        act_bind (RequestAndWait env pending t) (\<lambda>_.
        act_bind (modify_world (env_OutDate env)) (\<lambda>_. ListLocks env))))"

definition lu_of :: "('w, 'h) env \<Rightarrow> ('w state, lu) act" where
  "lu_of env = act_bind (act_get (\<lambda>s. env_lu env (st_world s))) (\<lambda>l. case l of None \<Rightarrow> act_raise TypeError | Some l \<Rightarrow> act_return l)"

text \<open>The names that a level needs and adds; \<^verbatim>\<open>ALL_SET\<close> has no \<^verbatim>\<open>extend\<close> method.\<close>

definition needed_names :: "lu \<Rightarrow> nat \<Rightarrow> bool \<Rightarrow> bool \<Rightarrow> names res" where
  "needed_names lu level acquiring adding =
     res_bind
       (if acquiring then
          (case lu_needed_locks lu level of None \<Rightarrow> Inl KeyError | Some n \<Rightarrow> Inr (LockList n))
        else Inr (NameList [])) (\<lambda>needed.
       if \<not> adding then Inr needed
       else
         (case lu_add_locks lu level of
            None \<Rightarrow> Inl KeyError
          | Some m \<Rightarrow>
              (case (needed, LockList m) of
                 (ALL_SET, _) \<Rightarrow> Inl AttributeError
               | (_, ALL_SET) \<Rightarrow> Inl TypeError
               | (NameList ns, NameList ms) \<Rightarrow> Inr (NameList (ns @ ms))
               | (n, _) \<Rightarrow> Inr n)))"

definition act_res :: "'a res \<Rightarrow> ('s, 'a) act" where
  "act_res r s = Some (r, s)"

text \<open>Acquiring one level: the requests that are still pending for the next one.\<close>

definition acquire_level ::
  "('w, 'h) env \<Rightarrow> bool \<Rightarrow> nat \<Rightarrow> bool \<Rightarrow> bool \<Rightarrow> bool \<Rightarrow> bool \<Rightarrow> int \<Rightarrow> request \<Rightarrow> ('w state, request) act" where
  "acquire_level env enable_locks level acquiring adding opportunistic share count pending =
     act_bind (lu_of env) (\<lambda>lu.
     act_bind (act_res (needed_names lu level acquiring adding)) (\<lambda>needed.
     act_bind (calc_timeout env) (\<lambda>timeout.
       if timeout \<noteq> None \<and> \<not> opportunistic then
         act_bind (AcquireLocks env enable_locks level needed share opportunistic timeout 1 True) (\<lambda>req.
           act_return (pending @ req))
       else
         act_bind (flush env pending) (\<lambda>_.
         act_bind (AcquireLocks env enable_locks level needed share opportunistic timeout count False) (\<lambda>_.
         act_bind (ListLocks env) (\<lambda>_. act_return []))))))"

function LockAndExecLU :: "('w, 'h) env \<Rightarrow> bool \<Rightarrow> opcode \<Rightarrow> nat \<Rightarrow> request \<Rightarrow> ('w state, json) act" where
  "LockAndExecLU env enable_locks op level pending =
     (if level \<notin> set LEVELS then act_bind (flush env pending) (\<lambda>_. run_lu env op)
      else
        act_bind (lu_of env) (\<lambda>lu.
        let adding = lu_add_locks lu level \<noteq> None;
            acquiring = lu_needed_locks lu level \<noteq> None;
            opportunistic = lu_opportunistic_locks lu level
        in act_bind (if lu_dont_collate_locks lu level then act_bind (flush env pending) (\<lambda>_. act_return []) else act_return pending)
           (\<lambda>pending.
             if adding \<and> opportunistic then act_raise NotImplementedError
             else if adding \<and> acquiring \<and> lu_needed_locks lu level = Some ALL_SET then act_raise NotImplementedError
             else if adding \<or> acquiring then
               act_bind (CheckLocksEnabled enable_locks) (\<lambda>_.
               act_bind (call (env_DeclareLocks env level)) (\<lambda>_.
               act_bind (lu_of env) (\<lambda>lu.
               act_finally
                 (act_bind (acquire_level env enable_locks level acquiring adding opportunistic
                     (lu_share_locks lu level) (lu_opportunistic_locks_count lu level) pending) (\<lambda>pending.
                   LockAndExecLU env enable_locks op (level + 1) pending))
                 (FreeLocksLevel env (LEVEL_NAMES level)))))
             else LockAndExecLU env enable_locks op (level + 1) pending)))"
  by pat_completeness auto

termination
  by (relation "measure (\<lambda>(_, _, _, level, _). 6 - level)") (auto simp: LEVELS_iff)

declare LockAndExecLU.simps [simp del]

definition CheckLUResult :: "opcode \<Rightarrow> json \<Rightarrow> ('w state, unit) act" where
  "CheckLUResult op result =
     (if \<not> oc_result_ok op result \<and> \<not> oc_dry_run op then act_raise OpResultError else act_return ())"

definition lu_needed_set :: "('w, 'h) env \<Rightarrow> ('w state, unit) act" where
  "lu_needed_set env =
     act_bind (act_get (\<lambda>s. env_lu env (st_world s))) (\<lambda>l. if l = None then act_raise AssertionError else act_return ())"

definition GetECId :: "string \<Rightarrow> string res" where
  "GetECId ec_id =
     (if ec_id = [] then Inl (ProgrammerError ''Tried to use execution context id when not set'') else Inr ec_id)"

definition ExecOpCode :: "('w, 'h) env \<Rightarrow> bool \<Rightarrow> string \<Rightarrow> opcode \<Rightarrow> bool \<Rightarrow> rat option \<Rightarrow> ('w state, json) act" where
  "ExecOpCode env enable_locks ec_id op cbs timeout =
     (case oc_req_bgl op of
        None \<Rightarrow> act_raise OpCodeUnknown
      | Some req_bgl \<Rightarrow>
          act_bind (act_res (case timeout of
              None \<Rightarrow> Inr None
            | Some t \<Rightarrow> res_bind (RunningTimeout (Some t) False) (\<lambda>rt. Inr (Some rt)))) (\<lambda>rt.
          act_bind (act_do (\<lambda>s. s\<lparr>st_timeout := rt, st_cbs := cbs\<rparr>)) (\<lambda>_.
          act_bind
            (act_finally
               (act_bind
                  (if enable_locks then
                     act_bind (calc_timeout env) (\<lambda>t.
                     act_bind (AcquireLocks env enable_locks LEVEL_CLUSTER (OneName BGL) (\<not> req_bgl) False t 1 False)
                       (\<lambda>_. act_return ()))
                   else if req_bgl then act_raise (ProgrammerError ''Opcode requires BGL, but locks are disabled'')
                   else act_return ()) (\<lambda>_.
                act_bind (call (env_lu_init env)) (\<lambda>_.
                act_bind (ListLocks env) (\<lambda>_.
                act_bind (CheckSecretParameters op) (\<lambda>_.
                act_bind (call (env_ExpandNames env)) (\<lambda>_.
                act_bind (lu_needed_set env) (\<lambda>_.
                act_finally
                  (LockAndExecLU env enable_locks op (LEVEL_CLUSTER + 1) [])
                  (if ec_id \<noteq> [] then call (env_DropECReservations env) else act_return ()))))))))
               (act_bind (FreeLocksLevel env (LEVEL_NAMES LEVEL_CLUSTER)) (\<lambda>_.
                  act_do (\<lambda>s. s\<lparr>st_cbs := False\<rparr>)))) (\<lambda>result.
          act_bind (CheckLUResult op result) (\<lambda>_. act_return result)))))"

section \<open>Reasoning about traces\<close>

text \<open>
  \<open>tv P m Q E\<close>: started with a trace that satisfies \<open>P\<close>, the action \<open>m\<close> leaves, if it ends, one
  that satisfies \<open>Q x\<close> when it returns \<open>x\<close>, and \<open>E\<close> when it raises.
\<close>

definition tv ::
  "(event list \<Rightarrow> bool) \<Rightarrow> ('w state, 'a) act \<Rightarrow> ('a \<Rightarrow> event list \<Rightarrow> bool) \<Rightarrow> (event list \<Rightarrow> bool) \<Rightarrow> bool" where
  "tv P m Q E \<longleftrightarrow> (\<forall>s r s'. m s = Some (r, s') \<longrightarrow> P (st_trace s) \<longrightarrow>
     (case r of Inl e \<Rightarrow> E (st_trace s') | Inr x \<Rightarrow> Q x (st_trace s')))"

lemma tvD: "tv P m Q E \<Longrightarrow> m s = Some (r, s') \<Longrightarrow> P (st_trace s) \<Longrightarrow>
    (case r of Inl e \<Rightarrow> E (st_trace s') | Inr x \<Rightarrow> Q x (st_trace s'))"
  unfolding tv_def by blast

lemma tv_weaken:
  assumes "tv P m Q E" "\<And>t. P' t \<Longrightarrow> P t" "\<And>x t. Q x t \<Longrightarrow> Q' x t" "\<And>t. E t \<Longrightarrow> E' t"
  shows "tv P' m Q' E'"
  using assms unfolding tv_def by (fastforce split: sum.splits)

lemma tv_pre: "tv P m Q E \<Longrightarrow> (\<And>t. P' t \<Longrightarrow> P t) \<Longrightarrow> tv P' m Q E"
  by (erule tv_weaken) auto

lemma tv_post: "tv P m Q E \<Longrightarrow> (\<And>t. E t \<Longrightarrow> E' t) \<Longrightarrow> tv P m Q E'"
  by (erule tv_weaken) auto

lemma tv_return: "(\<And>t. P t \<Longrightarrow> Q x t) \<Longrightarrow> tv P (act_return x) Q E"
  by (auto simp: tv_def act_return_def)

lemma tv_raise: "(\<And>t. P t \<Longrightarrow> E t) \<Longrightarrow> tv P (act_raise e) Q E"
  by (auto simp: tv_def act_raise_def)

lemma tv_res: "(\<And>t. P t \<Longrightarrow> E t) \<Longrightarrow> (\<And>x t. P t \<Longrightarrow> Q x t) \<Longrightarrow> tv P (act_res r) Q E"
  by (auto simp: tv_def act_res_def split: sum.splits)

lemma tv_bind:
  assumes "tv P m R E" "\<And>x. tv (R x) (f x) Q E" shows "tv P (act_bind m f) Q E"
  unfolding tv_def
proof (intro allI impI)
  fix s r s' assume a: "act_bind m f s = Some (r, s')" "P (st_trace s)"
  then obtain r1 s1 where m: "m s = Some (r1, s1)" by (auto simp: act_bind_def split: option.splits)
  from tvD [OF assms(1) m a(2)] show "case r of Inl e \<Rightarrow> E (st_trace s') | Inr x \<Rightarrow> Q x (st_trace s')"
    using a m tvD [OF assms(2)] by (cases r1) (auto simp: act_bind_def)
qed

lemma tv_catch:
  assumes "tv P m Q R" "\<And>e. tv R (h e) Q E" shows "tv P (act_catch m h) Q E"
  unfolding tv_def
proof (intro allI impI)
  fix s r s' assume a: "act_catch m h s = Some (r, s')" "P (st_trace s)"
  then obtain r1 s1 where m: "m s = Some (r1, s1)" by (auto simp: act_catch_def split: option.splits)
  from tvD [OF assms(1) m a(2)] show "case r of Inl e \<Rightarrow> E (st_trace s') | Inr x \<Rightarrow> Q x (st_trace s')"
    using a m tvD [OF assms(2)] by (cases r1) (auto simp: act_catch_def)
qed

lemma tv_finally:
  assumes "tv P m A B" "\<And>x. tv (A x) f (\<lambda>_. Q x) E" "tv B f (\<lambda>_. E) E"
  shows "tv P (act_finally m f) Q E"
  unfolding tv_def
proof (intro allI impI)
  fix s r s' assume a: "act_finally m f s = Some (r, s')" "P (st_trace s)"
  then obtain r1 s1 where m: "m s = Some (r1, s1)" by (auto simp: act_finally_def split: option.splits)
  obtain r2 s2 where f: "f s1 = Some (r2, s2)" using a m by (auto simp: act_finally_def split: option.splits)
  from tvD [OF assms(1) m a(2)] show "case r of Inl e \<Rightarrow> E (st_trace s') | Inr x \<Rightarrow> Q x (st_trace s')"
    using a m f tvD [OF assms(2) f] tvD [OF assms(3) f] by (cases r1; cases r2) (auto simp: act_finally_def)
qed

lemma tv_call: "tv P (call m) (\<lambda>_. P) P"
  by (auto simp: tv_def call_def split: sum.splits prod.splits)

lemma tv_get: "tv P (act_get f) (\<lambda>_. P) E"
  by (auto simp: tv_def act_get_def)

lemma tv_world: "tv P (modify_world f) (\<lambda>_. P) E"
  by (auto simp: tv_def modify_world_def act_do_def)

lemma tv_emit: "(\<And>t. P t \<Longrightarrow> Q () (t @ [ev])) \<Longrightarrow> tv P (emit ev) Q E"
  by (auto simp: tv_def emit_def act_do_def)

lemma tv_timeout: "tv P (calc_timeout env) (\<lambda>_. P) E"
  by (auto simp: tv_def calc_timeout_def Let_def split_beta split: option.splits)

lemma tv_if: "(b \<Longrightarrow> tv P m Q E) \<Longrightarrow> (\<not> b \<Longrightarrow> tv P m' Q E) \<Longrightarrow> tv P (if b then m else m') Q E"
  by simp

lemmas tv_intros = tv_bind tv_return tv_raise tv_call tv_get tv_world tv_timeout tv_if

section \<open>Retried actions\<close>

lemma tv_simple_retry:
  assumes "tv J fn K J" "\<And>r t. K r t \<Longrightarrow> J t" "\<And>s. fn s \<noteq> None"
  shows "tv J (simple_retry env expected fn d timeout) K J"
  unfolding tv_def
proof (intro allI impI)
  fix s r s' assume a: "simple_retry env expected fn d timeout s = Some (r, s')" "J (st_trace s)"
  obtain out where o: "SimpleRetry expected (as_caller fn) (DelayStatic d) timeout
      (\<lambda>d s. s\<lparr>st_world := env_sleep env d (st_world s)\<rparr>)
      (\<lambda>s. case env_time env (st_world s) of (t, w) \<Rightarrow> (t, s\<lparr>st_world := w\<rparr>)) s = Some (out, s')"
    "r = (case out of Value r \<Rightarrow> Inr r | Raises e \<Rightarrow> Inl e | _ \<Rightarrow> Inl RetryTimeout)"
    using a(1) by (auto simp: simple_retry_def split: option.splits outcome.splits)
  have fn: "case as_caller fn s of (Value r, s') \<Rightarrow> K r (st_trace s') | (Raises e, s') \<Rightarrow> J (st_trace s')
      | (Again _, s') \<Rightarrow> False | (TimedOut _, s') \<Rightarrow> False" if J: "J (st_trace s)" for s
  proof -
    obtain r s' where f: "fn s = Some (r, s')" using assms(3) [of s] by auto
    then show ?thesis using tvD [OF assms(1) f J] by (cases r) (auto simp: as_caller_def)
  qed
  have "case out of Value r \<Rightarrow> K r (st_trace s') | _ \<Rightarrow> J (st_trace s')"
    by (rule SimpleRetry_inv [where J = "\<lambda>s. J (st_trace s)" and K = "\<lambda>r s. K r (st_trace s)", OF o(1) a(2) fn])
      (auto simp: assms(2) split: prod.splits)
  then show "case r of Inl e \<Rightarrow> J (st_trace s') | Inr x \<Rightarrow> K x (st_trace s')"
    using o(2) by (cases out) auto
qed

section \<open>Lock order, open levels and confirmed requests\<close>

fun requested :: "event list \<Rightarrow> string list" where
  "requested [] = []"
| "requested (EvRequest r # t) = map fst r @ requested t"
| "requested (e # t) = requested t"

text \<open>The level of a lock and its name within the level.\<close>

definition lock_level :: "string \<Rightarrow> string" where
  "lock_level s = takeWhile (\<lambda>c. c \<noteq> CHR ''/'') s"

definition lock_key :: "string \<Rightarrow> nat \<times> string" where
  "lock_key s = (length (takeWhile (\<lambda>l. LEVEL_NAMES l \<noteq> lock_level s) LEVELS), drop (length (lock_level s) + 1) s)"

definition lock_le :: "string \<Rightarrow> string \<Rightarrow> bool" where
  "lock_le a b \<longleftrightarrow> fst (lock_key a) < fst (lock_key b) \<or> fst (lock_key a) = fst (lock_key b) \<and> snd (lock_key a) \<le> snd (lock_key b)"

text \<open>The levels at which locks were asked for and not freed since.\<close>

definition request_levels :: "request \<Rightarrow> string set" where
  "request_levels r = (lock_level \<circ> fst) ` set r"

fun open_step :: "event \<Rightarrow> string set \<Rightarrow> string set" where
  "open_step (EvRequest r) S = S \<union> request_levels r"
| "open_step (EvOpportunistic r) S = S \<union> request_levels r"
| "open_step (EvFree l) S = S - {l}"
| "open_step e S = S"

definition open_levels :: "event list \<Rightarrow> string set" where
  "open_levels t = fold open_step t {}"

text \<open>Whether a request has not been confirmed yet: no later answer said that none is pending.\<close>

fun pending_step :: "event \<Rightarrow> bool \<Rightarrow> bool" where
  "pending_step (EvRequest r) p = True"
| "pending_step (EvPending b) p = (if b then p else False)"
| "pending_step e p = p"

definition unconfirmed :: "event list \<Rightarrow> bool" where
  "unconfirmed t = fold pending_step t False"

text \<open>The unit starts only when all requests are confirmed, runs only when it has started, and
  nothing is requested any more after that.\<close>

definition start_ok :: "event list \<Rightarrow> bool" where
  "start_ok t \<longleftrightarrow>
     (\<forall>t1 t2. t = t1 @ EvStart # t2 \<longrightarrow> \<not> unconfirmed t1 \<and> requested t2 = [] \<and> EvStart \<notin> set t1) \<and>
     (\<forall>t1 t2. t = t1 @ EvExec # t2 \<longrightarrow> EvStart \<in> set t1)"

lemma requested_append [simp]: "requested (t @ u) = requested t @ requested u"
  by (induction t rule: requested.induct) auto

lemma open_levels_snoc [simp]: "open_levels (t @ [e]) = open_step e (open_levels t)"
  by (simp add: open_levels_def)

lemma unconfirmed_snoc [simp]: "unconfirmed (t @ [e]) = pending_step e (unconfirmed t)"
  by (simp add: unconfirmed_def)

lemma level_names_inj: "l < 6 \<Longrightarrow> k < 6 \<Longrightarrow> LEVEL_NAMES l = LEVEL_NAMES k \<longleftrightarrow> l = k"
  by (auto simp: LEVEL_NAMES_def numeral_eq_Suc less_Suc_eq)

lemma lock_level_lock [simp]: "l < 6 \<Longrightarrow> lock_level (LEVEL_NAMES l @ ''/'' @ n) = LEVEL_NAMES l"
  by (auto simp: lock_level_def LEVEL_NAMES_def numeral_eq_Suc less_Suc_eq)

lemma LEVELS_upt: "LEVELS = [0..<6]"
  by (simp add: LEVELS_def level_defs upt_rec)

lemma takeWhile_upt: "l < n \<Longrightarrow> (\<And>k. k < l \<Longrightarrow> P k) \<Longrightarrow> \<not> P l \<Longrightarrow> takeWhile P [0..<n] = [0..<l]"
proof -
  assume a: "l < n" "\<And>k. k < l \<Longrightarrow> P k" "\<not> P l"
  have "[0..<n] = [0..<l] @ l # [Suc l..<n]"
    using a(1) upt_add_eq_append [of 0 l "n - l"] by (simp add: upt_conv_Cons)
  moreover have "takeWhile P ([0..<l] @ l # [Suc l..<n]) = [0..<l] @ takeWhile P (l # [Suc l..<n])"
    using a(2) by (intro takeWhile_append2) simp
  ultimately show ?thesis using a(3) by simp
qed

lemma lock_key_lock: "l < 6 \<Longrightarrow> lock_key (LEVEL_NAMES l @ ''/'' @ n) = (l, n)"
proof -
  assume l: "l < 6"
  then have "takeWhile (\<lambda>k. LEVEL_NAMES k \<noteq> LEVEL_NAMES l) LEVELS = [0..<l]"
    unfolding LEVELS_upt by (intro takeWhile_upt) (auto simp: level_names_inj)
  then show ?thesis using lock_level_lock [OF l, of n] by (simp add: lock_key_def)
qed

lemma start_ok_Nil [simp]: "start_ok []"
  by (simp add: start_ok_def)

lemma start_ok_snoc:
  assumes "start_ok t" "e \<noteq> EvStart" "e = EvExec \<Longrightarrow> EvStart \<in> set t" "requested [e] \<noteq> [] \<Longrightarrow> EvStart \<notin> set t"
  shows "start_ok (t @ [e])"
  unfolding start_ok_def
proof (intro conjI allI impI)
  fix t1 t2 assume a: "t @ [e] = t1 @ EvStart # t2"
  then obtain u where u: "t2 = u @ [e]" "t = t1 @ EvStart # u" using assms(2) by (cases t2 rule: rev_cases) auto
  have "\<not> unconfirmed t1 \<and> requested u = [] \<and> EvStart \<notin> set t1"
    using assms(1) u(2) unfolding start_ok_def by blast
  moreover have "requested [e] = []" using assms(4) u(2) by auto
  ultimately show "\<not> unconfirmed t1" "EvStart \<notin> set t1" "requested t2 = []" using u(1) by simp_all
next
  fix t1 t2 assume a: "t @ [e] = t1 @ EvExec # t2"
  show "EvStart \<in> set t1"
  proof (cases t2 rule: rev_cases)
    case Nil
    then show ?thesis using a assms(3) by auto
  next
    case (snoc u x)
    then have "t = t1 @ EvExec # u" using a by auto
    then show ?thesis using assms(1) unfolding start_ok_def by blast
  qed
qed

lemma start_ok_start:
  assumes "start_ok t" "\<not> unconfirmed t" "EvStart \<notin> set t" shows "start_ok (t @ [EvStart])"
  unfolding start_ok_def
proof (intro conjI allI impI)
  fix t1 t2 assume a: "t @ [EvStart] = t1 @ EvStart # t2"
  then have "t2 = [] \<and> t = t1" using assms(3) by (cases t2 rule: rev_cases) auto
  then show "\<not> unconfirmed t1" "EvStart \<notin> set t1" "requested t2 = []" using assms by auto
next
  fix t1 t2 assume a: "t @ [EvStart] = t1 @ EvExec # t2"
  then obtain u where "t = t1 @ EvExec # u" by (cases t2 rule: rev_cases) auto
  then show "EvStart \<in> set t1" using assms(1) unfolding start_ok_def by blast
qed

text \<open>
  The trace while locks of the levels below \<open>L\<close> are being acquired, only those
  in \<open>S\<close> being open, with \<open>rest\<close> still to be
  requested; the same with all requests confirmed; and at the end.
\<close>

definition mid :: "nat \<Rightarrow> string set \<Rightarrow> request \<Rightarrow> event list \<Rightarrow> bool" where
  "mid L S rest t \<longleftrightarrow> sorted_wrt lock_le (requested t @ map fst rest) \<and>
     (\<forall>a \<in> set (requested t @ map fst rest). fst (lock_key a) < L) \<and>
     open_levels t \<subseteq> S \<and> request_levels rest \<subseteq> S \<and> start_ok t \<and> EvStart \<notin> set t"

definition good :: "nat \<Rightarrow> string set \<Rightarrow> request \<Rightarrow> event list \<Rightarrow> bool" where
  "good L S rest t \<longleftrightarrow> mid L S rest t \<and> \<not> unconfirmed t"

definition final :: "string set \<Rightarrow> event list \<Rightarrow> bool" where
  "final S t \<longleftrightarrow> sorted_wrt lock_le (requested t) \<and> open_levels t \<subseteq> S \<and> start_ok t"

lemma mid_final: "mid L S rest t \<Longrightarrow> final S t"
  by (auto simp: mid_def final_def sorted_wrt_append)

lemma good_final: "good L S rest t \<Longrightarrow> final S t"
  by (auto simp: good_def mid_final)

lemma mid_drop: "mid L S (p @ rest) t \<Longrightarrow> mid L S p t"
  by (auto simp: mid_def sorted_wrt_append request_levels_def)

lemma mid_request: "mid L S (p @ rest) t \<Longrightarrow> mid L S rest (t @ [EvRequest p])"
  by (auto simp: mid_def request_levels_def intro!: start_ok_snoc)

lemma mid_pending: "mid L S rest t \<Longrightarrow> mid L S rest (t @ [EvPending b])"
  by (auto simp: mid_def intro!: start_ok_snoc)

lemma tv_priority: "tv P (current_priority env) (\<lambda>_. P) P"
  unfolding current_priority_def
  by (rule tv_bind [OF tv_get], rule tv_bind [where R = "\<lambda>_. P"]) (auto intro: tv_call tv_return)

lemma tv_pending:
  "tv (mid L S rest) (HasPendingRequest env) (\<lambda>p t. mid L S rest t \<and> (\<not> p \<longrightarrow> \<not> unconfirmed t)) (mid L S rest)"
  unfolding HasPendingRequest_def
proof (rule tv_bind [OF tv_call])
  fix p
  show "tv (mid L S rest) (act_bind (emit (EvPending p)) (\<lambda>_. act_return p))
      (\<lambda>p t. mid L S rest t \<and> (\<not> p \<longrightarrow> \<not> unconfirmed t)) (mid L S rest)"
    by (rule tv_bind [where R = "\<lambda>_ t. mid L S rest t \<and> (\<not> p \<longrightarrow> \<not> unconfirmed t)"])
      (rule tv_emit tv_return, simp add: mid_pending)+
qed

lemma HasPendingRequest_ends: "HasPendingRequest env s \<noteq> None"
  by (auto simp: HasPendingRequest_def act_bind_def call_def emit_def act_do_def act_return_def split: prod.splits sum.splits)

lemma tv_HasPending:
  "tv (mid L S rest) (HasPending env) (\<lambda>p t. mid L S rest t \<and> (\<not> p \<longrightarrow> \<not> unconfirmed t)) (mid L S rest)"
  unfolding HasPending_def by (rule tv_bind [OF tv_get]) (auto intro!: tv_if tv_pending tv_return)

lemma HasPending_ends: "HasPending env s \<noteq> None"
  using HasPendingRequest_ends [of env s] by (auto simp: HasPending_def act_bind_def act_get_def act_return_def)

lemma tv_UpdateLocksWaiting:
  "tv (mid L S (p @ rest)) (UpdateLocksWaiting env prio p) (\<lambda>_. mid L S rest) (mid L S rest)"
  unfolding UpdateLocksWaiting_def
  by (rule tv_bind [where R = "\<lambda>_. mid L S rest"]) (auto intro!: tv_call tv_emit mid_request)

lemma tv_RequestAndWait: "tv (good L S p) (RequestAndWait env p timeout) (\<lambda>_. good L S []) (final S)"
proof -
  let ?K = "\<lambda>p t. mid L S [] t \<and> (\<not> p \<longrightarrow> \<not> unconfirmed t)"
  have up: "tv (good L S p) (UpdateLocksWaiting env prio p) (\<lambda>_. mid L S []) (final S)" for prio
    by (rule tv_weaken [OF tv_UpdateLocksWaiting [of L S p "[]"]]) (auto simp: good_def mid_final)
  have pend: "tv (mid L S []) (HasPendingRequest env) ?K (final S)"
    by (rule tv_weaken [OF tv_pending]) (auto simp: mid_final)
  have retry: "tv (mid L S []) (case timeout of None \<Rightarrow> act_raise TypeError
      | Some t \<Rightarrow> simple_retry env (ExpectValue False) (HasPending env) (5 / 100) t) ?K (final S)"
  proof (cases timeout)
    case (Some t)
    have "tv (mid L S []) (simple_retry env (ExpectValue False) (HasPending env) (5 / 100) t) ?K (mid L S [])"
      by (rule tv_simple_retry [OF tv_HasPending]) (auto simp: HasPending_ends)
    then show ?thesis using Some by (auto intro: tv_weaken mid_final)
  qed (auto intro!: tv_raise mid_final)
  have again: "tv (?K b) (if b then HasPendingRequest env else act_return False) ?K (final S)" for b
    by (auto intro!: tv_if tv_return tv_weaken [OF pend])
  have wait: "tv (?K b) (if b then
          act_bind (case timeout of None \<Rightarrow> act_raise TypeError
             | Some t \<Rightarrow> simple_retry env (ExpectValue False) (HasPending env) (5 / 100) t) (\<lambda>pending.
          act_bind (if pending then HasPendingRequest env else act_return False) (\<lambda>pending.
          act_bind (modify_world (env_clear_sighup env)) (\<lambda>_. act_return pending)))
        else act_return False) ?K (final S)" for b
    by (intro tv_if tv_bind [OF tv_pre [OF retry]] tv_bind [OF again] tv_bind [OF tv_world] tv_return) auto
  show ?thesis
    unfolding RequestAndWait_def
    by (intro tv_bind [OF tv_post [OF tv_priority]] tv_bind [OF tv_world] tv_bind [OF up] tv_bind [OF pend]
          tv_bind [OF wait] tv_if tv_raise tv_return) (auto simp: good_final good_def mid_final)
qed

lemma tv_wait_granted: "tv (mid L S rest) (wait_granted env) (\<lambda>_. good L S rest) (final S)"
  unfolding tv_def
proof (intro allI impI)
  fix s r s' assume a: "wait_granted env s = Some (r, s')" "mid L S rest (st_trace s)"
  have "mid L S rest (st_trace s) \<longrightarrow>
      (case fst (r, s') of Inl e \<Rightarrow> final S (st_trace (snd (r, s'))) | Inr x \<Rightarrow> good L S rest (st_trace (snd (r, s'))))"
  proof (rule wait_granted.raw_induct [where P = "\<lambda>env s y. mid L S rest (st_trace s) \<longrightarrow>
      (case fst y of Inl e \<Rightarrow> final S (st_trace (snd y)) | Inr x \<Rightarrow> good L S rest (st_trace (snd y)))", OF _ a(1)])
    fix wait and env :: "('a, 'b) env" and s y
    assume IH: "\<And>env s y. wait env s = Some y \<Longrightarrow> mid L S rest (st_trace s) \<longrightarrow>
        (case fst y of Inl e \<Rightarrow> final S (st_trace (snd y)) | Inr x \<Rightarrow> good L S rest (st_trace (snd y)))"
      and step: "Option.bind (HasPendingRequest env s) (\<lambda>(r, s').
         if isl r then Some (Inl (projl r), s')
         else if \<not> projr r then Some (Inr (), s')
         else (case env_random env (st_world s') of (rnd, w) \<Rightarrow> wait env (s'\<lparr>st_world := env_sleep env (10 * rnd) w\<rparr>))) = Some y"
    show "mid L S rest (st_trace s) \<longrightarrow>
        (case fst y of Inl e \<Rightarrow> final S (st_trace (snd y)) | Inr x \<Rightarrow> good L S rest (st_trace (snd y)))"
    proof
      assume m: "mid L S rest (st_trace s)"
      obtain r1 s1 where h: "HasPendingRequest env s = Some (r1, s1)" using HasPendingRequest_ends [of env s] by auto
      have t: "case r1 of Inl e \<Rightarrow> mid L S rest (st_trace s1) | Inr p \<Rightarrow> mid L S rest (st_trace s1) \<and> (\<not> p \<longrightarrow> \<not> unconfirmed (st_trace s1))"
        using tvD [OF tv_pending h m] by (auto split: sum.splits)
      obtain rnd w where e: "env_random env (st_world s1) = (rnd, w)" by (cases "env_random env (st_world s1)")
      have "(\<exists>x. r1 = Inl x) \<or> r1 = Inr False \<or> r1 = Inr True" by (cases r1) auto
      then consider x where "r1 = Inl x" | "r1 = Inr False" | "r1 = Inr True" by blast
      then show "case fst y of Inl e \<Rightarrow> final S (st_trace (snd y)) | Inr x \<Rightarrow> good L S rest (st_trace (snd y))"
      proof cases
        case 1
        then show ?thesis using step h t by (auto simp: mid_final)
      next
        case 2
        then show ?thesis using step h t by (auto simp: good_def)
      next
        case 3
        then have "wait env (s1\<lparr>st_world := env_sleep env (10 * rnd) w\<rparr>) = Some y" using step h e by simp
        from IH [OF this] show ?thesis using t 3 by simp
      qed
    qed
  qed
  with a(2) show "case r of Inl e \<Rightarrow> final S (st_trace s') | Inr x \<Rightarrow> good L S rest (st_trace s')" by (cases r) simp_all
qed

lemma tv_request_one_by_one: "tv (good L S rs) (request_one_by_one env prio rs) (\<lambda>_. good L S []) (final S)"
proof (induction rs)
  case Nil
  then show ?case by (auto intro: tv_return)
next
  case (Cons r rs)
  have u: "tv (good L S (r # rs)) (UpdateLocksWaiting env prio [r]) (\<lambda>_. mid L S rs) (final S)"
    by (rule tv_weaken [OF tv_UpdateLocksWaiting [of L S "[r]" rs]]) (auto simp: good_def mid_final)
  show ?case unfolding request_one_by_one.simps by (rule tv_bind [OF u tv_bind [OF tv_wait_granted Cons.IH]])
qed

section \<open>Acquiring the locks of a level\<close>

lemma fst_lock_request: "map fst (lock_request level shared ns) = map (\<lambda>n. LEVEL_NAMES level @ ''/'' @ n) (sort ns)"
  by (simp add: lock_request_def comp_def)

lemma lock_request_levels: "level < 6 \<Longrightarrow> request_levels (lock_request level shared ns) \<subseteq> {LEVEL_NAMES level}"
  using lock_level_lock by (auto simp: request_levels_def lock_request_def)

lemma sorted_level: "level < 6 \<Longrightarrow> sorted ns \<Longrightarrow> sorted_wrt lock_le (map (\<lambda>n. LEVEL_NAMES level @ ''/'' @ n) ns)"
proof (induction ns)
  case (Cons n ns)
  then show ?case using lock_key_lock [of level] by (auto simp: lock_le_def)
qed simp

text \<open>The request of a level comes after everything that was requested at lower levels.\<close>

lemma good_lock_request:
  assumes "good level S rest t" "level < 6"
  shows "good (Suc level) (insert (LEVEL_NAMES level) S) (rest @ lock_request level shared ns) t"
proof -
  have g: "sorted_wrt lock_le (requested t @ map fst rest)" "\<forall>a \<in> set (requested t @ map fst rest). fst (lock_key a) < level"
    using assms(1) by (auto simp: good_def mid_def)
  have k: "fst (lock_key a) = level" if "a \<in> set (map fst (lock_request level shared ns))" for a
    using that lock_key_lock [OF assms(2)] unfolding fst_lock_request by auto
  have s: "sorted_wrt lock_le (map fst (lock_request level shared ns))"
    unfolding fst_lock_request by (rule sorted_level [OF assms(2)]) simp
  have "sorted_wrt lock_le ((requested t @ map fst rest) @ map fst (lock_request level shared ns))"
    unfolding sorted_wrt_append [of lock_le "requested t @ map fst rest"] using g s k by (auto simp: lock_le_def)
  moreover have "\<forall>a \<in> set (requested t @ map fst (rest @ lock_request level shared ns)). fst (lock_key a) < Suc level"
  proof
    fix a assume "a \<in> set (requested t @ map fst (rest @ lock_request level shared ns))"
    then have "a \<in> set (requested t @ map fst rest) \<or> a \<in> set (map fst (lock_request level shared ns))" by auto
    then show "fst (lock_key a) < Suc level" using g(2) k by (metis less_SucI lessI)
  qed
  moreover have "request_levels (rest @ lock_request level shared ns) \<subseteq> insert (LEVEL_NAMES level) S"
    using assms lock_request_levels [OF assms(2), of shared ns]
    by (auto simp: good_def mid_def request_levels_def)
  ultimately show ?thesis using assms(1) by (auto simp: good_def mid_def)
qed

lemma good_Suc: "good L S rest t \<Longrightarrow> good (Suc L) S rest t"
  unfolding good_def mid_def by (meson less_SucI subset_insertI2)

lemma good_insert: "good L S rest t \<Longrightarrow> good (Suc L) (insert l S) rest t"
  unfolding good_def mid_def by (meson less_SucI subset_insertI2)

lemma final_insert: "final S t \<Longrightarrow> final (insert l S) t"
  by (auto simp: final_def)

lemma good_opportunistic_again:
  assumes "good (Suc level) (insert (LEVEL_NAMES level) S) [] t" "level < 6"
  shows "good (Suc level) (insert (LEVEL_NAMES level) S) [] (t @ [EvOpportunistic (lock_request level shared ns)])"
  using assms lock_request_levels [OF assms(2), of shared ns]
  by (auto simp: good_def mid_def intro!: start_ok_snoc)

lemma tv_enabled: "tv P (CheckLocksEnabled b) (\<lambda>_. P) P"
  by (auto simp: CheckLocksEnabled_def intro: tv_return tv_raise)

lemma tv_expand: "tv P (expand_names env level opp names) (\<lambda>_. P) P"
  by (auto simp: expand_names_def intro: tv_return tv_call split: names.splits)

lemma tv_AcquireLocks_only:
  assumes "level < 6"
  shows "tv (good level S rest) (AcquireLocks env en level names shared opp timeout count True)
    (\<lambda>req. good (Suc level) (insert (LEVEL_NAMES level) S) (rest @ req)) (final (insert (LEVEL_NAMES level) S))"
  unfolding AcquireLocks_def Let_def
  by (intro tv_bind [OF tv_post [OF tv_enabled]] tv_bind [OF tv_post [OF tv_priority]] tv_bind [OF tv_post [OF tv_expand]]
        tv_if tv_return)
    (auto simp: good_insert good_lock_request [OF _ assms] intro: final_insert good_final)

lemma tv_opportunistic:
  assumes "level < 6"
  shows "tv (good (Suc level) (insert (LEVEL_NAMES level) S) []) (simple_retry env (ExpectFn (\<lambda>l. l \<noteq> []))
      (act_bind (emit (EvOpportunistic (lock_request level shared ns))) (\<lambda>_.
         call (env_OpportunisticLockUnion env count (lock_request level shared ns)))) 2 t)
    (\<lambda>_. good (Suc level) (insert (LEVEL_NAMES level) S) []) (good (Suc level) (insert (LEVEL_NAMES level) S) [])"
proof (rule tv_simple_retry)
  show "tv (good (Suc level) (insert (LEVEL_NAMES level) S) []) (act_bind (emit (EvOpportunistic (lock_request level shared ns))) (\<lambda>_.
         call (env_OpportunisticLockUnion env count (lock_request level shared ns)))) (\<lambda>_. good (Suc level) (insert (LEVEL_NAMES level) S) []) (good (Suc level) (insert (LEVEL_NAMES level) S) [])"
    by (rule tv_bind [where R = "\<lambda>_. good (Suc level) (insert (LEVEL_NAMES level) S) []"])
      (rule tv_call tv_emit, erule good_opportunistic_again [OF _ assms], rule tv_call)
qed (auto simp: act_bind_def emit_def act_do_def call_def split: prod.splits)

lemma tv_AcquireLocks:
  assumes "level < 6"
  shows "tv (good level S []) (AcquireLocks env en level names shared opp timeout count False)
    (\<lambda>_. good (Suc level) (insert (LEVEL_NAMES level) S) []) (final (insert (LEVEL_NAMES level) S))"
proof -
  have G: "good level S [] t \<Longrightarrow> good (Suc level) (insert (LEVEL_NAMES level) S) (lock_request level shared ns) t" for t ns
    using good_lock_request [OF _ assms, of S "[]"] by simp
  have "tv (good level S [])
      (case timeout of
         None \<Rightarrow> act_bind (request_one_by_one env prio (lock_request level shared ns)) (\<lambda>_. act_return (lock_request level shared ns))
       | Some t \<Rightarrow>
           if opp then
             act_bind (simple_retry env (ExpectFn (\<lambda>l. l \<noteq> []))
               (act_bind (emit (EvOpportunistic (lock_request level shared ns))) (\<lambda>_.
                  call (env_OpportunisticLockUnion env count (lock_request level shared ns)))) 2 t)
               (\<lambda>locks. if locks = [] then act_raise LockAcquireTimeout else act_return (lock_request level shared ns))
           else act_bind (RequestAndWait env (lock_request level shared ns) timeout) (\<lambda>_. act_return (lock_request level shared ns)))
      (\<lambda>_. good (Suc level) (insert (LEVEL_NAMES level) S) []) (final (insert (LEVEL_NAMES level) S))" for prio ns
  proof (cases timeout)
    case None
    show ?thesis unfolding None option.case
      by (intro tv_bind [OF tv_pre [OF tv_request_one_by_one [of "Suc level" "insert (LEVEL_NAMES level) S"]]] tv_return) (auto simp: G)
  next
    case (Some t)
    show ?thesis unfolding Some option.case
      by (intro tv_if tv_bind [OF tv_post [OF tv_pre [OF tv_opportunistic [OF assms]]]]
            tv_bind [OF tv_pre [OF tv_RequestAndWait [of "Suc level" "insert (LEVEL_NAMES level) S"]]] tv_return tv_raise)
        (auto simp: G good_insert good_final)
  qed
  then show ?thesis
    unfolding AcquireLocks_def Let_def
    by (intro tv_bind [OF tv_post [OF tv_enabled]] tv_bind [OF tv_post [OF tv_priority]] tv_bind [OF tv_post [OF tv_expand]]
          tv_if tv_return tv_bind [OF tv_world])
      (auto simp: good_insert intro: final_insert good_final)
qed

lemma tv_keep_res: "(\<And>t. P t \<Longrightarrow> E t) \<Longrightarrow> tv P (act_res r) (\<lambda>_. P) E"
  by (rule tv_res)

lemma tv_lu_of: "tv P (lu_of env) (\<lambda>_. P) P"
  unfolding lu_of_def by (rule tv_bind [OF tv_get]) (auto intro: tv_raise tv_return split: option.splits)

lemma tv_ListLocks: "tv P (ListLocks env) (\<lambda>_. P) P"
  unfolding ListLocks_def by (rule tv_call)

lemma tv_flush: "tv (good L S pending) (flush env pending) (\<lambda>_. good L S []) (final S)"
  unfolding flush_def
  by (intro tv_if tv_return tv_bind [OF tv_timeout] tv_bind [OF tv_RequestAndWait] tv_bind [OF tv_world]
        tv_post [OF tv_ListLocks]) (auto simp: good_final)

lemma tv_acquire_level:
  assumes "level < 6"
  shows "tv (good level S pending) (acquire_level env en level acq add opp share count pending)
    (\<lambda>pending'. good (Suc level) (insert (LEVEL_NAMES level) S) pending') (final (insert (LEVEL_NAMES level) S))"
proof -
  have f: "tv (good level S pending) (flush env pending) (\<lambda>_. good level S []) (final (insert (LEVEL_NAMES level) S))"
    by (rule tv_post [OF tv_flush final_insert])
  show ?thesis
    unfolding acquire_level_def
    by (intro tv_bind [OF tv_post [OF tv_lu_of]] tv_bind [OF tv_keep_res] tv_bind [OF tv_timeout] tv_if
          tv_bind [OF tv_AcquireLocks_only [OF assms]] tv_bind [OF f] tv_bind [OF tv_AcquireLocks [OF assms]]
          tv_bind [OF tv_post [OF tv_ListLocks]] tv_return)
      (auto intro: final_insert good_final)
qed

section \<open>Running the unit\<close>

definition started :: "string set \<Rightarrow> event list \<Rightarrow> bool" where
  "started S t \<longleftrightarrow> final S t \<and> EvStart \<in> set t"

lemma tv_start: "tv (good L S []) (emit EvStart) (\<lambda>_. started S) E"
  by (rule tv_emit) (auto simp: good_def mid_def started_def final_def intro: start_ok_start)

lemma tv_exec: "tv (started S) (emit EvExec) (\<lambda>_. started S) E"
  by (rule tv_emit) (auto simp: started_def final_def intro: start_ok_snoc)

lemma tv_notify: "tv (started S) (emit EvNotifyRetry) (\<lambda>_. started S) E"
  by (rule tv_emit) (auto simp: started_def final_def intro: start_ok_snoc)

lemma tv_do: "(\<And>s. st_trace (f s) = st_trace s) \<Longrightarrow> tv P (act_do f) (\<lambda>_. P) E"
  by (auto simp: tv_def act_do_def)

lemma tv_Log: "tv P (Log env m) (\<lambda>_. P) P"
  unfolding Log_def by (rule tv_bind [OF tv_get]) (auto intro: tv_call tv_return)

lemma tv_ProcessResult:
  assumes "\<And>jobs. tv P (submit jobs) (\<lambda>_. P) P"
  shows "tv P (ProcessResult submit op r) (\<lambda>_. P) P"
  by (cases r) (auto simp: ProcessResult_def intro!: tv_return tv_raise tv_bind [OF assms] tv_if)

lemma tv_ExecLU: "tv (started S) (ExecLU env op) (\<lambda>_. started S) (started S)"
proof -
  have submit: "tv (started S) ((if cbs then (\<lambda>jobs. call (env_SubmitManyJobs env jobs)) else FailingSubmitManyJobs) jobs)
      (\<lambda>_. started S) (started S)" for cbs jobs
    by (auto simp: FailingSubmitManyJobs_def intro: tv_call tv_raise)
  have exec: "tv (started S) (act_bind (emit EvExec) (\<lambda>_.
          act_bind (call (env_Exec env)) (\<lambda>r.
          act_bind (ProcessResult (if cbs then (\<lambda>jobs. call (env_SubmitManyJobs env jobs)) else FailingSubmitManyJobs) op r) (\<lambda>result.
          act_bind (call (env_RunPhase env HOOKS_PHASE_POST)) (\<lambda>h_results.
          act_bind (call (env_HooksCallBack env HOOKS_PHASE_POST h_results (Some result))) (\<lambda>result.
            act_return (case result of None \<Rightarrow> JNull | Some r \<Rightarrow> r))))))) (\<lambda>_. started S) (started S)" for cbs
    by (intro tv_bind [OF tv_exec] tv_bind [OF tv_call] tv_bind [OF tv_ProcessResult [OF submit]] tv_return)
  have cleanup: "tv (started S) (act_bind (act_do (\<lambda>s. s\<lparr>st_executing := st_executing s - 1\<rparr>)) (\<lambda>_.
          act_bind (act_get (\<lambda>s. env_write_count env (st_world s))) (\<lambda>now_count.
            if n \<noteq> now_count then call (env_RunConfigUpdate env) else act_return ()))) (\<lambda>_. started S) (started S)" for n
    by (intro tv_bind [OF tv_do] tv_bind [OF tv_get] tv_if tv_call tv_return) auto
  have info: "tv (started S) (LogInfo env m) (\<lambda>_. started S) (started S)" for m
    unfolding LogInfo_def by (rule tv_Log)
  show ?thesis
    unfolding ExecLU_def
    by (intro tv_bind [OF tv_get] tv_bind [OF tv_world] tv_bind [OF tv_call] tv_if tv_bind [OF info] tv_get
          tv_bind [OF tv_do] tv_finally [OF exec cleanup cleanup]) auto
qed

lemma tv_run_lu: "tv (good L S []) (run_lu env op) (\<lambda>_. final S) (final S)"
proof -
  have s: "started S t \<Longrightarrow> final S t" for t by (simp add: started_def)
  have start: "tv (started S) (if cbs then call (env_NotifyStart env) else act_return ()) (\<lambda>_. started S) (final S)" for cbs
    by (auto intro!: tv_post [OF tv_call] tv_return s)
  have retry: "tv (started S) (prepare_retry env cbs) (\<lambda>_. started S) (started S)" for cbs
    unfolding prepare_retry_def by (intro tv_bind [OF tv_call] tv_if tv_bind [OF tv_notify] tv_call tv_return)
  have again: "tv (started S) (act_bind (act_catch (prepare_retry env cbs)
      (\<lambda>e. if e = OpRetryNotSupportedError then act_raise err else act_raise e))
      (\<lambda>_. act_raise LockAcquireTimeout)) (\<lambda>_. final S) (final S)" for cbs err
    by (intro tv_bind [OF tv_catch [OF retry]] tv_if tv_raise) (auto simp: s)
  have handler: "tv (started S) (lu_failed env cbs err) (\<lambda>_. final S) (final S)" for cbs err
    unfolding lu_failed_def by (cases err) (simp_all only: exn.case again, auto intro!: tv_raise s)
  have body: "tv (started S) (ExecLU env op) (\<lambda>_. final S) (started S)"
    by (rule tv_weaken [OF tv_ExecLU]) (auto simp: s)
  show ?thesis
    unfolding run_lu_def
    by (intro tv_bind [OF tv_get] tv_bind [OF tv_start] tv_bind [OF start] tv_catch [OF body handler])
qed

section \<open>All levels\<close>

lemma tv_free:
  assumes "level < 6"
  shows "tv (final (insert (LEVEL_NAMES level) S)) (FreeLocksLevel env (LEVEL_NAMES level)) (\<lambda>_. final S) (final S)"
  unfolding FreeLocksLevel_def
proof (rule tv_bind [OF _ tv_call])
  show "tv (final (insert (LEVEL_NAMES level) S)) (emit (EvFree (LEVEL_NAMES level))) (\<lambda>_. final S) (final S)"
    by (rule tv_emit) (auto simp: final_def intro!: start_ok_snoc)
qed

lemma tv_LockAndExecLU:
  "level + n = 6 \<Longrightarrow> tv (good level S pending) (LockAndExecLU env en op level pending) (\<lambda>_. final S) (final S)"
proof (induction n arbitrary: level S pending)
  case 0
  then show ?case
    by (subst LockAndExecLU.simps) (auto simp: LEVELS_iff intro!: tv_bind [OF tv_flush tv_run_lu])
next
  case (Suc n)
  then have l: "level < 6" by simp
  have ih: "tv (good (Suc level) (insert (LEVEL_NAMES level) S) p) (LockAndExecLU env en op (level + 1) p) (\<lambda>_. final (insert (LEVEL_NAMES level) S)) (final (insert (LEVEL_NAMES level) S))" for p
    using Suc.IH [of "Suc level" "insert (LEVEL_NAMES level) S" p] Suc.prems by simp
  have next_level: "tv (good level S p) (LockAndExecLU env en op (level + 1) p) (\<lambda>_. final S) (final S)" for p
    using Suc.IH [of "Suc level" S p] Suc.prems by (auto intro: tv_pre good_Suc)
  have level: "tv (good level S p) (act_finally
       (act_bind (acquire_level env en level acq add opp share count p) (\<lambda>p. LockAndExecLU env en op (level + 1) p))
       (FreeLocksLevel env (LEVEL_NAMES level))) (\<lambda>_. final S) (final S)" for acq add opp share count p
    by (rule tv_finally [OF tv_bind [OF tv_acquire_level [OF l] ih] tv_free [OF l] tv_free [OF l]])
  have collate: "tv (good level S pending) (if b then act_bind (flush env pending) (\<lambda>_. act_return []) else act_return pending)
      (\<lambda>p. good level S p) (final S)" for b
    by (intro tv_if tv_bind [OF tv_flush] tv_return)
  show ?case
    by (subst LockAndExecLU.simps) (use l in \<open>auto simp: LEVELS_iff Let_def simp del: add_Suc_right
      intro!: tv_bind [OF tv_post [OF tv_lu_of good_final]] tv_bind [OF collate] tv_if tv_raise
        tv_bind [OF tv_post [OF tv_enabled good_final]] tv_bind [OF tv_post [OF tv_call good_final]] level next_level good_final\<close>)
qed

lemma tv_secret: "tv P (CheckSecretParameters op) (\<lambda>_. P) P"
  by (auto simp: CheckSecretParameters_def intro: tv_return tv_raise split: option.splits)

lemma tv_needed_set: "tv P (lu_needed_set env) (\<lambda>_. P) P"
  unfolding lu_needed_set_def by (rule tv_bind [OF tv_get]) (auto intro: tv_return tv_raise)

lemma tv_result: "tv P (CheckLUResult op r) (\<lambda>_. P) P"
  by (auto simp: CheckLUResult_def intro: tv_return tv_raise)

lemma good_start: "good 0 {} [] []"
  by (simp add: good_def mid_def open_levels_def request_levels_def unconfirmed_def)

lemma tv_ExecOpCode: "tv (\<lambda>t. t = []) (ExecOpCode env en ec_id op cbs timeout) (\<lambda>_. final {}) (final {})"
proof -
  let ?S = "{LEVEL_NAMES 0}"
  have f0: "final {} []" "final ?S []" by (simp_all add: final_def open_levels_def)
  have bgl: "tv (good 0 {} []) (if en then
                     act_bind (calc_timeout env) (\<lambda>t.
                     act_bind (AcquireLocks env en LEVEL_CLUSTER (OneName BGL) (\<not> req_bgl) False t 1 False)
                       (\<lambda>_. act_return ()))
                   else if req_bgl then act_raise (ProgrammerError ''Opcode requires BGL, but locks are disabled'')
                   else act_return ()) (\<lambda>_. good 1 ?S []) (final ?S)" for req_bgl
    unfolding LEVEL_CLUSTER_def
    by (intro tv_if tv_bind [OF tv_timeout] tv_bind [OF tv_AcquireLocks [of 0 "{}", simplified]] tv_raise tv_return)
      (auto intro: final_insert good_final dest: good_insert [of 0 "{}" "[]" _ "LEVEL_NAMES 0"])
  have call: "tv (good 1 ?S []) (call m) (\<lambda>_. good 1 ?S []) (final ?S)" for m :: "('a, unit) meth"
    by (rule tv_post [OF tv_call good_final])
  have drop: "tv (final ?S) (if ec_id \<noteq> [] then call (env_DropECReservations env) else act_return ()) (\<lambda>_. final ?S) (final ?S)"
    by (auto intro: tv_call tv_return)
  have run: "tv (good 1 ?S []) (act_finally (LockAndExecLU env en op (LEVEL_CLUSTER + 1) [])
      (if ec_id \<noteq> [] then call (env_DropECReservations env) else act_return ())) (\<lambda>_. final ?S) (final ?S)"
    unfolding LEVEL_CLUSTER_def
    by (rule tv_finally [where A = "\<lambda>_. final ?S" and B = "final ?S"])
      (use tv_LockAndExecLU [of 1 5 ?S "[]" env en op] drop in simp_all)
  have free: "tv (final ?S) (act_bind (FreeLocksLevel env (LEVEL_NAMES LEVEL_CLUSTER)) (\<lambda>_.
      act_do (\<lambda>s. s\<lparr>st_cbs := False\<rparr>))) (\<lambda>_. final {}) (final {})"
    unfolding LEVEL_CLUSTER_def by (rule tv_bind [OF tv_free tv_do]) auto
  have pre: "good 0 {} [] t" if "t = []" for t using that good_start by simp
  show ?thesis
  proof (cases "oc_req_bgl op")
    case None
    then show ?thesis by (auto simp: ExecOpCode_def f0 intro: tv_raise)
  next
    case (Some b)
    show ?thesis
      unfolding ExecOpCode_def Some option.case
      by (intro tv_bind [OF tv_keep_res] tv_bind [OF tv_do] tv_bind [OF tv_finally [OF _ free free]]
            tv_bind [OF tv_pre [OF bgl pre]] tv_bind [OF call] tv_bind [OF tv_post [OF tv_ListLocks good_final]]
            tv_bind [OF tv_post [OF tv_secret good_final]] tv_bind [OF tv_post [OF tv_needed_set good_final]] run
            tv_bind [OF tv_result] tv_return)
        (auto simp: f0)
  qed
qed

lemma ExecOpCode_final:
  assumes "ExecOpCode env en ec_id op cbs timeout s = Some (r, s')" "st_trace s = []"
  shows "final {} (st_trace s')"
  using tvD [OF tv_ExecOpCode assms(1)] assms(2) by (cases r) auto

section \<open>Termination\<close>

text \<open>
  \<open>ends Q m\<close>: with a timeout that runs, the action \<open>m\<close> ends, keeps the timeout, and what it
  returns satisfies \<open>Q\<close>.
\<close>

definition timed :: "'w state \<Rightarrow> bool" where
  "timed s \<longleftrightarrow> (\<exists>rt t. st_timeout s = Some rt \<and> rt_timeout rt = Some t)"

definition ends :: "('a \<Rightarrow> bool) \<Rightarrow> ('w state, 'a) act \<Rightarrow> bool" where
  "ends Q m \<longleftrightarrow> (\<forall>s. timed s \<longrightarrow> (\<exists>r s'. m s = Some (r, s') \<and> timed s' \<and> (\<forall>x. r = Inr x \<longrightarrow> Q x)))"

abbreviation returns :: "('w state, 'a) act \<Rightarrow> bool" where
  "returns m \<equiv> ends (\<lambda>_. True) m"

lemma endsD: "ends Q m \<Longrightarrow> timed s \<Longrightarrow> \<exists>r s'. m s = Some (r, s') \<and> timed s' \<and> (\<forall>x. r = Inr x \<longrightarrow> Q x)"
  unfolding ends_def by blast

lemma ends_bind: "ends R m \<Longrightarrow> (\<And>x. R x \<Longrightarrow> ends Q (f x)) \<Longrightarrow> ends Q (act_bind m f)"
  unfolding ends_def [of Q "act_bind m f"]
proof (intro allI impI)
  fix s :: "'b state" assume a: "ends R m" "\<And>x. R x \<Longrightarrow> ends Q (f x)" "timed s"
  obtain r s1 where m: "m s = Some (r, s1)" "timed s1" "\<forall>x. r = Inr x \<longrightarrow> R x" using endsD [OF a(1,3)] by blast
  show "\<exists>r s'. act_bind m f s = Some (r, s') \<and> timed s' \<and> (\<forall>x. r = Inr x \<longrightarrow> Q x)"
  proof (cases r)
    case (Inl e)
    then show ?thesis using m by (simp add: act_bind_def)
  next
    case (Inr x)
    then have "ends Q (f x)" using m(3) a(2) by simp
    from endsD [OF this m(2)] show ?thesis using m(1) Inr by (simp add: act_bind_def)
  qed
qed

lemma ends_catch: "ends Q m \<Longrightarrow> (\<And>e. ends Q (h e)) \<Longrightarrow> ends Q (act_catch m h)"
  unfolding ends_def [of Q "act_catch m h"]
proof (intro allI impI)
  fix s :: "'b state" assume a: "ends Q m" "\<And>e. ends Q (h e)" "timed s"
  obtain r s1 where m: "m s = Some (r, s1)" "timed s1" "\<forall>x. r = Inr x \<longrightarrow> Q x" using endsD [OF a(1,3)] by blast
  then show "\<exists>r s'. act_catch m h s = Some (r, s') \<and> timed s' \<and> (\<forall>x. r = Inr x \<longrightarrow> Q x)"
    using endsD [OF a(2) m(2)] by (cases r) (auto simp: act_catch_def)
qed

lemma ends_finally: "ends Q m \<Longrightarrow> returns f \<Longrightarrow> ends Q (act_finally m f)"
  unfolding ends_def [of Q "act_finally m f"]
proof (intro allI impI)
  fix s :: "'b state" assume a: "ends Q m" "returns f" "timed s"
  obtain r s1 where m: "m s = Some (r, s1)" "timed s1" "\<forall>x. r = Inr x \<longrightarrow> Q x" using endsD [OF a(1,3)] by blast
  obtain r2 s2 where f: "f s1 = Some (r2, s2)" "timed s2" using endsD [OF a(2) m(2)] by blast
  show "\<exists>r s'. act_finally m f s = Some (r, s') \<and> timed s' \<and> (\<forall>x. r = Inr x \<longrightarrow> Q x)"
    using m f by (cases r2) (auto simp: act_finally_def)
qed

lemma ends_return: "Q x \<Longrightarrow> ends Q (act_return x)"
  by (auto simp: ends_def act_return_def)

lemma ends_raise: "ends Q (act_raise e)"
  by (auto simp: ends_def act_raise_def)

lemma returns_res: "returns (act_res r)"
  by (auto simp: ends_def act_res_def)

lemma returns_call: "returns (call m)"
  by (auto simp: ends_def call_def timed_def split: prod.splits)

lemma returns_get: "returns (act_get f)"
  by (auto simp: ends_def act_get_def)

lemma returns_world: "returns (modify_world f)"
  by (auto simp: ends_def modify_world_def act_do_def timed_def)

lemma returns_emit: "returns (emit e)"
  by (auto simp: ends_def emit_def act_do_def timed_def)

lemma returns_do: "(\<And>s. st_timeout (f s) = st_timeout s) \<Longrightarrow> returns (act_do f)"
  by (auto simp: ends_def act_do_def timed_def)

lemma ends_timeout: "ends (\<lambda>t. t \<noteq> None) (calc_timeout env)"
  by (auto simp: ends_def timed_def calc_timeout_def Let_def split_beta Remaining_def)

lemma ends_if: "(b \<Longrightarrow> ends Q m) \<Longrightarrow> (\<not> b \<Longrightarrow> ends Q m') \<Longrightarrow> ends Q (if b then m else m')"
  by simp

lemmas ends_intros = ends_bind [where R = "\<lambda>_. True"] ends_if ends_return ends_raise returns_call returns_get returns_world
  returns_emit returns_res

text \<open>What is asked of the clock: it is not set back, and sleeping takes the time it should.\<close>

definition env_clock :: "('w \<Rightarrow> rat) \<Rightarrow> ('w, 'h) env \<Rightarrow> bool" where
  "env_clock clock env \<longleftrightarrow>
     (\<forall>w. clock w \<le> fst (env_time env w) \<and> fst (env_time env w) \<le> clock (snd (env_time env w))) \<and>
     (\<forall>d w. 0 < d \<longrightarrow> clock w + d \<le> clock (env_sleep env d w)) \<and>
     (\<forall>w. clock w \<le> clock (snd (env_HasPendingRequest env w))) \<and>
     (\<forall>n r w. clock w \<le> clock (snd (env_OpportunisticLockUnion env n r w)))"

lemma returns_simple_retry:
  fixes env :: "('w, 'h) env"
  assumes "env_clock clock env" "0 < d" "\<And>s. \<exists>r s'. fn s = Some (r, s') \<and> clock (st_world s) \<le> clock (st_world s') \<and> st_timeout s' = st_timeout s"
  shows "returns (simple_retry env expected fn d timeout)"
  unfolding ends_def
proof (intro allI impI)
  fix s :: "'w state" assume s: "timed s"
  let ?wait = "\<lambda>d s. s\<lparr>st_world := env_sleep env d (st_world s)\<rparr>"
  let ?time = "\<lambda>s. case env_time env (st_world s) of (t, w) \<Rightarrow> (t, s\<lparr>st_world := w\<rparr>)"
  have fn: "clock (st_world s) \<le> clock (st_world (snd (as_caller fn s)))" "timed s \<Longrightarrow> timed (snd (as_caller fn s))"
    "\<exists>x s'. as_caller fn s = (Value x, s') \<or> (\<exists>e. as_caller fn s = (Raises e, s'))" for s
  proof -
    obtain r s' where "fn s = Some (r, s')" "clock (st_world s) \<le> clock (st_world s')" "st_timeout s' = st_timeout s"
      using assms(3) by blast
    then show "clock (st_world s) \<le> clock (st_world (snd (as_caller fn s)))" "timed s \<Longrightarrow> timed (snd (as_caller fn s))"
      "\<exists>x s'. as_caller fn s = (Value x, s') \<or> (\<exists>e. as_caller fn s = (Raises e, s'))"
      by (cases r; auto simp: as_caller_def timed_def)+
  qed
  have c: "clock_ok (\<lambda>s. clock (st_world s)) (as_caller fn) ?time ?wait"
    using assms(1) fn(1) by (auto simp: clock_ok_def env_clock_def split_beta)
  obtain y where "SimpleRetry expected (as_caller fn) (DelayStatic d) timeout ?wait ?time s = Some y"
    using SimpleRetry_returns [OF c assms(2)] by blast
  then obtain out s' where o: "SimpleRetry expected (as_caller fn) (DelayStatic d) timeout ?wait ?time s = Some (out, s')"
    by (cases y) simp
  have "case out of Value r \<Rightarrow> timed s' | _ \<Rightarrow> timed s'"
  proof (rule SimpleRetry_inv [where J = timed and K = "\<lambda>_. timed", OF o s])
    fix s :: "'w state" assume "timed s"
    then show "case as_caller fn s of (Value r, w') \<Rightarrow> timed w' | (Raises e, w') \<Rightarrow> timed w' | (Again _, w') \<Rightarrow> False | (TimedOut _, w') \<Rightarrow> False"
      using fn(2,3) [of s] by auto
  qed (auto simp: timed_def split_beta)
  then have "timed s'" by (cases out) auto
  then show "\<exists>r s'. simple_retry env expected fn d timeout s = Some (r, s') \<and> timed s' \<and> (\<forall>x. r = Inr x \<longrightarrow> True)"
    using o by (cases out) (auto simp: simple_retry_def)
qed

lemma returns_HasPendingRequest: "returns (HasPendingRequest env)"
  unfolding HasPendingRequest_def by (intro ends_intros) auto

lemma HasPending_clock:
  assumes "env_clock clock env"
  shows "\<exists>r s'. HasPending env s = Some (r, s') \<and> clock (st_world s) \<le> clock (st_world s') \<and> st_timeout s' = st_timeout s"
proof -
  obtain r w where "env_HasPendingRequest env (st_world s) = (r, w)" by (cases "env_HasPendingRequest env (st_world s)")
  moreover have "clock (st_world s) \<le> clock (snd (env_HasPendingRequest env (st_world s)))"
    using assms unfolding env_clock_def by blast
  ultimately show ?thesis
    by (cases r) (auto simp: HasPending_def HasPendingRequest_def act_bind_def act_get_def act_return_def call_def emit_def act_do_def)
qed

lemma opportunistic_clock:
  assumes "env_clock clock env"
  shows "\<exists>r s'. act_bind (emit e) (\<lambda>_. call (env_OpportunisticLockUnion env n req)) s = Some (r, s') \<and>
    clock (st_world s) \<le> clock (st_world s') \<and> st_timeout s' = st_timeout s"
proof -
  obtain r w where "env_OpportunisticLockUnion env n req (st_world s) = (r, w)"
    by (cases "env_OpportunisticLockUnion env n req (st_world s)")
  moreover have "clock (st_world s) \<le> clock (snd (env_OpportunisticLockUnion env n req (st_world s)))"
    using assms unfolding env_clock_def by blast
  ultimately show ?thesis by (auto simp: act_bind_def call_def emit_def act_do_def)
qed

lemma returns_priority: "returns (current_priority env)"
  unfolding current_priority_def by (intro ends_intros) auto

lemma returns_RequestAndWait:
  assumes "env_clock clock env" "timeout \<noteq> None"
  shows "returns (RequestAndWait env p timeout)"
proof -
  have r: "returns (case timeout of None \<Rightarrow> act_raise TypeError
      | Some t \<Rightarrow> simple_retry env (ExpectValue False) (HasPending env) (5 / 100) t)"
    using assms(2) by (auto intro!: returns_simple_retry [OF assms(1)] HasPending_clock [OF assms(1)] split: option.splits)
  show ?thesis
    unfolding RequestAndWait_def UpdateLocksWaiting_def
    by (intro ends_intros returns_priority returns_HasPendingRequest r) auto
qed

lemma returns_AcquireLocks:
  assumes "env_clock clock env" "timeout \<noteq> None"
  shows "returns (AcquireLocks env en level names shared opp timeout count only)"
proof -
  obtain t where t: "timeout = Some t" using assms(2) by auto
  have e: "returns (expand_names env level opp names)"
    by (auto simp: expand_names_def intro!: ends_intros split: names.splits)
  have en: "returns (CheckLocksEnabled en)" by (auto simp: CheckLocksEnabled_def intro!: ends_intros)
  have opp: "returns (simple_retry env (ExpectFn (\<lambda>l. l \<noteq> []))
      (act_bind (emit (EvOpportunistic req)) (\<lambda>_. call (env_OpportunisticLockUnion env count req))) 2 t)" for req
    by (rule returns_simple_retry [OF assms(1) _ opportunistic_clock [OF assms(1)]]) simp
  show ?thesis
    unfolding AcquireLocks_def Let_def t option.case
    by (intro ends_intros e en opp returns_priority returns_RequestAndWait [OF assms(1)]) auto
qed

lemma returns_ListLocks: "returns (ListLocks env)"
  unfolding ListLocks_def by (rule returns_call)

lemma returns_lu_of: "returns (lu_of env)"
  unfolding lu_of_def by (rule ends_bind [OF returns_get]) (auto intro: ends_intros split: option.splits)

lemma returns_flush: "env_clock clock env \<Longrightarrow> returns (flush env pending)"
  unfolding flush_def
  by (intro ends_if ends_return ends_bind [OF ends_timeout] ends_bind [OF returns_RequestAndWait] ends_bind [OF returns_world]
        returns_ListLocks) auto

lemma returns_acquire_level:
  assumes "env_clock clock env" shows "returns (acquire_level env en level acq add opp share count pending)"
  unfolding acquire_level_def
  by (intro ends_bind [OF returns_lu_of] ends_bind [OF returns_res] ends_bind [OF ends_timeout] ends_if
        ends_bind [OF returns_AcquireLocks [OF assms]] ends_bind [OF returns_flush [OF assms]]
        ends_bind [OF returns_ListLocks] ends_return) auto

lemma returns_ProcessResult: "(\<And>jobs. returns (submit jobs)) \<Longrightarrow> returns (ProcessResult submit op r)"
  by (cases r) (auto simp: ProcessResult_def intro!: ends_intros)

lemma returns_Log: "returns (LogInfo env m)"
  unfolding LogInfo_def Log_def by (intro ends_intros) auto

lemma returns_ExecLU: "returns (ExecLU env op)"
proof -
  have submit: "returns ((if cbs then (\<lambda>jobs. call (env_SubmitManyJobs env jobs)) else FailingSubmitManyJobs) jobs)" for cbs jobs
    by (auto simp: FailingSubmitManyJobs_def intro: ends_intros)
  show ?thesis
    unfolding ExecLU_def
    by (intro ends_intros ends_finally returns_ProcessResult [OF submit] returns_Log ends_bind [OF returns_do]) auto
qed

lemma returns_run_lu: "returns (run_lu env op)"
proof -
  have "returns (prepare_retry env cbs)" for cbs
    unfolding prepare_retry_def by (intro ends_intros) auto
  then have "returns (act_bind (act_catch (prepare_retry env cbs)
      (\<lambda>e. if e = OpRetryNotSupportedError then act_raise err else act_raise e))
      (\<lambda>_. act_raise LockAcquireTimeout))" for cbs err
    by (intro ends_intros ends_catch)
  then have "returns (lu_failed env cbs err)" for cbs err
    unfolding lu_failed_def by (cases err) (simp_all only: exn.case ends_raise)
  then show ?thesis unfolding run_lu_def by (intro ends_intros ends_catch returns_ExecLU) auto
qed

lemma returns_free: "returns (FreeLocksLevel env l)"
  unfolding FreeLocksLevel_def by (intro ends_intros)

lemma returns_LockAndExecLU:
  assumes "env_clock clock env"
  shows "level + n = 6 \<Longrightarrow> returns (LockAndExecLU env en op level pending)"
proof (induction n arbitrary: level pending)
  case 0
  then show ?case
    by (subst LockAndExecLU.simps) (auto simp: LEVELS_iff intro!: ends_bind [OF returns_flush [OF assms]] returns_run_lu)
next
  case (Suc n)
  have ih: "returns (LockAndExecLU env en op (level + 1) p)" for p using Suc by simp
  have en: "returns (CheckLocksEnabled en)" by (auto simp: CheckLocksEnabled_def intro!: ends_intros)
  have collate: "returns (if b then act_bind (flush env p) (\<lambda>_. act_return []) else act_return p)" for b p
    by (intro ends_if ends_bind [OF returns_flush [OF assms]] ends_return) auto
  show ?case
    by (subst LockAndExecLU.simps) (use Suc.prems in \<open>auto simp: LEVELS_iff Let_def simp del: add_Suc_right
      intro!: ends_bind [OF returns_lu_of] ends_bind [OF collate] ends_if ends_raise ends_bind [OF en]
        ends_bind [OF returns_call] ends_finally ends_bind [OF returns_acquire_level [OF assms]] returns_free ih\<close>)
qed

lemma ExecOpCode_returns:
  assumes "env_clock clock env"
  shows "\<exists>r s'. ExecOpCode env en ec_id op cbs (Some t) s = Some (r, s')"
proof -
  have en: "returns (CheckSecretParameters op)" "returns (lu_needed_set env)" "returns (CheckLUResult op r)" for r
    by (auto simp: CheckSecretParameters_def lu_needed_set_def CheckLUResult_def intro!: ends_intros split: option.splits)
  show ?thesis
  proof (cases "oc_req_bgl op = None \<or> t < 0")
    case True
    then show ?thesis
      by (auto simp: ExecOpCode_def act_raise_def act_bind_def act_res_def RunningTimeout_def split: option.splits)
  next
    case False
    then obtain b where b: "oc_req_bgl op = Some b" by auto
    define rt where "rt = \<lparr>rt_timeout = Some t, rt_allow_negative = False, rt_start_time = None\<rparr>"
    define rest where "rest = act_bind
            (act_finally
               (act_bind
                  (if en then
                     act_bind (calc_timeout env) (\<lambda>t.
                     act_bind (AcquireLocks env en LEVEL_CLUSTER (OneName BGL) (\<not> b) False t 1 False)
                       (\<lambda>_. act_return ()))
                   else if b then act_raise (ProgrammerError ''Opcode requires BGL, but locks are disabled'')
                   else act_return ()) (\<lambda>_.
                act_bind (call (env_lu_init env)) (\<lambda>_.
                act_bind (ListLocks env) (\<lambda>_.
                act_bind (CheckSecretParameters op) (\<lambda>_.
                act_bind (call (env_ExpandNames env)) (\<lambda>_.
                act_bind (lu_needed_set env) (\<lambda>_.
                act_finally
                  (LockAndExecLU env en op (LEVEL_CLUSTER + 1) [])
                  (if ec_id \<noteq> [] then call (env_DropECReservations env) else act_return ()))))))))
               (act_bind (FreeLocksLevel env (LEVEL_NAMES LEVEL_CLUSTER)) (\<lambda>_.
                  act_do (\<lambda>s. s\<lparr>st_cbs := False\<rparr>)))) (\<lambda>result.
          act_bind (CheckLUResult op result) (\<lambda>_. act_return result))"
    have l: "returns (LockAndExecLU env en op (0 + 1) [])" using returns_LockAndExecLU [OF assms, of 1 5] by simp
    have "returns rest"
      unfolding rest_def LEVEL_CLUSTER_def
      by (intro ends_bind [OF ends_finally [where Q = "\<lambda>_. True"]] ends_bind [OF ends_if] ends_bind [OF ends_timeout] ends_bind [OF returns_AcquireLocks [OF assms]]
            ends_bind [OF returns_call] ends_bind [OF returns_ListLocks] ends_bind [OF en(1)] ends_bind [OF en(2)]
            ends_bind [OF en(3)] ends_finally [OF l] ends_if returns_call ends_return ends_raise
            ends_bind [OF returns_free] returns_do) auto
    then have "\<exists>r s'. rest (s\<lparr>st_timeout := Some rt, st_cbs := cbs\<rparr>) = Some (r, s')"
      using endsD [of _ rest] by (force simp: timed_def rt_def)
    moreover have "ExecOpCode env en ec_id op cbs (Some t) s = rest (s\<lparr>st_timeout := Some rt, st_cbs := cbs\<rparr>)"
      using False b by (simp add: ExecOpCode_def rest_def act_bind_def [of "act_res _"] act_bind_def [of "act_do _"]
        act_res_def act_do_def RunningTimeout_def rt_def)
    ultimately show ?thesis by simp
  qed
qed

section \<open>Properties\<close>

text \<open>An environment in which every request is granted at once, for the examples: its state is
  the clock.\<close>

definition demo_lu :: lu where
  "demo_lu = \<lparr>lu_needed_locks = (\<lambda>l. if l = LEVEL_NODE then Some (NameList [''n2'', ''n1'']) else None),
     lu_add_locks = (\<lambda>_. None), lu_share_locks = (\<lambda>_. False), lu_opportunistic_locks = (\<lambda>_. False),
     lu_opportunistic_locks_count = (\<lambda>_. 1), lu_dont_collate_locks = (\<lambda>_. False)\<rparr>"

definition demo_env :: "(rat, unit) env" where
  "demo_env = \<lparr>env_CurrentPriority = st_return None, env_NotifyStart = st_return (), env_NotifyRetry = st_return (),
     env_Feedback = (\<lambda>_. st_return ()), env_SubmitManyJobs = (\<lambda>_. st_return JNull),
     env_UpdateLocksWaiting = (\<lambda>_ _. st_return ()), env_HasPendingRequest = st_return False,
     env_OpportunisticLockUnion = (\<lambda>_ _. st_return []), env_FreeLocksLevel = (\<lambda>_. st_return ()),
     env_ListLocks = st_return (), env_OutDate = (\<lambda>w. w), env_expand = (\<lambda>_. st_return []),
     env_write_count = (\<lambda>_. 0), env_DropECReservations = st_return (), env_lu_init = st_return (),
     env_ExpandNames = st_return (), env_lu = (\<lambda>_. Some demo_lu), env_DeclareLocks = (\<lambda>_. st_return ()),
     env_CheckPrereq = st_return (), env_Exec = st_return (PlainResult JNull), env_dry_run_result = (\<lambda>_. JNull),
     env_PrepareRetry = st_return (), env_RunPhase = (\<lambda>_. st_return ()), env_HooksCallBack = (\<lambda>_ _ r. st_return r),
     env_RunConfigUpdate = st_return (), env_sighup = (\<lambda>_. False), env_clear_sighup = (\<lambda>w. w),
     env_time = (\<lambda>w. (w, w)), env_sleep = (\<lambda>d w. w + d), env_random = (\<lambda>w. (0, w))\<rparr>"

definition demo_op :: opcode where
  "demo_op = \<lparr>oc_params = \<lparr>op_debug_level = None, op_priority = None, op_comment = None, op_reason = None\<rparr>,
     oc_id = ''OP_TEST'', oc_dry_run = False, oc_secrets = None, oc_result_ok = (\<lambda>_. True), oc_req_bgl = Some False\<rparr>"

definition demo_state :: "rat state" where
  "demo_state = \<lparr>st_world = 0, st_trace = [], st_cbs = False, st_timeout = None, st_executing = 0\<rparr>"

definition demo_trace :: "event list" where
  "demo_trace = [EvRequest [(''cluster/BGL'', ''shared'')], EvPending False,
     EvRequest [(''node/n1'', ''exclusive''), (''node/n2'', ''exclusive'')], EvPending False,
     EvStart, EvExec, EvFree ''node'', EvFree ''cluster'']"

lemma demo_clock: "env_clock (\<lambda>w. w) demo_env"
  by (simp add: env_clock_def demo_env_def st_return_def)

lemma demo_run: "\<exists>s'. ExecOpCode demo_env True ''job-1'' demo_op True (Some 10) demo_state = Some (Inr JNull, s') \<and> st_trace s' = demo_trace"
proof -
  have "map_option (\<lambda>(r, s'). (r, st_trace s')) (ExecOpCode demo_env True ''job-1'' demo_op True (Some 10) demo_state)
      = Some (Inr JNull, demo_trace)"
    by code_simp
  then show ?thesis by auto
qed

text \<open>C4: locks are requested in the lock order. Whatever locks the logical unit declares, while
  names are expanded or at any level, and however the execution ends: the locks that an execution of an opcode waits for
  are requested in ascending order of their levels and, within a level, of their names.\<close>

theorem mcpu_lock_order:
  assumes "ExecOpCode env enable_locks ec_id op cbs timeout s = Some (r, s')" "st_trace s = []"
  shows "sorted_wrt lock_le (requested (st_trace s'))"
  using ExecOpCode_final [OF assms] by (simp add: final_def)

theorem mcpu_lock_order_witness:
  "sorted_wrt lock_le (requested demo_trace) \<and> requested demo_trace = [''cluster/BGL'', ''node/n1'', ''node/n2'']"
proof -
  obtain s' where "ExecOpCode demo_env True ''job-1'' demo_op True (Some 10) demo_state = Some (Inr JNull, s')" "st_trace s' = demo_trace"
    using demo_run by blast
  then show ?thesis
    using mcpu_lock_order [of demo_env True "''job-1''" demo_op True "Some 10" demo_state "Inr JNull" s']
    by (simp add: demo_state_def) (simp add: demo_trace_def)
qed

text \<open>C5: an execution leaves no level behind at which it asked for locks: whether it returns or
  raises, at whatever point, each such level has been freed after the last request for it.\<close>

theorem mcpu_locks_freed:
  assumes "ExecOpCode env enable_locks ec_id op cbs timeout s = Some (r, s')" "st_trace s = []"
  shows "open_levels (st_trace s') = {}"
  using ExecOpCode_final [OF assms] by (simp add: final_def)

theorem mcpu_locks_freed_witness:
  "open_levels demo_trace = {} \<and> open_levels (take 3 demo_trace) = {''node'', ''cluster''}"
proof -
  obtain s' where "ExecOpCode demo_env True ''job-1'' demo_op True (Some 10) demo_state = Some (Inr JNull, s')" "st_trace s' = demo_trace"
    using demo_run by blast
  then show ?thesis
    using mcpu_locks_freed [of demo_env True "''job-1''" demo_op True "Some 10" demo_state "Inr JNull" s']
    by (simp add: demo_state_def) (simp add: demo_trace_def open_levels_def request_levels_def lock_level_def)
qed

text \<open>C6: the logical unit is started at most once, only after the configuration daemon has said that no request
  is pending any more, and no lock is requested after the start; the unit's own work is
  done only after the start.\<close>

theorem mcpu_start_confirmed:
  assumes "ExecOpCode env enable_locks ec_id op cbs timeout s = Some (r, s')" "st_trace s = []"
  shows "start_ok (st_trace s')"
  using ExecOpCode_final [OF assms] by (simp add: final_def)

theorem mcpu_start_confirmed_witness:
  "\<not> unconfirmed (take 4 demo_trace) \<and> start_ok demo_trace"
proof -
  obtain s' where "ExecOpCode demo_env True ''job-1'' demo_op True (Some 10) demo_state = Some (Inr JNull, s')" "st_trace s' = demo_trace"
    using demo_run by blast
  then show ?thesis
    using mcpu_start_confirmed [of demo_env True "''job-1''" demo_op True "Some 10" demo_state "Inr JNull" s']
    by (simp add: demo_state_def) (simp add: demo_trace_def unconfirmed_def)
qed

text \<open>C7: with a timeout for the locks an execution always ends, whatever the locks, if the clock
  is not set back and sleeping takes at least the time that is asked for; only without a timeout can it wait for ever.\<close>

theorem mcpu_returns:
  assumes "env_clock clock env"
  shows "\<exists>r s'. ExecOpCode env enable_locks ec_id op cbs (Some t) s = Some (r, s')"
  using ExecOpCode_returns [OF assms] .

theorem mcpu_returns_witness:
  "\<exists>r s'. ExecOpCode demo_env True ''job-1'' demo_op True (Some 10) demo_state = Some (r, s')"
  using mcpu_returns [OF demo_clock] .

end
