(* ===== verification/Ht.thy ===== *)
theory Ht
  imports Complex_Main Ip_Address
begin

text \<open>
  The parameter types of \<^verbatim>\<open>lib/ht.py\<close>: predicates on Python values from which the checks of
  opcode parameters and results are built. A check may raise: \<^verbatim>\<open>len\<close> of a number, a
  comparison of a string with a number and membership of a list in a set are errors of the
  language, and \<^verbatim>\<open>all\<close> and \<^verbatim>\<open>any\<close> stop at the first check that decides. The descriptions
  that the checks carry for the documentation, and \<^verbatim>\<open>TSetOf\<close>, whose outcome depends on the
  order in which the interpreter iterates over a set, are not modelled. Lemmas: which values each
  combinator accepts, on every value; when the checks of network addresses and of disk lists
  raise instead of rejecting a value.
\<close>

section \<open>Python values\<close>

text \<open>
  A float is the rational number it stands for. The items of a dictionary are in insertion
  order. An object of another class is its class and an identity; \<open>PPrivate\<close> is
  \<^verbatim>\<open>serializer.Private\<close>.
\<close>

datatype pyval =
    PNone
  | PBool bool
  | PInt int
  | PFloat rat
  | PStr string
  | PList "pyval list"
  | PTuple "pyval list"
  | PDict "(pyval \<times> pyval) list"
  | PPrivate pyval
  | PObject string nat

text \<open>The value of a number; booleans are integers.\<close>

fun py_num :: "pyval \<Rightarrow> rat option" where
  "py_num (PBool b) = Some (if b then 1 else 0)"
| "py_num (PInt i) = Some (of_int i)"
| "py_num (PFloat r) = Some r"
| "py_num _ = None"

fun unprivate :: "pyval \<Rightarrow> pyval" where
  "unprivate (PPrivate v) = unprivate v"
| "unprivate v = v"

text \<open>
  Equality: numbers are equal by value, sequences element by element, and dictionaries if
  they have equal entries in whatever order; a private value is equal to what it holds.
\<close>

function py_eq :: "pyval \<Rightarrow> pyval \<Rightarrow> bool" where
  "py_eq (PPrivate u) y = py_eq u y"
| "py_eq (PList xs) y =
     (case unprivate y of
        PList ys \<Rightarrow> length xs = length ys \<and> list_all (\<lambda>(u, v). py_eq u v) (zip xs ys)
      | _ \<Rightarrow> False)"
| "py_eq (PTuple xs) y =
     (case unprivate y of
        PTuple ys \<Rightarrow> length xs = length ys \<and> list_all (\<lambda>(u, v). py_eq u v) (zip xs ys)
      | _ \<Rightarrow> False)"
| "py_eq (PDict d) y =
     (case unprivate y of
        PDict e \<Rightarrow> length d = length e \<and> list_all (\<lambda>(k, v). list_ex (\<lambda>(k', v'). py_eq k k' \<and> py_eq v v') e) d
      | _ \<Rightarrow> False)"
| "py_eq PNone y = (unprivate y = PNone)"
| "py_eq (PBool b) y = (py_num (unprivate y) = py_num (PBool b))"
| "py_eq (PInt i) y = (py_num (unprivate y) = py_num (PInt i))"
| "py_eq (PFloat r) y = (py_num (unprivate y) = py_num (PFloat r))"
| "py_eq (PStr s) y = (unprivate y = PStr s)"
| "py_eq (PObject c n) y = (unprivate y = PObject c n)"
  by pat_completeness auto

termination
  by (relation "measure (\<lambda>(x, y). size x)") (auto simp: size_list_estimation' less_Suc_eq_le dest!: set_zip_leftD
      intro: size_list_estimation')

lemma py_eq_text: "py_eq v (PStr s) \<longleftrightarrow> unprivate v = PStr s"
  by (induction v rule: unprivate.induct) auto

fun py_truth :: "pyval \<Rightarrow> bool" where
  "py_truth PNone = False"
| "py_truth (PBool b) = b"
| "py_truth (PInt i) = (i \<noteq> 0)"
| "py_truth (PFloat r) = (r \<noteq> 0)"
| "py_truth (PStr s) = (s \<noteq> [])"
| "py_truth (PList xs) = (xs \<noteq> [])"
| "py_truth (PTuple xs) = (xs \<noteq> [])"
| "py_truth (PDict kvs) = (kvs \<noteq> [])"
| "py_truth (PPrivate v) = py_truth v"
| "py_truth (PObject c n) = True"

text \<open>Iterating over a value gives the characters, the elements or the keys.\<close>

fun py_iter :: "pyval \<Rightarrow> pyval list res" where
  "py_iter (PStr s) = Inr (map (\<lambda>c. PStr [c]) s)"
| "py_iter (PList xs) = Inr xs"
| "py_iter (PTuple xs) = Inr xs"
| "py_iter (PDict kvs) = Inr (map fst kvs)"
| "py_iter _ = Inl TypeError"

definition py_len :: "pyval \<Rightarrow> nat res" where
  "py_len v = (case py_iter v of Inl e \<Rightarrow> Inl e | Inr xs \<Rightarrow> Inr (length xs))"

fun py_hashable :: "pyval \<Rightarrow> bool" where
  "py_hashable (PList xs) = False"
| "py_hashable (PDict kvs) = False"
| "py_hashable (PTuple xs) = list_all py_hashable xs"
| "py_hashable (PPrivate v) = py_hashable v"
| "py_hashable _ = True"

text \<open>Comparison of a value with a number.\<close>

definition py_cmp :: "(rat \<Rightarrow> rat \<Rightarrow> bool) \<Rightarrow> pyval \<Rightarrow> rat \<Rightarrow> bool res" where
  "py_cmp cmp v n = (case py_num v of None \<Rightarrow> Inl TypeError | Some r \<Rightarrow> Inr (cmp r n))"

text \<open>Membership: the elements of a set must be hashable, and so must the value.\<close>

datatype target = TargetList "pyval list" | TargetSet "pyval list"

fun py_in :: "pyval \<Rightarrow> target \<Rightarrow> bool res" where
  "py_in v (TargetList ts) = Inr (list_ex (py_eq v) ts)"
| "py_in v (TargetSet ts) = (if py_hashable v then Inr (list_ex (py_eq v) ts) else Inl TypeError)"

text \<open>\<^verbatim>\<open>all\<close> and \<^verbatim>\<open>any\<close> over a generator.\<close>

fun all_res :: "bool res list \<Rightarrow> bool res" where
  "all_res [] = Inr True"
| "all_res (r # rs) = res_bind r (\<lambda>b. if b then all_res rs else Inr False)"

fun any_res :: "bool res list \<Rightarrow> bool res" where
  "any_res [] = Inr False"
| "any_res (r # rs) = res_bind r (\<lambda>b. if b then Inr True else any_res rs)"

type_synonym check_fn = "pyval \<Rightarrow> bool res"

section \<open>Basic types\<close>

definition TAny :: check_fn where
  "TAny v = Inr True"

definition TNotNone :: check_fn where
  "TNotNone v = Inr (v \<noteq> PNone)"

definition TNone :: check_fn where
  "TNone v = Inr (v = PNone)"

definition VALUE_NONE :: string where
  "VALUE_NONE = ''none''"

definition TValueNone :: check_fn where
  "TValueNone v = Inr (py_eq v (PStr VALUE_NONE))"

definition TBool :: check_fn where
  "TBool v = Inr (case v of PBool _ \<Rightarrow> True | _ \<Rightarrow> False)"

definition TInt :: check_fn where
  "TInt v = Inr (case v of PInt _ \<Rightarrow> True | _ \<Rightarrow> False)"

definition TFloat :: check_fn where
  "TFloat v = Inr (case v of PFloat _ \<Rightarrow> True | _ \<Rightarrow> False)"

definition TString :: check_fn where
  "TString v = Inr (case v of PStr _ \<Rightarrow> True | _ \<Rightarrow> False)"

definition TTrue :: check_fn where
  "TTrue v = Inr (py_truth v)"

definition TElemOf :: "target \<Rightarrow> check_fn" where
  "TElemOf target_list v = py_in v target_list"

definition TList :: check_fn where
  "TList v = Inr (case v of PList _ \<Rightarrow> True | _ \<Rightarrow> False)"

definition TTuple :: check_fn where
  "TTuple v = Inr (case v of PTuple _ \<Rightarrow> True | _ \<Rightarrow> False)"

definition TDict :: check_fn where
  "TDict v = Inr (case v of PDict _ \<Rightarrow> True | _ \<Rightarrow> False)"

definition TIsLength :: "nat \<Rightarrow> check_fn" where
  "TIsLength sz v = res_bind (py_len v) (\<lambda>n. Inr (n = sz))"

section \<open>Combinators\<close>

definition TAnd :: "check_fn list \<Rightarrow> check_fn" where
  "TAnd args v = all_res (map (\<lambda>t. t v) args)"

definition TOr :: "check_fn list \<Rightarrow> check_fn" where
  "TOr args v = any_res (map (\<lambda>t. t v) args)"

definition TMap :: "(pyval \<Rightarrow> pyval res) \<Rightarrow> check_fn \<Rightarrow> check_fn" where
  "TMap fn test v = res_bind (fn v) test"

text \<open>The compiled expression is given by the strings it matches.\<close>

definition TRegex :: "(string \<Rightarrow> bool) \<Rightarrow> check_fn" where
  "TRegex pobj = TAnd [TString, \<lambda>v. case v of PStr s \<Rightarrow> Inr (pobj s) | _ \<Rightarrow> Inl TypeError]"

definition TMaybe :: "check_fn \<Rightarrow> check_fn" where
  "TMaybe test = TOr [TNone, test]"

definition TMaybeValueNone :: "check_fn \<Rightarrow> check_fn" where
  "TMaybeValueNone test = TMaybe (TOr [TValueNone, test])"

definition TNonEmptyString :: check_fn where
  "TNonEmptyString = TAnd [TString, TTrue]"

definition TMaybeString :: check_fn where
  "TMaybeString = TMaybe TNonEmptyString"

definition TMaybeBool :: check_fn where
  "TMaybeBool = TMaybe TBool"

definition TMaybeDict :: check_fn where
  "TMaybeDict = TMaybe TDict"

definition TMaybeList :: check_fn where
  "TMaybeList = TMaybe TList"

definition TNonNegative :: "check_fn \<Rightarrow> check_fn" where
  "TNonNegative val_type = TAnd [val_type, \<lambda>v. py_cmp (\<ge>) v 0]"

definition TPositive :: "check_fn \<Rightarrow> check_fn" where
  "TPositive val_type = TAnd [val_type, \<lambda>v. py_cmp (>) v 0]"

definition TNonNegativeInt :: check_fn where
  "TNonNegativeInt = TNonNegative TInt"

definition TPositiveInt :: check_fn where
  "TPositiveInt = TPositive TInt"

definition TMaybePositiveInt :: check_fn where
  "TMaybePositiveInt = TMaybe TPositiveInt"

definition TNegativeInt :: check_fn where
  "TNegativeInt = TAnd [TInt, \<lambda>v. py_cmp (<) v 0]"

definition TNonNegativeFloat :: check_fn where
  "TNonNegativeFloat = TAnd [TFloat, \<lambda>v. py_cmp (\<ge>) v 0]"

text \<open>\<^verbatim>\<open>^\d+$\<close>: the end of the expression also matches before a final line feed.\<close>

definition job_id_re :: "string \<Rightarrow> bool" where
  "job_id_re s =
     (let ds = (if s \<noteq> [] \<and> last s = CHR 0x0A then butlast s else s)
      in ds \<noteq> [] \<and> list_all is_digit_char ds)"

definition TJobId :: check_fn where
  "TJobId = TOr [TNonNegativeInt, TRegex job_id_re]"

definition TNumber :: check_fn where
  "TNumber = TOr [TInt, TFloat]"

definition TRelativeJobId :: check_fn where
  "TRelativeJobId = TNegativeInt"

text \<open>\<open>isinst\<close> is the language's class test for the given class.\<close>

definition TInstanceOf :: "(pyval \<Rightarrow> bool) \<Rightarrow> check_fn" where
  "TInstanceOf isinst v = Inr (isinst v)"

definition TPrivate :: "check_fn \<Rightarrow> check_fn" where
  "TPrivate val_type v = (case v of PPrivate u \<Rightarrow> val_type u | _ \<Rightarrow> Inr False)"

definition TSecret :: "check_fn \<Rightarrow> check_fn" where
  "TSecret val_type v = (case v of PPrivate u \<Rightarrow> val_type u | _ \<Rightarrow> Inr False)"

section \<open>Containers\<close>

definition TListOf :: "check_fn \<Rightarrow> check_fn" where
  "TListOf my_type = TAnd [TList, \<lambda>lst. res_bind (py_iter lst) (\<lambda>vs. all_res (map my_type vs))]"

definition TMaybeListOf :: "check_fn \<Rightarrow> check_fn" where
  "TMaybeListOf item_type = TMaybe (TListOf item_type)"

text \<open>\<^verbatim>\<open>zip\<close> stops with the shorter sequence.\<close>

definition TItems :: "check_fn list \<Rightarrow> check_fn" where
  "TItems items v = res_bind (py_iter v) (\<lambda>vs. all_res (map2 (\<lambda>t i. t i) items vs))"

definition TTupleOf :: "check_fn list \<Rightarrow> check_fn" where
  "TTupleOf val_types = TAnd [TOr [TTuple, TList], TIsLength (length val_types), TItems val_types]"

definition TDictOf :: "check_fn \<Rightarrow> check_fn \<Rightarrow> check_fn" where
  "TDictOf key_type val_type =
     TAnd [TDict, \<lambda>v.
       (case v of
          PDict kvs \<Rightarrow>
            res_bind (all_res (map (\<lambda>(k, _). key_type k) kvs)) (\<lambda>b.
              if b then all_res (map (\<lambda>(_, u). val_type u) kvs) else Inr False)
        | _ \<Rightarrow> Inl AttributeError)]"

type_synonym field_types = "(string \<times> check_fn) list"

text \<open>\<^verbatim>\<open>items.get(key)\<close>, with the keys compared as Python does.\<close>

fun field_of :: "(string \<times> 'a) list \<Rightarrow> pyval \<Rightarrow> 'a option" where
  "field_of [] key = None"
| "field_of ((k, t) # items) key = (if py_eq key (PStr k) then Some t else field_of items key)"

definition TStrictDictCheck :: "bool \<Rightarrow> bool \<Rightarrow> field_types \<Rightarrow> check_fn" where
  "TStrictDictCheck require_all exclusive items v =
     (case v of
        PDict kvs \<Rightarrow>
          if require_all \<and> \<not> list_all (\<lambda>(k, _). list_ex (\<lambda>(key, _). py_eq key (PStr k)) kvs) items
          then Inr False
          else all_res (map (\<lambda>(key, u). case field_of items key of Some t \<Rightarrow> t u | None \<Rightarrow> Inr (\<not> exclusive)) kvs)
      | _ \<Rightarrow> Inl AttributeError)"

definition TStrictDict :: "bool \<Rightarrow> bool \<Rightarrow> field_types \<Rightarrow> check_fn" where
  "TStrictDict require_all exclusive items = TAnd [TDict, TStrictDictCheck require_all exclusive items]"

section \<open>Types of parameters and results\<close>

text \<open>Constants that are sets in the generated module, by their values.\<close>

definition frozen :: "string list \<Rightarrow> target" where
  "frozen ss = TargetSet (map PStr ss)"

definition DDMS_VALUES :: target where
  "DDMS_VALUES = frozen [''add'', ''attach'', ''remove'', ''detach'']"

definition DDMS_VALUES_WITH_MODIFY :: target where
  "DDMS_VALUES_WITH_MODIFY = frozen [''add'', ''attach'', ''remove'', ''detach'', ''modify'']"

definition INIC_PARAMS :: target where
  "INIC_PARAMS = frozen [''bridge'', ''ip'', ''link'', ''mac'', ''mode'', ''name'', ''network'', ''vlan'']"

definition QFT_ALL :: target where
  "QFT_ALL = frozen [''bool'', ''number'', ''float'', ''other'', ''text'', ''timestamp'', ''unit'', ''unknown'']"

definition RS_ALL :: target where
  "RS_ALL = TargetSet (map PInt [2, 0, 4, 3, 1])"

definition JOBS_FINALIZED_values :: target where
  "JOBS_FINALIZED_values = frozen [''canceled'', ''success'', ''error'']"

definition TMaxValue :: "int \<Rightarrow> check_fn" where
  "TMaxValue mx v = py_cmp (<) v (of_int mx)"

definition TExportTarget :: check_fn where
  "TExportTarget = TOr [TNonEmptyString, TList]"

definition MAX_DISKS :: int where
  "MAX_DISKS = 16"

definition TDiskIndex :: check_fn where
  "TDiskIndex = TAnd [TNonNegativeInt, TMaxValue MAX_DISKS]"

definition TSetParamsMods :: "check_fn \<Rightarrow> check_fn" where
  "TSetParamsMods fn =
     (let old_mod_item_fn = TAnd [TIsLength 2, TItems [TOr [TElemOf DDMS_VALUES, TNonNegativeInt], fn]];
          mod_item_fn = TAnd [TIsLength 3, TItems [TElemOf DDMS_VALUES_WITH_MODIFY, TOr [TInt, TString], fn]]
      in TOr [TListOf mod_item_fn, TListOf old_mod_item_fn])"

definition TINicParams :: check_fn where
  "TINicParams = TDictOf (TElemOf INIC_PARAMS) (TMaybe TString)"

definition TIDiskParams :: check_fn where
  "TIDiskParams = TDictOf TNonEmptyString (TOr [TNonEmptyString, TInt])"

definition TDiskParams :: check_fn where
  "TDiskParams = TDictOf TNonEmptyString (TOr [TNonEmptyString, TInt])"

definition TDiskChanges :: check_fn where
  "TDiskChanges = TAnd [TIsLength 2, TItems [TNonNegativeInt, TDiskParams]]"

definition TRecreateDisksInfo :: check_fn where
  "TRecreateDisksInfo = TOr [TListOf TNonNegativeInt, TListOf TDiskChanges]"

text \<open>Only \<^verbatim>\<open>AddressValueError\<close> is caught.\<close>

definition catch_address_error :: "(string \<Rightarrow> 'a res) \<Rightarrow> check_fn" where
  "catch_address_error parse v =
     (case v of
        PStr s \<Rightarrow>
          (case parse s of
             Inr _ \<Rightarrow> Inr True
           | Inl e \<Rightarrow> if e = AddressValueError then Inr False else Inl e)
      | _ \<Rightarrow> Inl TypeError)"

definition CheckCIDRNetNotation :: check_fn where
  "CheckCIDRNetNotation = catch_address_error IPv4Network"

definition CheckCIDRAddrNotation :: check_fn where
  "CheckCIDRAddrNotation = catch_address_error IPv4Address"

definition CheckCIDR6AddrNotation :: check_fn where
  "CheckCIDR6AddrNotation = catch_address_error IPv6Address"

definition CheckCIDR6NetNotation :: check_fn where
  "CheckCIDR6NetNotation = catch_address_error IPv6Network"

definition TIPv4Address :: check_fn where
  "TIPv4Address = TAnd [TString, CheckCIDRAddrNotation]"

definition TIPv6Address :: check_fn where
  "TIPv6Address = TAnd [TString, CheckCIDR6AddrNotation]"

definition TIPv4Network :: check_fn where
  "TIPv4Network = TAnd [TString, CheckCIDRNetNotation]"

definition TIPv6Network :: check_fn where
  "TIPv6Network = TAnd [TString, CheckCIDR6NetNotation]"

definition TObject :: "check_fn \<Rightarrow> check_fn" where
  "TObject val_type = TDictOf TAny val_type"

text \<open>The assertion is on the slots of the class, when the check is built.\<close>

definition TObjectCheck :: "string list \<Rightarrow> field_types \<Rightarrow> check_fn res" where
  "TObjectCheck slots fields_types =
     res_bind (check (set slots = fst ` set fields_types) AssertionError) (\<lambda>_.
     Inr (TStrictDict True True fields_types))"

definition TQueryFieldDef :: check_fn where
  "TQueryFieldDef =
     projr (TObjectCheck [''name'', ''title'', ''kind'', ''doc'']
       [(''name'', TNonEmptyString), (''title'', TNonEmptyString), (''kind'', TElemOf QFT_ALL),
        (''doc'', TNonEmptyString)])"

definition TQueryRow :: check_fn where
  "TQueryRow = TListOf (TAnd [TIsLength 2, TItems [TElemOf RS_ALL, TAny]])"

definition TQueryResult :: check_fn where
  "TQueryResult = TListOf TQueryRow"

definition TQueryResponse :: check_fn where
  "TQueryResponse =
     projr (TObjectCheck [''data'', ''fields''] [(''fields'', TListOf TQueryFieldDef), (''data'', TQueryResult)])"

definition TQueryFieldsResponse :: check_fn where
  "TQueryFieldsResponse = projr (TObjectCheck [''fields''] [(''fields'', TListOf TQueryFieldDef)])"

definition TJobIdListItem :: check_fn where
  "TJobIdListItem = TAnd [TIsLength 2, TItems [TBool, TOr [TString, TJobId]]]"

definition TJobIdList :: check_fn where
  "TJobIdList = TListOf TJobIdListItem"

definition TJobIdListOnly :: check_fn where
  "TJobIdListOnly = TStrictDict True True [(''jobs'', TJobIdList)]"

definition TInstanceMultiAllocResponse :: check_fn where
  "TInstanceMultiAllocResponse =
     TStrictDict True True
       [(''jobs'', TJobIdList), (''allocatable'', TListOf TNonEmptyString), (''failed'', TListOf TNonEmptyString)]"

section \<open>Which values the checks accept\<close>

text \<open>
  \<open>decides t P\<close>: the check \<open>t\<close> never raises and accepts exactly the values in \<open>P\<close>.
\<close>

definition decides :: "check_fn \<Rightarrow> (pyval \<Rightarrow> bool) \<Rightarrow> bool" where
  "decides t P \<longleftrightarrow> (\<forall>v. t v = Inr (P v))"

named_theorems decides_rules \<open>how the combinators decide\<close>

lemma decidesI: "(\<And>v. t v = Inr (P v)) \<Longrightarrow> decides t P"
  by (simp add: decides_def)

lemma decidesD: "decides t P \<Longrightarrow> t v = Inr (P v)"
  by (simp add: decides_def)

lemma decides_cong: "decides t P \<Longrightarrow> (\<And>v. P v = Q v) \<Longrightarrow> decides t Q"
  by (simp add: decides_def)

lemma all_res_Inr [simp]: "all_res (map (\<lambda>x. Inr (P x)) xs) = Inr (\<forall>x \<in> set xs. P x)"
  by (induction xs) auto

lemma any_res_Inr [simp]: "any_res (map (\<lambda>x. Inr (P x)) xs) = Inr (\<exists>x \<in> set xs. P x)"
  by (induction xs) auto

lemma all_res_map: "(\<And>x. x \<in> set xs \<Longrightarrow> f x = Inr (P x)) \<Longrightarrow> all_res (map f xs) = Inr (\<forall>x \<in> set xs. P x)"
  using all_res_Inr [of P xs] by (simp cong: map_cong)

lemma all_res_True [simp]: "all_res rs = Inr True \<longleftrightarrow> (\<forall>r \<in> set rs. r = Inr True)"
  by (induction rs) (auto simp: res_bind_def split: sum.splits if_splits)

text \<open>A second check runs only on the values that the first accepts.\<close>

lemma TAnd_two: "TAnd [s, t] v = res_bind (s v) (\<lambda>b. if b then t v else Inr False)"
proof -
  have "res_bind (t v) (\<lambda>b. Inr b) = t v" by (cases "t v") auto
  then show ?thesis by (auto simp: TAnd_def res_bind_def split: sum.splits)
qed

lemma TOr_two: "TOr [s, t] v = res_bind (s v) (\<lambda>b. if b then Inr True else t v)"
proof -
  have "res_bind (t v) (\<lambda>b. Inr b) = t v" by (cases "t v") auto
  then show ?thesis by (auto simp: TOr_def res_bind_def split: sum.splits)
qed

lemma TAnd_Cons: "TAnd (t # ts) v = res_bind (t v) (\<lambda>b. if b then TAnd ts v else Inr False)"
  unfolding TAnd_def by simp

lemma decides_TAnd:
  assumes "decides s P" "\<And>v. P v \<Longrightarrow> t v = Inr (Q v)" "\<And>v. Q v \<Longrightarrow> P v"
  shows "decides (TAnd [s, t]) Q"
proof (rule decidesI)
  fix v
  show "TAnd [s, t] v = Inr (Q v)"
    using assms(2,3) [of v] decidesD [OF assms(1), of v] by (cases "P v") (auto simp: TAnd_two)
qed

lemma decides_TOr [decides_rules]:
  "decides s P \<Longrightarrow> decides t Q \<Longrightarrow> decides (TOr [s, t]) (\<lambda>v. P v \<or> Q v)"
  by (rule decidesI) (auto simp: TOr_two decidesD)

lemma decides_TAny [decides_rules]: "decides TAny (\<lambda>v. True)"
  by (rule decidesI) (simp add: TAny_def)

lemma decides_TNone [decides_rules]: "decides TNone (\<lambda>v. v = PNone)"
  by (rule decidesI) (simp add: TNone_def)

lemma decides_TBool [decides_rules]: "decides TBool (\<lambda>v. \<exists>b. v = PBool b)"
  by (rule decidesI) (simp add: TBool_def split: pyval.split)

lemma decides_TInt [decides_rules]: "decides TInt (\<lambda>v. \<exists>i. v = PInt i)"
  by (rule decidesI) (simp add: TInt_def split: pyval.split)

lemma decides_TFloat [decides_rules]: "decides TFloat (\<lambda>v. \<exists>r. v = PFloat r)"
  by (rule decidesI) (simp add: TFloat_def split: pyval.split)

lemma decides_TString [decides_rules]: "decides TString (\<lambda>v. \<exists>s. v = PStr s)"
  by (rule decidesI) (simp add: TString_def split: pyval.split)

lemma decides_TList [decides_rules]: "decides TList (\<lambda>v. \<exists>vs. v = PList vs)"
  by (rule decidesI) (simp add: TList_def split: pyval.split)

lemma decides_TTuple [decides_rules]: "decides TTuple (\<lambda>v. \<exists>vs. v = PTuple vs)"
  by (rule decidesI) (simp add: TTuple_def split: pyval.split)

lemma decides_TDict [decides_rules]: "decides TDict (\<lambda>v. \<exists>kvs. v = PDict kvs)"
  by (rule decidesI) (simp add: TDict_def split: pyval.split)

lemma decides_TMaybe [decides_rules]: "decides t P \<Longrightarrow> decides (TMaybe t) (\<lambda>v. v = PNone \<or> P v)"
  unfolding TMaybe_def by (rule decides_TOr [OF decides_TNone])

lemma decides_TNonEmptyString [decides_rules]: "decides TNonEmptyString (\<lambda>v. \<exists>s. v = PStr s \<and> s \<noteq> [])"
  unfolding TNonEmptyString_def
  by (rule decides_TAnd [OF decides_TString]) (elim exE, simp add: TTrue_def, blast)

lemma decides_TNonNegativeInt [decides_rules]: "decides TNonNegativeInt (\<lambda>v. \<exists>i \<ge> 0. v = PInt i)"
  unfolding TNonNegativeInt_def TNonNegative_def
  by (rule decides_TAnd [OF decides_TInt]) (auto simp: py_cmp_def)

lemma decides_TPositiveInt [decides_rules]: "decides TPositiveInt (\<lambda>v. \<exists>i > 0. v = PInt i)"
  unfolding TPositiveInt_def TPositive_def
  by (rule decides_TAnd [OF decides_TInt]) (auto simp: py_cmp_def)

lemma decides_TNegativeInt [decides_rules]: "decides TNegativeInt (\<lambda>v. \<exists>i < 0. v = PInt i)"
  unfolding TNegativeInt_def
  by (rule decides_TAnd [OF decides_TInt]) (auto simp: py_cmp_def)

lemma decides_TRegex [decides_rules]: "decides (TRegex re) (\<lambda>v. \<exists>s. v = PStr s \<and> re s)"
  unfolding TRegex_def
  by (rule decides_TAnd [OF decides_TString]) auto

lemma decides_TPrivate [decides_rules]: "decides t P \<Longrightarrow> decides (TPrivate t) (\<lambda>v. \<exists>u. v = PPrivate u \<and> P u)"
  by (rule decidesI) (auto simp: TPrivate_def decidesD split: pyval.split)

lemma decides_TListOf [decides_rules]:
  assumes "decides t P"
  shows "decides (TListOf t) (\<lambda>v. \<exists>vs. v = PList vs \<and> (\<forall>u \<in> set vs. P u))"
  unfolding TListOf_def
  by (rule decides_TAnd [OF decides_TList])
    (use assms in \<open>auto simp: all_res_map decidesD\<close>)

lemma decides_TDictOf [decides_rules]:
  assumes "decides k P" "decides t Q"
  shows "decides (TDictOf k t) (\<lambda>v. \<exists>kvs. v = PDict kvs \<and> (\<forall>(a, b) \<in> set kvs. P a \<and> Q b))"
  unfolding TDictOf_def
  by (rule decides_TAnd [OF decides_TDict])
    (use assms in \<open>auto simp: decidesD case_prod_unfold\<close>)

lemma items_res:
  "list_all2 decides ts Ps \<Longrightarrow> length vs = length ts \<Longrightarrow>
    all_res (map2 (\<lambda>t i. t i) ts vs) = Inr (list_all2 (\<lambda>P v. P v) Ps vs)"
proof (induction ts Ps arbitrary: vs rule: list_all2_induct)
  case (Cons t ts P Ps)
  then show ?case by (cases vs) (auto simp: decidesD)
qed simp

lemma decides_TTupleOf [decides_rules]:
  assumes "list_all2 decides ts Ps"
  shows "decides (TTupleOf ts) (\<lambda>v. \<exists>vs. (v = PTuple vs \<or> v = PList vs) \<and> list_all2 (\<lambda>P u. P u) Ps vs)"
proof (rule decidesI)
  fix v
  show "TTupleOf ts v = Inr (\<exists>vs. (v = PTuple vs \<or> v = PList vs) \<and> list_all2 (\<lambda>P u. P u) Ps vs)"
  proof (cases "\<exists>vs. v = PTuple vs \<or> v = PList vs")
    case True
    then obtain vs where v: "v = PTuple vs \<or> v = PList vs" by blast
    have len: "length ts = length Ps" using assms by (rule list_all2_lengthD)
    have "TTupleOf ts v = res_bind (Inr (length vs = length ts)) (\<lambda>b. if b then all_res (map2 (\<lambda>t i. t i) ts vs) else Inr False)"
      using v by (auto simp: TTupleOf_def TAnd_Cons [of _ "[_, _]"] TAnd_two TOr_two TTuple_def TList_def TIsLength_def py_len_def TItems_def)
    also have "\<dots> = Inr (list_all2 (\<lambda>P u. P u) Ps vs)"
      using items_res [OF assms, of vs] len by (auto dest: list_all2_lengthD)
    finally show ?thesis using v by auto
  next
    case False
    then show ?thesis by (cases v) (auto simp: TTupleOf_def TAnd_def TOr_two TTuple_def TList_def)
  qed
qed

lemma field_of_map: "field_of (map (\<lambda>(k, t). (k, f t)) items) key = map_option f (field_of items key)"
  by (induction items) auto

lemma field_of_set: "field_of items key = Some t \<Longrightarrow> \<exists>k. (k, t) \<in> set items"
  by (induction items key rule: field_of.induct) (auto split: if_splits)

text \<open>Every field is there, and every key belongs to a field whose type the value has.\<close>

definition has_fields :: "(string \<times> 'a) list \<Rightarrow> (pyval \<times> pyval) list \<Rightarrow> bool" where
  "has_fields items kvs \<longleftrightarrow> (\<forall>(k, _) \<in> set items. \<exists>(key, _) \<in> set kvs. py_eq key (PStr k))"

lemma decides_TStrictDict:
  assumes "\<And>k t. (k, t) \<in> set items \<Longrightarrow> decides (f t) (P t)"
  shows "decides (TStrictDict require_all exclusive (map (\<lambda>(k, t). (k, f t)) items))
    (\<lambda>v. \<exists>kvs. v = PDict kvs \<and> (require_all \<longrightarrow> has_fields items kvs) \<and>
       (\<forall>(key, u) \<in> set kvs. case field_of items key of Some t \<Rightarrow> P t u | None \<Rightarrow> \<not> exclusive))"
  unfolding TStrictDict_def
proof (rule decides_TAnd [OF decides_TDict])
  fix v assume "\<exists>kvs. v = PDict kvs"
  then obtain kvs where v: "v = PDict kvs" by blast
  let ?R = "\<lambda>(key, u). case field_of items key of Some t \<Rightarrow> P t u | None \<Rightarrow> \<not> exclusive"
  let ?C = "\<lambda>(key, u). case field_of (map (\<lambda>(k, t). (k, f t)) items) key of Some t \<Rightarrow> t u | None \<Rightarrow> Inr (\<not> exclusive)"
  have "?C x = Inr (?R x)" for x
    using assms decidesD by (auto simp: field_of_map split: option.split prod.split dest!: field_of_set)
  then have "all_res (map ?C kvs) = Inr (\<forall>x \<in> set kvs. ?R x)" by (intro all_res_map)
  then show "TStrictDictCheck require_all exclusive (map (\<lambda>(k, t). (k, f t)) items) v =
      Inr (\<exists>kvs. v = PDict kvs \<and> (require_all \<longrightarrow> has_fields items kvs) \<and> (\<forall>x \<in> set kvs. ?R x))"
    by (auto simp: v TStrictDictCheck_def has_fields_def list_all_iff list_ex_iff case_prod_unfold)
qed auto

section \<open>A type system for the checks\<close>

text \<open>
  Descriptions of the types that are built with the combinators that never raise, the check
  that the combinators build for a description, and the values of a type.
\<close>

datatype ty =
    TyAny
  | TyNone
  | TyBool
  | TyInt
  | TyFloat
  | TyString
  | TyNonEmptyString
  | TyNonNegativeInt
  | TyPositiveInt
  | TyNegativeInt
  | TyJobId
  | TyMaybe ty
  | TyOr ty ty
  | TyPrivate ty
  | TyListOf ty
  | TyTupleOf "ty list"
  | TyDictOf ty ty
  | TyStrictDict bool bool "(string \<times> ty) list"

fun check_of :: "ty \<Rightarrow> check_fn" where
  "check_of TyAny = TAny"
| "check_of TyNone = TNone"
| "check_of TyBool = TBool"
| "check_of TyInt = TInt"
| "check_of TyFloat = TFloat"
| "check_of TyString = TString"
| "check_of TyNonEmptyString = TNonEmptyString"
| "check_of TyNonNegativeInt = TNonNegativeInt"
| "check_of TyPositiveInt = TPositiveInt"
| "check_of TyNegativeInt = TNegativeInt"
| "check_of TyJobId = TJobId"
| "check_of (TyMaybe t) = TMaybe (check_of t)"
| "check_of (TyOr s t) = TOr [check_of s, check_of t]"
| "check_of (TyPrivate t) = TPrivate (check_of t)"
| "check_of (TyListOf t) = TListOf (check_of t)"
| "check_of (TyTupleOf ts) = TTupleOf (map check_of ts)"
| "check_of (TyDictOf k t) = TDictOf (check_of k) (check_of t)"
| "check_of (TyStrictDict require_all exclusive items) =
     TStrictDict require_all exclusive (map (\<lambda>(k, t). (k, check_of t)) items)"

inductive of_type :: "ty \<Rightarrow> pyval \<Rightarrow> bool" where
  any: "of_type TyAny v"
| none: "of_type TyNone PNone"
| bool: "of_type TyBool (PBool b)"
| int: "of_type TyInt (PInt i)"
| float: "of_type TyFloat (PFloat r)"
| string: "of_type TyString (PStr s)"
| non_empty: "s \<noteq> [] \<Longrightarrow> of_type TyNonEmptyString (PStr s)"
| non_negative: "0 \<le> i \<Longrightarrow> of_type TyNonNegativeInt (PInt i)"
| positive: "0 < i \<Longrightarrow> of_type TyPositiveInt (PInt i)"
| negative: "i < 0 \<Longrightarrow> of_type TyNegativeInt (PInt i)"
| job_id: "0 \<le> i \<Longrightarrow> of_type TyJobId (PInt i)"
| job_id_text: "job_id_re s \<Longrightarrow> of_type TyJobId (PStr s)"
| nothing: "of_type (TyMaybe t) PNone"
| maybe: "of_type t v \<Longrightarrow> of_type (TyMaybe t) v"
| or_left: "of_type s v \<Longrightarrow> of_type (TyOr s t) v"
| or_right: "of_type t v \<Longrightarrow> of_type (TyOr s t) v"
| secret: "of_type t v \<Longrightarrow> of_type (TyPrivate t) (PPrivate v)"
| list_of: "(\<forall>v \<in> set vs. of_type t v) \<Longrightarrow> of_type (TyListOf t) (PList vs)"
| tuple_of: "list_all2 of_type ts vs \<Longrightarrow> of_type (TyTupleOf ts) (PTuple vs)"
| tuple_of_list: "list_all2 of_type ts vs \<Longrightarrow> of_type (TyTupleOf ts) (PList vs)"
| dict_of: "(\<forall>kv \<in> set kvs. of_type k (fst kv) \<and> of_type t (snd kv)) \<Longrightarrow> of_type (TyDictOf k t) (PDict kvs)"
| strict_dict:
    "(require_all \<longrightarrow> has_fields items kvs) \<Longrightarrow>
     (\<forall>kv \<in> set kvs. (field_of items (fst kv) = None \<and> \<not> exclusive) \<or>
        (\<exists>t. field_of items (fst kv) = Some t \<and> of_type t (snd kv))) \<Longrightarrow>
     of_type (TyStrictDict require_all exclusive items) (PDict kvs)"

inductive_simps of_type_simps:
  "of_type TyAny v" "of_type TyNone v" "of_type TyBool v" "of_type TyInt v" "of_type TyFloat v" "of_type TyString v"
  "of_type TyNonEmptyString v" "of_type TyNonNegativeInt v" "of_type TyPositiveInt v" "of_type TyNegativeInt v"
  "of_type TyJobId v" "of_type (TyMaybe t) v" "of_type (TyOr s t) v" "of_type (TyPrivate t) v" "of_type (TyListOf t) v"
  "of_type (TyTupleOf ts) v" "of_type (TyDictOf k t) v" "of_type (TyStrictDict require_all exclusive items) v"

lemma decides_TJobId: "decides TJobId (of_type TyJobId)"
  unfolding TJobId_def
  by (rule decides_cong [OF decides_TOr [OF decides_TNonNegativeInt decides_TRegex]]) (auto simp: of_type_simps)

lemma known_or_free:
  "(case x of Some t \<Rightarrow> Q t | None \<Rightarrow> \<not> b) \<longleftrightarrow> (x = None \<and> \<not> b) \<or> (\<exists>t. x = Some t \<and> Q t)"
  by (cases x) auto

lemmas decides_basic = decides_TAny decides_TNone decides_TBool decides_TInt decides_TFloat decides_TString
  decides_TNonEmptyString decides_TNonNegativeInt decides_TPositiveInt decides_TNegativeInt decides_TJobId

lemma check_of_decides: "decides (check_of t) (of_type t)"
proof (induction t)
  case (TyMaybe t)
  then show ?case unfolding check_of.simps by (rule decides_cong [OF decides_TMaybe]) (auto simp: of_type_simps)
next
  case (TyOr s t)
  then show ?case unfolding check_of.simps by (rule decides_cong [OF decides_TOr]) (auto simp: of_type_simps)
next
  case (TyPrivate t)
  then show ?case unfolding check_of.simps by (rule decides_cong [OF decides_TPrivate]) (auto simp: of_type_simps)
next
  case (TyListOf t)
  then show ?case unfolding check_of.simps by (rule decides_cong [OF decides_TListOf]) (auto simp: of_type_simps)
next
  case (TyTupleOf ts)
  then have "list_all2 decides (map check_of ts) (map of_type ts)" by (simp add: list_all2_conv_all_nth)
  then show ?case unfolding check_of.simps
    by (rule decides_cong [OF decides_TTupleOf]) (auto simp: of_type_simps list_all2_map1)
next
  case (TyDictOf k t)
  then show ?case unfolding check_of.simps
    by (rule decides_cong [OF decides_TDictOf]) (auto simp: of_type_simps case_prod_unfold)
next
  case (TyStrictDict require_all exclusive items)
  then have "decides (check_of t) (of_type t)" if "(k, t) \<in> set items" for k t using that by fastforce
  then show ?case unfolding check_of.simps
    by (rule decides_cong [OF decides_TStrictDict]) (simp_all add: of_type_simps case_prod_unfold known_or_free conj_commute)
qed (unfold check_of.simps; rule decides_basic [THEN decides_cong]; auto simp: of_type_simps)+

section \<open>Checks that raise\<close>

abbreviation disk_params_ty :: ty where
  "disk_params_ty \<equiv> TyDictOf TyNonEmptyString (TyOr TyNonEmptyString TyInt)"

lemma TDiskParams_ty: "TDiskParams = check_of disk_params_ty"
  by (simp add: TDiskParams_def)

lemma TDiskChanges_outcome:
  "TDiskChanges u = (case py_iter u of
      Inl e \<Rightarrow> Inl e
    | Inr xs \<Rightarrow> Inr (\<exists>i k. xs = [i, k] \<and> of_type TyNonNegativeInt i \<and> of_type disk_params_ty k))"
proof (cases "py_iter u")
  case (Inr xs)
  have i: "TNonNegativeInt x = Inr (of_type TyNonNegativeInt x)" for x
    using decidesD [OF check_of_decides, of TyNonNegativeInt x] by simp
  have k: "TDiskParams x = Inr (of_type disk_params_ty x)" for x
    using decidesD [OF check_of_decides, of disk_params_ty x] by (simp add: TDiskParams_ty)
  have "all_res (map2 (\<lambda>t i. t i) [TNonNegativeInt, TDiskParams] [x, y]) =
      Inr (of_type TyNonNegativeInt x \<and> of_type disk_params_ty y)" for x y
    by (simp add: i k)
  moreover have "length xs = 2 \<longleftrightarrow> (\<exists>x y. xs = [x, y])"
    by (auto simp: length_Suc_conv numeral_2_eq_2)
  ultimately show ?thesis
    by (auto simp: TDiskChanges_def TAnd_two TIsLength_def py_len_def Inr TItems_def)
qed (simp add: TDiskChanges_def TAnd_two TIsLength_def py_len_def)

text \<open>\<^verbatim>\<open>all\<close> stops at the first check that does not give \<^verbatim>\<open>True\<close>.\<close>

lemma all_res_append: "\<forall>r \<in> set rs. r = Inr True \<Longrightarrow> all_res (rs @ rs') = all_res rs'"
  by (induction rs) auto

lemma all_res_Inl:
  "all_res (map f xs) = Inl e \<longleftrightarrow> (\<exists>us u ws. xs = us @ u # ws \<and> (\<forall>x \<in> set us. f x = Inr True) \<and> f u = Inl e)"
  (is "?l = ?r")
proof
  show ?l if ?r using that all_res_append [of "map f _"] by auto
  show ?r if ?l using that
  proof (induction xs)
    case (Cons x xs)
    show ?case
    proof (cases "f x = Inr True")
      case True
      then have "all_res (map f xs) = Inl e" using Cons.prems by simp
      then obtain us u ws where "xs = us @ u # ws" "\<forall>x \<in> set us. f x = Inr True" "f u = Inl e" using Cons.IH by blast
      then show ?thesis using True by (intro exI [of _ "x # us"]) auto
    next
      case False
      then have "f x = Inl e" using Cons.prems by (auto simp: res_bind_def split: sum.splits)
      then show ?thesis by (intro exI [of _ "[]"]) auto
    qed
  qed simp
qed

lemma TListOf_PList: "TListOf t (PList vs) = all_res (map t vs)"
  by (simp add: TListOf_def TAnd_two TList_def)

lemma TListOf_other: "(\<And>vs. v \<noteq> PList vs) \<Longrightarrow> TListOf t v = Inr False"
  by (cases v) (auto simp: TListOf_def TAnd_two TList_def)

text \<open>C40: the check of a list of disks to recreate accepts lists of disk indices and lists of
  pairs of an index and parameters, but does not reject every other value: it raises exactly
  if the value is a list that is no list of indices and in which, after elements that are
  such pairs, there is an element without length, for instance the list that holds only a negative
  number.\<close>

theorem recreate_disks_raises:
  "(\<exists>e. TRecreateDisksInfo v = Inl e) \<longleftrightarrow>
     (\<exists>us u ws. v = PList (us @ u # ws) \<and> \<not> of_type (TyListOf TyNonNegativeInt) v \<and>
        (\<forall>x \<in> set us. TDiskChanges x = Inr True) \<and> py_len u = Inl TypeError)"
proof (cases "\<exists>vs. v = PList vs")
  case True
  then obtain vs where v: "v = PList vs" by blast
  have "TListOf TNonNegativeInt v = Inr (of_type (TyListOf TyNonNegativeInt) v)"
    using decidesD [OF check_of_decides, of "TyListOf TyNonNegativeInt" v] by simp
  then have "TRecreateDisksInfo v = Inl e \<longleftrightarrow>
      \<not> of_type (TyListOf TyNonNegativeInt) v \<and> all_res (map TDiskChanges vs) = Inl e" for e
    by (simp add: TRecreateDisksInfo_def TOr_two v TListOf_PList)
  moreover have "(\<exists>e. TDiskChanges u = Inl e) \<longleftrightarrow> py_len u = Inl TypeError" for u
    by (cases u) (auto simp: TDiskChanges_outcome py_len_def)
  ultimately show ?thesis unfolding all_res_Inl v by (auto; metis)
next
  case False
  then have "TRecreateDisksInfo v = Inr False"
    by (simp add: TRecreateDisksInfo_def TOr_two TListOf_other)
  then show ?thesis using False by auto
qed

theorem recreate_disks_raises_witness: "\<exists>e. TRecreateDisksInfo (PList [PInt (- 1)]) = Inl e"
  unfolding recreate_disks_raises by (auto simp: of_type_simps py_len_def intro!: exI [of _ "[]"])

text \<open>C39: the check of an IPv4 network in prefix notation rejects a text whose address is not one,
  but raises if the address is well-formed and the netmask is not, or if host bits are set.\<close>

theorem network_check_outcome:
  assumes "CHR ''/'' \<notin> set a" "CHR ''/'' \<notin> set m"
  shows "TIPv4Network (PStr (a @ ''/'' @ m)) =
    (case v4_of_str a of
       None \<Rightarrow> Inr False
     | Some n \<Rightarrow>
         (case v4_prefix m of
            None \<Rightarrow> Inl NetmaskValueError
          | Some p \<Rightarrow> if n AND netmask 32 p = n then Inr True else Inl ValueError))"
  using split_char_append [OF assms(1), of m] split_char_no_sep [OF assms(2)]
  by (auto simp: TIPv4Network_def TAnd_two TString_def CheckCIDRNetNotation_def catch_address_error_def
      IPv4Network_def make_net_def split: option.split)

theorem network_check_outcome_witness: "TIPv4Network (PStr ''10.0.0.1/24'') = Inl ValueError"
proof -
  have a: "v4_of_str ''10.0.0.1'' = Some 167772161"
    by (simp add: v4_of_str_def v4_octet_def is_digit_char_def digits_value_def digit_value_def)
  have m: "v4_prefix ''24'' = Some 24"
    by (simp add: v4_prefix_def prefix_of_digits_def is_digit_char_def digits_value_def digit_value_def)
  have "(167772161 :: nat) AND netmask 32 24 \<noteq> 167772161" by (simp add: and_netmask)
  then show ?thesis using network_check_outcome [of "''10.0.0.1''" "''24''"] by (simp add: a m)
qed


end
