(* ===== verification/Opcodes.thy ===== *)
theory Opcodes
  imports Ht Job_Data
begin

text \<open>
  Opcode objects (\<^verbatim>\<open>lib/opcodes_base.py\<close>, the base class in \<^verbatim>\<open>lib/opcodes.py.in_before\<close> and
  \<^verbatim>\<open>lib/outils.py\<close>): their attributes, construction from keyword arguments, the
  validation of the parameters with the checks of \<^verbatim>\<open>lib/ht.py\<close>, and their dictionary form.
  The concrete opcode classes are generated by the build, so a class is an argument: its name
  and the parameters that it and its ancestors declare. Lemmas: validation gives
  every parameter a value of its type or names the first parameter without one; an opcode
  that is written to a dictionary is loaded back unchanged; which job dependencies are accepted.
\<close>

section \<open>Classes and attributes\<close>

text \<open>An entry of \<^verbatim>\<open>OP_PARAMS\<close>, without its documentation.\<close>

record op_param =
  pa_name :: string
  pa_default :: pyval
  pa_test :: check_fn

text \<open>\<open>oc_mro\<close> holds the \<^verbatim>\<open>OP_PARAMS\<close> of the class and its ancestors in resolution order.\<close>

record op_class_def =
  oc_name :: string
  oc_mro :: "op_param list list"

type_synonym attrs = "string \<rightharpoonup> pyval"

definition GetSlots :: "op_param list \<Rightarrow> string list" where
  "GetSlots params = map pa_name params"

definition GetAllSlots :: "op_class_def \<Rightarrow> string list" where
  "GetAllSlots cls = concat (map GetSlots (oc_mro cls))"

definition GetAllParams :: "op_class_def \<Rightarrow> op_param list" where
  "GetAllParams cls = concat (oc_mro cls)"

text \<open>The class attribute is computed when the class is created.\<close>

definition OP_ID :: "op_class_def \<Rightarrow> string option" where
  "OP_ID cls = (case NameToId (oc_name cls) of Inl _ \<Rightarrow> None | Inr i \<Rightarrow> i)"

section \<open>Construction\<close>

fun ValidatedSlots_init :: "string list \<Rightarrow> (string \<times> pyval) list \<Rightarrow> attrs \<Rightarrow> attrs res" where
  "ValidatedSlots_init slots [] a = Inr a"
| "ValidatedSlots_init slots ((k, v) # kwargs) a =
     (if k \<notin> set slots then Inl TypeError else ValidatedSlots_init slots kwargs (a(k \<mapsto> v)))"

fun set_defaults :: "op_param list \<Rightarrow> attrs \<Rightarrow> attrs" where
  "set_defaults [] a = a"
| "set_defaults (p # ps) a =
     set_defaults ps (if a (pa_name p) = None then a(pa_name p \<mapsto> pa_default p) else a)"

definition BaseOpCode :: "op_class_def \<Rightarrow> (string \<times> pyval) list \<Rightarrow> attrs res" where
  "BaseOpCode cls kwargs =
     res_bind (ValidatedSlots_init (GetAllSlots cls) kwargs Map.empty) (\<lambda>a.
     Inr (set_defaults (GetAllParams cls) a))"

section \<open>Dictionary form\<close>

text \<open>Assignment to a key of a dictionary: in place if the key is there, else at the end.\<close>

fun dict_set :: "pyval \<Rightarrow> pyval \<Rightarrow> (pyval \<times> pyval) list \<Rightarrow> (pyval \<times> pyval) list" where
  "dict_set k v [] = [(k, v)]"
| "dict_set k v ((k', v') # d) = (if py_eq k' k then (k', v) # d else (k', v') # dict_set k v d)"

fun dict_get :: "pyval \<Rightarrow> (pyval \<times> pyval) list \<Rightarrow> pyval option" where
  "dict_get k [] = None"
| "dict_get k ((k', v) # d) = (if py_eq k' k then Some v else dict_get k d)"

definition dict_del :: "pyval \<Rightarrow> (pyval \<times> pyval) list \<Rightarrow> (pyval \<times> pyval) list" where
  "dict_del k d = filter (\<lambda>(k', _). \<not> py_eq k' k) d"

fun getstate_loop :: "string list \<Rightarrow> attrs \<Rightarrow> (pyval \<times> pyval) list \<Rightarrow> (pyval \<times> pyval) list" where
  "getstate_loop [] a state = state"
| "getstate_loop (name # names) a state =
     getstate_loop names a (case a name of None \<Rightarrow> state | Some v \<Rightarrow> dict_set (PStr name) v state)"

definition BaseOpCode_getstate :: "op_class_def \<Rightarrow> attrs \<Rightarrow> (pyval \<times> pyval) list" where
  "BaseOpCode_getstate cls a = getstate_loop (GetAllSlots cls) a []"

text \<open>
  The attributes that the state lacks are deleted, those it has are set. A name that is no
  text is a \<^verbatim>\<open>TypeError\<close>, and one that is no slot an \<^verbatim>\<open>AttributeError\<close>.
\<close>

fun delete_missing :: "string list \<Rightarrow> (pyval \<times> pyval) list \<Rightarrow> attrs \<Rightarrow> attrs" where
  "delete_missing [] state a = a"
| "delete_missing (name # names) state a =
     delete_missing names state
       (if dict_get (PStr name) state = None \<and> a name \<noteq> None then a(name := None) else a)"

fun set_attrs :: "string list \<Rightarrow> (pyval \<times> pyval) list \<Rightarrow> attrs \<Rightarrow> attrs res" where
  "set_attrs slots [] a = Inr a"
| "set_attrs slots ((k, v) # state) a =
     (case k of
        PStr name \<Rightarrow> if name \<in> set slots then set_attrs slots state (a(name \<mapsto> v)) else Inl AttributeError
      | _ \<Rightarrow> Inl TypeError)"

definition BaseOpCode_setstate :: "op_class_def \<Rightarrow> pyval \<Rightarrow> attrs \<Rightarrow> attrs res" where
  "BaseOpCode_setstate cls state a =
     (case state of
        PDict kvs \<Rightarrow> set_attrs (GetAllSlots cls) kvs (delete_missing (GetAllSlots cls) kvs a)
      | _ \<Rightarrow> Inl ValueError)"

definition OpCode_getstate :: "op_class_def \<Rightarrow> attrs \<Rightarrow> pyval" where
  "OpCode_getstate cls a =
     PDict (dict_set (PStr ''OP_ID'') (case OP_ID cls of None \<Rightarrow> PNone | Some i \<Rightarrow> PStr i) (BaseOpCode_getstate cls a))"

text \<open>\<open>OP_MAPPING\<close> is the table of the generated opcode classes.\<close>

definition LoadOpCode :: "(pyval \<rightharpoonup> op_class_def) \<Rightarrow> pyval \<Rightarrow> (op_class_def \<times> attrs) res" where
  "LoadOpCode OP_MAPPING data =
     (case data of
        PDict d \<Rightarrow>
          (case dict_get (PStr ''OP_ID'') d of
             None \<Rightarrow> Inl ValueError
           | Some op_id \<Rightarrow>
               if \<not> py_hashable op_id then Inl TypeError
               else
                 (case OP_MAPPING op_id of
                    None \<Rightarrow> Inl ValueError
                  | Some cls \<Rightarrow>
                      res_bind (BaseOpCode cls []) (\<lambda>a.
                      res_bind (BaseOpCode_setstate cls (PDict (dict_del (PStr ''OP_ID'') d)) a) (\<lambda>a.
                      Inr (cls, a)))))
      | _ \<Rightarrow> Inl ValueError)"

definition SUMMARY_PREFIX :: "(string \<times> string) list" where
  "SUMMARY_PREFIX = [(''CLUSTER_'', ''C_''), (''GROUP_'', ''G_''), (''NODE_'', ''N_''), (''INSTANCE_'', ''I_'')]"

fun tiny_loop :: "(string \<times> string) list \<Rightarrow> string \<Rightarrow> string" where
  "tiny_loop [] txt = txt"
| "tiny_loop ((prefix, supplement) # ps) txt =
     (if take (length prefix) txt = prefix then supplement @ drop (length prefix) txt else tiny_loop ps txt)"

definition TinySummary :: "op_class_def \<Rightarrow> string res" where
  "TinySummary cls =
     (case OP_ID cls of
        None \<Rightarrow> Inl AttributeError
      | Some i \<Rightarrow>
          res_bind (check (take 3 i = ''OP_'') AssertionError) (\<lambda>_.
          Inr (tiny_loop SUMMARY_PREFIX (drop 3 i))))"

section \<open>Validation\<close>

text \<open>
  \<^verbatim>\<open>float(i)\<close>: the nearest number with a mantissa of 53 bits, the even one of two, and an
  error from \<open>2 ^ 1024\<close> on.
\<close>

fun bit_length :: "nat \<Rightarrow> nat" where
  "bit_length n = (if n = 0 then 0 else Suc (bit_length (n div 2)))"

declare bit_length.simps [simp del]

definition round_mantissa :: "nat \<Rightarrow> nat" where
  "round_mantissa n =
     (if n < 2 ^ 53 then n
      else
        let e = bit_length n - 53; q = n div 2 ^ e; r = n mod 2 ^ e; half = 2 ^ (e - 1)
        in (if half < r \<or> (r = half \<and> odd q) then q + 1 else q) * 2 ^ e)"

definition float_of_int :: "int \<Rightarrow> rat res" where
  "float_of_int i =
     (let m = round_mantissa (nat \<bar>i\<bar>)
      in if 2 ^ 1024 \<le> m then Inl OverflowError else Inr (of_int (sgn i) * of_nat m))"

text \<open>\<^verbatim>\<open>ht.TInt(val) and test(float(val))\<close>, with the float.\<close>

definition float_test :: "check_fn \<Rightarrow> pyval \<Rightarrow> pyval option res" where
  "float_test test v =
     (case v of
        PInt i \<Rightarrow>
          res_bind (float_of_int i) (\<lambda>r.
          res_bind (test (PFloat r)) (\<lambda>b. Inr (if b then Some (PFloat r) else None)))
      | _ \<Rightarrow> Inr None)"

definition invalid_msg :: "string option \<Rightarrow> string \<Rightarrow> string" where
  "invalid_msg op_id name =
     ''Parameter '' @ [CHR 0x27] @ (case op_id of None \<Rightarrow> ''None'' | Some i \<Rightarrow> i) @ ''.'' @ name @ [CHR 0x27]
       @ '' fails validation''"

definition param_value :: "op_param \<Rightarrow> attrs \<Rightarrow> pyval" where
  "param_value p a = (case a (pa_name p) of Some v \<Rightarrow> v | None \<Rightarrow> pa_default p)"

definition Validate_param :: "string option \<Rightarrow> op_param \<Rightarrow> attrs \<Rightarrow> pyval res" where
  "Validate_param op_id p a =
     (let v = param_value p a
      in res_bind (pa_test p v) (\<lambda>b.
         if b then Inr v
         else
           res_bind (float_test (pa_test p) v) (\<lambda>f.
           case f of Some r \<Rightarrow> Inr r | None \<Rightarrow> Inl (OpPrereqError (invalid_msg op_id (pa_name p))))))"

text \<open>The attributes that were set before an error stay set.\<close>

fun Validate_loop :: "string option \<Rightarrow> bool \<Rightarrow> op_param list \<Rightarrow> attrs \<Rightarrow> unit res \<times> attrs" where
  "Validate_loop op_id set_def [] a = (Inr (), a)"
| "Validate_loop op_id set_def (p # ps) a =
     (case Validate_param op_id p a of
        Inl e \<Rightarrow> (Inl e, a)
      | Inr v \<Rightarrow> Validate_loop op_id set_def ps (if set_def then a(pa_name p \<mapsto> v) else a))"

definition BaseOpCode_Validate :: "op_class_def \<Rightarrow> bool \<Rightarrow> attrs \<Rightarrow> unit res \<times> attrs" where
  "BaseOpCode_Validate cls set_def a = Validate_loop (OP_ID cls) set_def (GetAllParams cls) a"

definition BuildJobDepCheck :: "bool \<Rightarrow> check_fn" where
  "BuildJobDepCheck relative =
     (let job_id = (if relative then TOr [TJobId, TRelativeJobId] else TJobId);
          job_dep =
            TAnd [TOr [TListOf TAny, TTuple], TIsLength 2,
                  TItems [job_id, TListOf (TElemOf JOBS_FINALIZED_values)]]
      in TMaybe (TListOf job_dep))"

definition TNoRelativeJobDependencies :: check_fn where
  "TNoRelativeJobDependencies = BuildJobDepCheck False"

section \<open>What validation guarantees\<close>

text \<open>The value of a parameter after validation: the one it had, or the float of that integer.\<close>

definition validated :: "op_param \<Rightarrow> pyval \<Rightarrow> pyval \<Rightarrow> bool" where
  "validated p u v \<longleftrightarrow> pa_test p v = Inr True \<and>
     (v = u \<or> (\<exists>i r. u = PInt i \<and> pa_test p u = Inr False \<and> float_of_int i = Inr r \<and> v = PFloat r))"

text \<open>The reason for which a parameter is refused.\<close>

definition refused :: "string option \<Rightarrow> op_param \<Rightarrow> pyval \<Rightarrow> exn \<Rightarrow> bool" where
  "refused op_id p u e \<longleftrightarrow>
     (pa_test p u = Inr False \<and> e = OpPrereqError (invalid_msg op_id (pa_name p)) \<and>
        (\<forall>i r. u = PInt i \<longrightarrow> float_of_int i = Inr r \<longrightarrow> pa_test p (PFloat r) = Inr False)) \<or>
     pa_test p u = Inl e \<or>
     (\<exists>i. u = PInt i \<and> (float_of_int i = Inl e \<or> (\<exists>r. float_of_int i = Inr r \<and> pa_test p (PFloat r) = Inl e)))"

lemma Validate_param_cases:
  "case Validate_param op_id p a of
     Inr v \<Rightarrow> validated p (param_value p a) v
   | Inl e \<Rightarrow> refused op_id p (param_value p a) e"
proof (cases "pa_test p (param_value p a)")
  case (Inr b)
  show ?thesis
  proof (cases b)
    case False
    have "case res_bind (float_test (pa_test p) u) (\<lambda>f. case f of Some r \<Rightarrow> Inr r | None \<Rightarrow> Inl (OpPrereqError (invalid_msg op_id (pa_name p)))) of
        Inr v \<Rightarrow> validated p u v | Inl e \<Rightarrow> refused op_id p u e" if "pa_test p u = Inr False" for u
      using that by (cases u)
        (auto simp: float_test_def res_bind_def validated_def refused_def split: sum.splits option.splits if_splits)
    then show ?thesis using Inr False by (simp add: Validate_param_def)
  qed (use Inr in \<open>simp add: Validate_param_def validated_def\<close>)
qed (simp add: Validate_param_def refused_def)

lemma param_value_other: "pa_name p \<noteq> n \<Longrightarrow> param_value p (a(n \<mapsto> v)) = param_value p a"
  by (simp add: param_value_def)

lemma param_value_later:
  assumes "distinct (map pa_name (p # ps))" "q \<in> set ps"
  shows "param_value q (a(pa_name p \<mapsto> v)) = param_value q a"
proof (rule param_value_other)
  show "pa_name q \<noteq> pa_name p" using assms by (metis distinct.simps(2) image_eqI list.set_map list.simps(9))
qed

lemma Validate_loop_Inr:
  assumes "distinct (map pa_name ps)" "Validate_loop op_id True ps a = (Inr (), a')"
  shows "(\<forall>p \<in> set ps. \<exists>v. a' (pa_name p) = Some v \<and> validated p (param_value p a) v) \<and>
    (\<forall>n. n \<notin> pa_name ` set ps \<longrightarrow> a' n = a n)"
  using assms
proof (induction ps arbitrary: a)
  case (Cons p ps)
  obtain v where v: "Validate_param op_id p a = Inr v" "Validate_loop op_id True ps (a(pa_name p \<mapsto> v)) = (Inr (), a')"
    using Cons.prems(2) by (auto split: sum.splits)
  have "validated p (param_value p a) v" using Validate_param_cases [of op_id p a] v(1) by simp
  moreover have "param_value q (a(pa_name p \<mapsto> v)) = param_value q a" if "q \<in> set ps" for q
    using Cons.prems(1) that by (rule param_value_later)
  then have "\<forall>q \<in> set ps. \<exists>w. a' (pa_name q) = Some w \<and> validated q (param_value q a) w"
    using Cons.IH [OF _ v(2)] Cons.prems(1) by (metis distinct.simps(2) list.simps(9))
  moreover have "\<forall>n. n \<notin> pa_name ` set ps \<longrightarrow> a' n = (a(pa_name p \<mapsto> v)) n"
    using Cons.IH [OF _ v(2)] Cons.prems(1) by simp
  moreover have "pa_name p \<notin> pa_name ` set ps" using Cons.prems(1) by auto
  ultimately show ?case by auto
qed simp

lemma Validate_loop_Inl:
  assumes "distinct (map pa_name ps)" "Validate_loop op_id True ps a = (Inl e, a')"
  shows "\<exists>ps1 p ps2. ps = ps1 @ p # ps2 \<and> (\<forall>q \<in> set ps1. \<exists>v. validated q (param_value q a) v) \<and>
    refused op_id p (param_value p a) e"
  using assms
proof (induction ps arbitrary: a)
  case (Cons p ps)
  show ?case
  proof (cases "Validate_param op_id p a")
    case (Inl e')
    then have "refused op_id p (param_value p a) e" using Cons.prems(2) Validate_param_cases [of op_id p a] by simp
    then show ?thesis by (intro exI [of _ "[]"]) auto
  next
    case (Inr v)
    then have "Validate_loop op_id True ps (a(pa_name p \<mapsto> v)) = (Inl e, a')" using Cons.prems(2) by simp
    then obtain ps1 q ps2 where q: "ps = ps1 @ q # ps2"
        "\<forall>q \<in> set ps1. \<exists>w. validated q (param_value q (a(pa_name p \<mapsto> v))) w"
        "refused op_id q (param_value q (a(pa_name p \<mapsto> v))) e"
      using Cons.IH Cons.prems(1) by (metis distinct.simps(2) list.simps(9))
    have "param_value r (a(pa_name p \<mapsto> v)) = param_value r a" if "r \<in> set ps" for r
      using Cons.prems(1) that by (rule param_value_later)
    moreover have "\<exists>w. validated p (param_value p a) w" using Validate_param_cases [of op_id p a] Inr by auto
    ultimately show ?thesis using q by (intro exI [of _ "p # ps1"] exI [of _ q] exI [of _ ps2]) auto
  qed
qed simp

lemma Validate_loop_again:
  "(\<And>p. p \<in> set ps \<Longrightarrow> \<exists>v. a (pa_name p) = Some v \<and> pa_test p v = Inr True) \<Longrightarrow>
    Validate_loop op_id True ps a = (Inr (), a)"
proof (induction ps)
  case (Cons p ps)
  obtain v where "a (pa_name p) = Some v" "pa_test p v = Inr True" using Cons.prems by auto
  then have "Validate_param op_id p a = Inr v" "a(pa_name p \<mapsto> v) = a"
    by (auto simp: Validate_param_def param_value_def)
  then show ?case using Cons by simp
qed simp

lemma Validate_loop_checks_only: "snd (Validate_loop op_id False ps a) = a"
  by (induction ps) (auto split: sum.splits)


definition demo_class :: op_class_def where
  "demo_class = \<lparr>oc_name = ''OpTestDelay'',
     oc_mro = [[\<lparr>pa_name = ''duration'', pa_default = PInt 0, pa_test = TNonNegativeFloat\<rparr>],
               [\<lparr>pa_name = ''dry_run'', pa_default = PNone, pa_test = TMaybe TBool\<rparr>]]\<rparr>"

lemma float_of_int_small: "\<bar>i\<bar> < 2 ^ 53 \<Longrightarrow> float_of_int i = Inr (of_int i)"
proof -
  assume "\<bar>i\<bar> < 2 ^ 53"
  then have "round_mantissa (nat \<bar>i\<bar>) = nat \<bar>i\<bar>" by (auto simp: round_mantissa_def nat_less_iff)
  moreover have "nat \<bar>i\<bar> < 2 ^ 53" using \<open>\<bar>i\<bar> < 2 ^ 53\<close> by (simp add: nat_less_iff)
  then have "nat \<bar>i\<bar> < 2 ^ 1024" by (rule less_trans) (rule power_strict_increasing; simp)
  moreover have "of_int (sgn i) * of_nat (nat \<bar>i\<bar>) = (of_int i :: rat)"
    by (simp add: sgn_if)
  ultimately show ?thesis by (simp add: float_of_int_def del: power_numeral)
qed

lemma demo_params:
  "GetAllParams demo_class =
     [\<lparr>pa_name = ''duration'', pa_default = PInt 0, pa_test = TNonNegativeFloat\<rparr>,
      \<lparr>pa_name = ''dry_run'', pa_default = PNone, pa_test = TMaybe TBool\<rparr>]"
  by (simp add: GetAllParams_def demo_class_def)

lemma demo_validate:
  "BaseOpCode_Validate demo_class True [''duration'' \<mapsto> PInt 5] =
     (Inr (), [''duration'' \<mapsto> PFloat 5, ''dry_run'' \<mapsto> PNone])"
proof -
  have "TNonNegativeFloat (PInt 5) = Inr False" "TNonNegativeFloat (PFloat 5) = Inr True"
    by (simp_all add: TNonNegativeFloat_def TAnd_two TFloat_def py_cmp_def)
  moreover have "TMaybe TBool PNone = Inr True" by (simp add: TMaybe_def TOr_two TNone_def)
  moreover have "float_of_int 5 = Inr 5" by (simp add: float_of_int_small)
  ultimately show ?thesis
    by (simp add: BaseOpCode_Validate_def demo_params Validate_param_def param_value_def float_test_def)
qed


section \<open>Round trip\<close>

text \<open>The dictionary of the attributes that are set.\<close>

fun entries :: "string list \<Rightarrow> attrs \<Rightarrow> (pyval \<times> pyval) list" where
  "entries [] a = []"
| "entries (n # ns) a = (case a n of None \<Rightarrow> entries ns a | Some v \<Rightarrow> (PStr n, v) # entries ns a)"

lemma fst_entries: "(k, v) \<in> set (entries ns a) \<Longrightarrow> \<exists>n \<in> set ns. k = PStr n \<and> a n = Some v"
  by (induction ns) (auto split: option.splits)

lemma dict_set_new: "(\<And>k u. (k, u) \<in> set d \<Longrightarrow> \<not> py_eq k x) \<Longrightarrow> dict_set x v d = d @ [(x, v)]"
  by (induction x v d rule: dict_set.induct) auto

lemma getstate_loop_entries:
  assumes "distinct ns" "\<And>n k u. n \<in> set ns \<Longrightarrow> (k, u) \<in> set d \<Longrightarrow> \<not> py_eq k (PStr n)"
  shows "getstate_loop ns a d = d @ entries ns a"
  using assms
proof (induction ns arbitrary: d)
  case (Cons n ns)
  show ?case
  proof (cases "a n")
    case (Some v)
    have "dict_set (PStr n) v d = d @ [(PStr n, v)]" using Cons.prems(2) by (intro dict_set_new) auto
    moreover have "getstate_loop ns a (d @ [(PStr n, v)]) = (d @ [(PStr n, v)]) @ entries ns a"
      using Cons.prems by (intro Cons.IH) auto
    ultimately show ?thesis using Some by simp
  qed (use Cons in simp)
qed simp

lemma dict_get_append: "dict_get k (d @ e) = (case dict_get k d of None \<Rightarrow> dict_get k e | Some v \<Rightarrow> Some v)"
  by (induction k d rule: dict_get.induct) auto

lemma dict_get_entries: "dict_get (PStr n) (entries ns a) = (if n \<in> set ns then a n else None)"
  by (induction ns) (auto split: option.splits)

lemma delete_missing_entries:
  "delete_missing ns d b = (\<lambda>n. if n \<in> set ns \<and> dict_get (PStr n) d = None then None else b n)"
  by (induction ns d b rule: delete_missing.induct) (auto simp: fun_eq_iff)

lemma set_attrs_entries:
  "set ns \<subseteq> set slots \<Longrightarrow>
    set_attrs slots (entries ns a) b = Inr (\<lambda>n. if n \<in> set ns \<and> a n \<noteq> None then a n else b n)"
  by (induction ns arbitrary: b) (auto simp: fun_eq_iff split: option.splits)

lemma setstate_entries:
  assumes "dom a \<subseteq> set (GetAllSlots cls)" "dom b \<subseteq> set (GetAllSlots cls)"
  shows "BaseOpCode_setstate cls (PDict (entries (GetAllSlots cls) a)) b = Inr a"
proof -
  have "a n = None \<and> b n = None" if "n \<notin> set (GetAllSlots cls)" for n using assms that by (auto simp: domIff)
  then show ?thesis
    by (auto simp: BaseOpCode_setstate_def set_attrs_entries delete_missing_entries dict_get_entries fun_eq_iff)
qed

lemma set_defaults_dom: "dom (set_defaults ps a) = dom a \<union> pa_name ` set ps"
  by (induction ps arbitrary: a) auto

lemma slots_of_params: "set (GetAllSlots cls) = pa_name ` set (GetAllParams cls)"
  by (auto simp: GetAllSlots_def GetAllParams_def GetSlots_def)

lemma BaseOpCode_empty: "\<exists>b. BaseOpCode cls [] = Inr b \<and> dom b \<subseteq> set (GetAllSlots cls)"
  by (simp add: BaseOpCode_def set_defaults_dom slots_of_params)

text \<open>C10: an opcode that is written as a dictionary is loaded back as an object of the same class
  with the same attributes, and those that were not set are not set, whatever their
  default values are.\<close>

theorem opcode_roundtrip:
  assumes "distinct (GetAllSlots cls)" "''OP_ID'' \<notin> set (GetAllSlots cls)" "dom a \<subseteq> set (GetAllSlots cls)"
    and "OP_ID cls = Some i" "OP_MAPPING (PStr i) = Some cls"
  shows "LoadOpCode OP_MAPPING (OpCode_getstate cls a) = Inr (cls, a)"
proof -
  let ?e = "entries (GetAllSlots cls) a"
  have e: "BaseOpCode_getstate cls a = ?e" using getstate_loop_entries [OF assms(1), of "[]"] by (simp add: BaseOpCode_getstate_def)
  have "\<not> py_eq k (PStr ''OP_ID'')" if "(k, u) \<in> set ?e" for k u using fst_entries [OF that] assms(2) by auto
  then have d: "OpCode_getstate cls a = PDict (?e @ [(PStr ''OP_ID'', PStr i)])"
    and del: "dict_del (PStr ''OP_ID'') (?e @ [(PStr ''OP_ID'', PStr i)]) = ?e"
    by (auto simp: OpCode_getstate_def e assms(4) dict_set_new dict_del_def filter_id_conv)
  obtain b where "BaseOpCode cls [] = Inr b" "dom b \<subseteq> set (GetAllSlots cls)" using BaseOpCode_empty by blast
  then show ?thesis
    using assms by (simp add: LoadOpCode_def d del dict_get_append dict_get_entries setstate_entries)
qed

lemma demo_slots: "GetAllSlots demo_class = [''duration'', ''dry_run'']"
  by (simp add: GetAllSlots_def GetSlots_def demo_class_def)

theorem opcode_roundtrip_witness:
  "LoadOpCode [PStr ''OP_TEST_DELAY'' \<mapsto> demo_class] (OpCode_getstate demo_class [''duration'' \<mapsto> PFloat 5]) =
     Inr (demo_class, [''duration'' \<mapsto> PFloat 5])"
proof (rule opcode_roundtrip)
  show "OP_ID demo_class = Some ''OP_TEST_DELAY''" by code_simp
qed (simp_all add: demo_slots)

section \<open>Job dependencies\<close>

lemma TMaybe_True: "TMaybe t v = Inr True \<longleftrightarrow> v = PNone \<or> t v = Inr True"
  by (simp add: TMaybe_def TOr_two TNone_def)

lemma TListOf_True: "TListOf t v = Inr True \<longleftrightarrow> (\<exists>vs. v = PList vs \<and> (\<forall>u \<in> set vs. t u = Inr True))"
  by (cases v) (auto simp: TListOf_PList TListOf_other)

lemma TElemOf_frozen_True: "TElemOf (frozen ss) v = Inr True \<longleftrightarrow> (\<exists>s \<in> set ss. unprivate v = PStr s)"
proof -
  have "py_eq v (PStr s) \<longleftrightarrow> unprivate v = PStr s" for s by (rule py_eq_text)
  moreover have "py_hashable v" if "unprivate v = PStr s" for s using that by (induction v rule: unprivate.induct) auto
  ultimately show ?thesis by (auto simp: TElemOf_def frozen_def list_ex_iff split: if_splits)
qed

lemma TAnd_True: "TAnd ts v = Inr True \<longleftrightarrow> (\<forall>t \<in> set ts. t v = Inr True)"
  by (auto simp: TAnd_def)

lemma TItems_two:
  "TIsLength 2 d = Inr True \<and> TItems [s, t] d = Inr True \<longleftrightarrow>
     (\<exists>x y. py_iter d = Inr [x, y] \<and> s x = Inr True \<and> t y = Inr True)"
proof (cases "py_iter d")
  case (Inr xs)
  have "length xs = 2 \<longleftrightarrow> (\<exists>x y. xs = [x, y])" by (auto simp: length_Suc_conv numeral_2_eq_2)
  moreover have "all_res (map2 (\<lambda>t i. t i) [s, t] [x, y]) = Inr True \<longleftrightarrow> s x = Inr True \<and> t y = Inr True" for x y
    by (subst all_res_True) simp
  ultimately show ?thesis unfolding TIsLength_def TItems_def py_len_def Inr by fastforce
qed (simp add: TIsLength_def py_len_def)

lemma list_or_tuple: "TOr [TListOf TAny, TTuple] d = Inr True \<longleftrightarrow> (\<exists>xs. d = PList xs \<or> d = PTuple xs)"
proof -
  have any: "all_res (map TAny xs) = Inr True" for xs by (simp add: TAny_def)
  show ?thesis by (cases d) (auto simp: TOr_two TListOf_PList TListOf_other TTuple_def any simp del: all_res_True)
qed

lemma pair_check:
  "TAnd [TOr [TListOf TAny, TTuple], TIsLength 2, TItems [s, t]] d = Inr True \<longleftrightarrow>
     (\<exists>x y. (d = PList [x, y] \<or> d = PTuple [x, y]) \<and> s x = Inr True \<and> t y = Inr True)"
proof -
  have "TAnd [TOr [TListOf TAny, TTuple], TIsLength 2, TItems [s, t]] d = Inr True \<longleftrightarrow>
      (\<exists>xs. d = PList xs \<or> d = PTuple xs) \<and> TIsLength 2 d = Inr True \<and> TItems [s, t] d = Inr True"
    by (simp add: TAnd_True list_or_tuple)
  then show ?thesis unfolding TItems_two by auto
qed

definition dep_id_ty :: "bool \<Rightarrow> ty" where
  "dep_id_ty relative = (if relative then TyOr TyJobId TyNegativeInt else TyJobId)"

lemma dep_id_check: "(if relative then TOr [TJobId, TRelativeJobId] else TJobId) v = Inr (of_type (dep_id_ty relative) v)"
  using decidesD [OF check_of_decides, of "dep_id_ty relative" v] by (cases relative) (simp_all add: dep_id_ty_def TRelativeJobId_def)

text \<open>Job dependencies are accepted exactly if they are \<^verbatim>\<open>None\<close> or a list of pairs, each a job ID,
  or a relative one where these are allowed, with a list of final job statuses.\<close>

lemma BuildJobDepCheck_accepts:
  "BuildJobDepCheck relative v = Inr True \<longleftrightarrow>
     v = PNone \<or>
     (\<exists>deps. v = PList deps \<and>
        (\<forall>d \<in> set deps. \<exists>job_id statuses.
           (d = PList [job_id, PList statuses] \<or> d = PTuple [job_id, PList statuses]) \<and>
           of_type (dep_id_ty relative) job_id \<and>
           (\<forall>s \<in> set statuses. unprivate s \<in> {PStr ''canceled'', PStr ''success'', PStr ''error''})))"
proof -
  let ?id = "if relative then TOr [TJobId, TRelativeJobId] else TJobId"
  let ?st = "TListOf (TElemOf JOBS_FINALIZED_values)"
  have st: "?st y = Inr True \<longleftrightarrow>
      (\<exists>ss. y = PList ss \<and> (\<forall>s \<in> set ss. unprivate s \<in> {PStr ''canceled'', PStr ''success'', PStr ''error''}))" for y
    by (simp add: TListOf_True JOBS_FINALIZED_values_def TElemOf_frozen_True)
  have "TAnd [TOr [TListOf TAny, TTuple], TIsLength 2, TItems [?id, ?st]] d = Inr True \<longleftrightarrow>
      (\<exists>job_id statuses. (d = PList [job_id, PList statuses] \<or> d = PTuple [job_id, PList statuses]) \<and>
         of_type (dep_id_ty relative) job_id \<and>
         (\<forall>s \<in> set statuses. unprivate s \<in> {PStr ''canceled'', PStr ''success'', PStr ''error''}))" for d
    unfolding pair_check st dep_id_check by blast
  then show ?thesis unfolding BuildJobDepCheck_def Let_def TMaybe_True TListOf_True by blast
qed

text \<open>A status that is a list makes the check raise instead of rejecting the dependencies.\<close>

lemma BuildJobDepCheck_raises:
  "BuildJobDepCheck relative (PList [PTuple [PInt 1, PList [PList []]]]) = Inl TypeError"
proof -
  have "TJobId (PInt 1) = Inr True"
    by (simp add: TJobId_def TOr_two TNonNegativeInt_def TNonNegative_def TAnd_two TInt_def py_cmp_def)
  then have "(if relative then TOr [TJobId, TRelativeJobId] else TJobId) (PInt 1) = Inr True" by (simp add: TOr_two)
  moreover have "TListOf (TElemOf JOBS_FINALIZED_values) (PList [PList []]) = Inl TypeError"
    by (simp add: TListOf_PList TElemOf_def JOBS_FINALIZED_values_def frozen_def)
  ultimately show ?thesis
    by (simp add: BuildJobDepCheck_def Let_def TMaybe_def TOr_two TNone_def TListOf_PList TListOf_other TAnd_def
        TTuple_def TIsLength_def py_len_def TItems_def)
qed

end
