(* ===== verification/Algo.thy ===== *)
theory Algo
  imports Main Ganeti_Prelude "HOL-Library.AList" "HOL-Library.Char_ord" "HOL-Library.List_Lexorder"
    "HOL-Library.Multiset"
begin

text \<open>
  The functions on sequences and dictionaries of \<^verbatim>\<open>lib/utils/algo.py\<close>: duplicates, joining and
  inverting dictionaries, and the sort that compares numbers inside names by value. A
  dictionary is an association list in insertion order; a set that is returned as a list, in
  whatever order, is a set. Lemmas: the sort is the stable sort for a linear order on the keys,
  in which numbered names are ordered by their numbers; what the other functions compute.
\<close>

section \<open>Sequences\<close>

fun unique_loop :: "'a list \<Rightarrow> 'a set \<Rightarrow> 'a list" where
  "unique_loop [] seen = []"
| "unique_loop (i # seq) seen = (if i \<notin> seen then i # unique_loop seq (insert i seen) else unique_loop seq seen)"

definition UniqueSequence :: "'a list \<Rightarrow> 'a list" where
  "UniqueSequence seq = unique_loop seq {}"

fun duplicates_loop :: "'a list \<Rightarrow> 'a set \<Rightarrow> 'a set \<Rightarrow> 'a set" where
  "duplicates_loop [] seen dup = dup"
| "duplicates_loop (x # seq) seen dup =
     (if x \<in> seen then duplicates_loop seq seen (insert x dup) else duplicates_loop seq (insert x seen) dup)"

definition FindDuplicates :: "'a list \<Rightarrow> 'a set" where
  "FindDuplicates seq = duplicates_loop seq {} {}"

text \<open>Slices with Python's negative indices.\<close>

definition slice_pos :: "int \<Rightarrow> nat \<Rightarrow> nat" where
  "slice_pos pos n = (if pos < 0 then nat (int n + pos) else nat pos)"

definition InsertAtPos :: "'a list \<Rightarrow> int \<Rightarrow> 'a list \<Rightarrow> 'a list" where
  "InsertAtPos src pos other =
     take (slice_pos pos (length src)) src @ other @ drop (slice_pos pos (length src)) src"

section \<open>Dictionaries\<close>

type_synonym ('k, 'v) dict = "('k \<times> 'v) list"

text \<open>\<^verbatim>\<open>a.update(b)\<close>, and \<^verbatim>\<open>dict\<close> of a list of pairs.\<close>

definition dict_update :: "('k, 'v) dict \<Rightarrow> ('k \<times> 'v) list \<Rightarrow> ('k, 'v) dict" where
  "dict_update a b = foldl (\<lambda>d (k, v). AList.update k v d) a b"

definition JoinDisjointDicts :: "('k, 'v) dict \<Rightarrow> ('k, 'v) dict \<Rightarrow> ('k, 'v) dict res" where
  "JoinDisjointDicts dict_a dict_b =
     res_bind (check (fst ` set dict_a \<inter> fst ` set dict_b = {}) AssertionError) (\<lambda>_.
     Inr (dict_update dict_a dict_b))"

definition GetRepeatedKeys :: "('k, 'v) dict list \<Rightarrow> 'k set" where
  "GetRepeatedKeys dicts = (if length dicts < 2 then {} else FindDuplicates (concat (map (map fst) dicts)))"

definition InvertDict :: "('k, 'v) dict \<Rightarrow> ('v, 'k) dict" where
  "InvertDict dict_in = dict_update [] (zip (map snd dict_in) (map fst dict_in))"

definition SequenceToDict :: "'a list \<Rightarrow> ('a \<Rightarrow> 'k) \<Rightarrow> ('k, 'a) dict res" where
  "SequenceToDict seq kf =
     (let ks = map kf seq
      in res_bind (check (FindDuplicates ks = {}) ValueError) (\<lambda>_.
         res_bind (check (length ks = length seq) AssertionError) (\<lambda>_.
         Inr (dict_update [] (zip ks seq)))))"

section \<open>Sorting names\<close>

text \<open>
  A key is a list of atoms. \<open>atom_lt\<close> is the comparison of the wrapper class; in comparing
  two lists, Python looks for the first elements that are not equal.
\<close>

datatype nice_atom = ANone | AInt int | AStr string

fun atom_lt :: "nice_atom \<Rightarrow> nice_atom \<Rightarrow> bool" where
  "atom_lt ANone b = True"
| "atom_lt (AInt i) ANone = False"
| "atom_lt (AInt i) (AInt j) = (i < j)"
| "atom_lt (AInt i) (AStr t) = True"
| "atom_lt (AStr s) (AStr t) = (s < t)"
| "atom_lt (AStr s) b = False"

fun key_lt :: "nice_atom list \<Rightarrow> nice_atom list \<Rightarrow> bool" where
  "key_lt [] [] = False"
| "key_lt [] (b # bs) = True"
| "key_lt (a # as) [] = False"
| "key_lt (a # as) (b # bs) = (if a = b then key_lt as bs else atom_lt a b)"

text \<open>
  \<^verbatim>\<open>isdigit\<close> is also true of the superscript digits, which \<^verbatim>\<open>int\<close> does not read.
\<close>

definition is_digit_py :: "char \<Rightarrow> bool" where
  "is_digit_py c \<longleftrightarrow> is_digit_char c \<or> (of_char c :: nat) \<in> {178, 179, 185}"

definition NiceSortGetKey :: "string option \<Rightarrow> nice_atom res" where
  "NiceSortGetKey val =
     (case val of
        None \<Rightarrow> Inr ANone
      | Some s \<Rightarrow>
          if s \<noteq> [] \<and> list_all is_digit_py s
          then (case py_int s of None \<Rightarrow> Inl ValueError | Some i \<Rightarrow> Inr (AInt i))
          else Inr (AStr s))"

definition SORTER_GROUPS :: nat where
  "SORTER_GROUPS = 8"

text \<open>
  The match of \<^verbatim>\<open>_SORTER_RE\<close>: each group takes as many digits, or as many other characters,
  as there are; the rest must not hold a line feed other than at its end.
\<close>

fun sorter_groups :: "nat \<Rightarrow> string \<Rightarrow> string option list \<times> string" where
  "sorter_groups 0 s = ([], s)"
| "sorter_groups (Suc n) [] = (let (gs, r) = sorter_groups n [] in (None # gs, r))"
| "sorter_groups (Suc n) (c # cs) =
     (let same = (\<lambda>d. is_digit_char d = is_digit_char c);
          (gs, r) = sorter_groups n (dropWhile same cs)
      in (Some (c # takeWhile same cs) # gs, r))"

definition sorter_match :: "string \<Rightarrow> string option list res" where
  "sorter_match s =
     (let (gs, r) = sorter_groups SORTER_GROUPS s; line = takeWhile (\<lambda>c. c \<noteq> CHR 0x0A) r
      in if dropWhile (\<lambda>c. c \<noteq> CHR 0x0A) r \<in> {[], [CHR 0x0A]} then Inr (gs @ [Some line]) else Inl AttributeError)"

fun res_map :: "('a \<Rightarrow> 'b res) \<Rightarrow> 'a list \<Rightarrow> 'b list res" where
  "res_map f [] = Inr []"
| "res_map f (x # xs) = res_bind (f x) (\<lambda>y. res_bind (res_map f xs) (\<lambda>ys. Inr (y # ys)))"

definition NiceSortKey :: "string \<Rightarrow> nice_atom list res" where
  "NiceSortKey value = res_bind (sorter_match value) (res_map NiceSortGetKey)"

text \<open>\<^verbatim>\<open>sorted\<close> is stable and only uses the less-than comparison of the keys.\<close>

fun sort_insert :: "('k \<Rightarrow> 'k \<Rightarrow> bool) \<Rightarrow> 'k \<times> 'a \<Rightarrow> ('k \<times> 'a) list \<Rightarrow> ('k \<times> 'a) list" where
  "sort_insert lt x [] = [x]"
| "sort_insert lt x (y # ys) = (if lt (fst y) (fst x) then y # sort_insert lt x ys else x # y # ys)"

definition py_sorted :: "('k \<Rightarrow> 'k \<Rightarrow> bool) \<Rightarrow> ('k \<times> 'a) list \<Rightarrow> 'a list" where
  "py_sorted lt xs = map snd (foldr (sort_insert lt) xs [])"

definition NiceSort :: "('a \<Rightarrow> string) \<Rightarrow> 'a list \<Rightarrow> 'a list res" where
  "NiceSort kf values =
     res_bind (res_map (\<lambda>v. NiceSortKey (kf v)) values) (\<lambda>ks. Inr (py_sorted key_lt (zip ks values)))"

section \<open>Nested dictionaries\<close>

datatype 'v nested = Leaf 'v | Node "(string \<times> 'v nested) list"

text \<open>
  Tuples of a list of keys and a value are sorted: two tuples with the same keys and different
  values cannot be compared, since the values are dictionaries. Taking the first key off
  an empty list is an error.
\<close>

definition flat_sorted :: "(string list \<times> 'v) list \<Rightarrow> (string list \<times> 'v) list res" where
  "flat_sorted data =
     (if \<exists>x \<in> set data. \<exists>y \<in> set data. fst x = fst y \<and> snd x \<noteq> snd y then Inl TypeError
      else Inr (sort_key fst data))"

fun group_by_first :: "(string list \<times> 'v) list \<Rightarrow> (string \<times> (string list \<times> 'v) list) list res" where
  "group_by_first [] = Inr []"
| "group_by_first (([], v) # data) = Inl IndexError"
| "group_by_first ((k # ks, v) # data) =
     res_bind (group_by_first data) (\<lambda>gs.
       case gs of
         (k', g) # gs' \<Rightarrow> Inr (if k' = k then (k, (ks, v) # g) # gs' else (k, [(ks, v)]) # gs)
       | [] \<Rightarrow> Inr [(k, [(ks, v)])])"

section \<open>Sequences and dictionaries: what is computed\<close>

lemma unique_loop_props:
  "distinct (unique_loop xs seen) \<and> set (unique_loop xs seen) = set xs - seen"
  by (induction xs arbitrary: seen) auto

lemma UniqueSequence_set: "set (UniqueSequence xs) = set xs"
  by (simp add: UniqueSequence_def unique_loop_props)

lemma UniqueSequence_distinct: "distinct (UniqueSequence xs)"
  by (simp add: UniqueSequence_def unique_loop_props)

lemma duplicates_loop_set:
  "dup \<subseteq> seen \<Longrightarrow> duplicates_loop xs seen dup = dup \<union> {x. x \<in> set xs \<and> (x \<in> seen \<or> 2 \<le> count_list xs x)}"
proof (induction xs arbitrary: seen dup)
  case (Cons y xs)
  have c: "2 \<le> count_list (y # xs) x \<longleftrightarrow> (if x = y then y \<in> set xs else 2 \<le> count_list xs x)" for x
    using count_list_0_iff [of xs y] by auto
  show ?case
  proof (cases "y \<in> seen")
    case True
    then have "duplicates_loop (y # xs) seen dup = insert y dup \<union> {x. x \<in> set xs \<and> (x \<in> seen \<or> 2 \<le> count_list xs x)}"
      using Cons.IH [of "insert y dup" seen] Cons.prems by simp
    then show ?thesis using True c by (auto split: if_splits)
  next
    case False
    then have "duplicates_loop (y # xs) seen dup = dup \<union> {x. x \<in> set xs \<and> (x \<in> insert y seen \<or> 2 \<le> count_list xs x)}"
      using Cons.IH [of dup "insert y seen"] Cons.prems by auto
    then show ?thesis using False c by (auto split: if_splits)
  qed
qed simp

lemma FindDuplicates_count: "FindDuplicates xs = {x. 2 \<le> count_list xs x}"
proof -
  have "x \<in> set xs" if "2 \<le> count_list xs x" for x
    using that count_notin [of x xs] by (metis not_numeral_le_zero)
  then show ?thesis using duplicates_loop_set [of "{}" "{}" xs] by (auto simp: FindDuplicates_def)
qed

lemma distinct_count_list: "distinct xs \<longleftrightarrow> (\<forall>x. \<not> 2 \<le> count_list xs x)"
proof (induction xs)
  case (Cons y xs)
  have "2 \<le> count_list (y # xs) x \<longleftrightarrow> (if x = y then y \<in> set xs else 2 \<le> count_list xs x)" for x
    using count_list_0_iff [of xs y] by auto
  moreover have "y \<in> set xs \<or> \<not> 2 \<le> count_list xs y" using count_notin [of y xs] by fastforce
  ultimately show ?case using Cons by (metis distinct.simps(2))
qed simp

lemma FindDuplicates_empty: "FindDuplicates xs = {} \<longleftrightarrow> distinct xs"
  by (auto simp: FindDuplicates_count distinct_count_list)

lemma dict_update_map_of: "map_of (dict_update a b) = map_of a ++ map_of (rev b)"
proof (induction b arbitrary: a)
  case (Cons x b)
  obtain k v where x: "x = (k, v)" by (cases x)
  have "map_of (dict_update a (x # b)) = map_of (AList.update k v a) ++ map_of (rev b)"
    using Cons [of "AList.update k v a"] by (simp add: dict_update_def x)
  then show ?case by (auto simp: x update_conv' map_add_def fun_eq_iff split: option.splits)
qed (simp add: dict_update_def)

lemma dict_update_distinct: "distinct (map fst a) \<Longrightarrow> distinct (map fst (dict_update a b))"
  by (induction b arbitrary: a) (auto simp: dict_update_def distinct_update)

lemma map_of_rev_distinct: "distinct (map fst xs) \<Longrightarrow> map_of (rev xs) = map_of xs"
proof (rule ext)
  fix k assume "distinct (map fst xs)"
  then have "map_of (rev xs) k = Some v \<longleftrightarrow> map_of xs k = Some v" for v
    by (simp add: rev_map [symmetric])
  then show "map_of (rev xs) k = map_of xs k" by (metis not_None_eq)
qed

text \<open>Joining needs disjoint keys, and then gives each entry of either dictionary.\<close>

lemma JoinDisjointDicts_outcome:
  assumes "distinct (map fst b)"
  shows "case JoinDisjointDicts a b of
      Inr d \<Rightarrow> dom (map_of a) \<inter> dom (map_of b) = {} \<and> map_of d = map_of a ++ map_of b
    | Inl e \<Rightarrow> e = AssertionError \<and> dom (map_of a) \<inter> dom (map_of b) \<noteq> {}"
  using map_of_rev_distinct [OF assms]
  by (cases "fst ` set a \<inter> fst ` set b = {}") (auto simp: JoinDisjointDicts_def dict_update_map_of dom_map_of_conv_image_fst)

lemma InvertDict_map_of:
  assumes "distinct (map fst d)" "distinct (map snd d)"
  shows "map_of (InvertDict d) v = Some k \<longleftrightarrow> map_of d k = Some v"
proof -
  have z: "set (zip (map snd d) (map fst d)) = prod.swap ` set d" "map fst (zip (map snd d) (map fst d)) = map snd d"
    by (force simp: zip_map_map zip_same_conv_map prod.swap_def)+
  have "map_of (InvertDict d) = map_of (zip (map snd d) (map fst d))"
    using map_of_rev_distinct [of "zip (map snd d) (map fst d)"] assms(2) by (simp add: InvertDict_def dict_update_map_of z)
  moreover have "map_of (zip (map snd d) (map fst d)) v = Some k \<longleftrightarrow> (v, k) \<in> set (zip (map snd d) (map fst d))"
    using assms(2) by (intro map_of_eq_Some_iff) (simp add: z)
  moreover have "(v, k) \<in> prod.swap ` set d \<longleftrightarrow> (k, v) \<in> set d" by (metis image_iff prod.swap_def swap_simp swap_swap)
  ultimately show ?thesis using assms(1) by (simp add: z)
qed

lemma SequenceToDict_outcome:
  "case SequenceToDict seq kf of
     Inr d \<Rightarrow> distinct (map kf seq) \<and> (\<forall>x \<in> set seq. map_of d (kf x) = Some x) \<and> dom (map_of d) = kf ` set seq
   | Inl e \<Rightarrow> e = ValueError \<and> \<not> distinct (map kf seq)"
proof (cases "distinct (map kf seq)")
  case True
  have z: "zip (map kf seq) seq = map (\<lambda>x. (kf x, x)) seq" by (simp add: zip_map1 zip_same_conv_map)
  have "map_of (dict_update [] (zip (map kf seq) seq)) = map_of (map (\<lambda>x. (kf x, x)) seq)"
    using map_of_rev_distinct [of "map (\<lambda>x. (kf x, x)) seq"] True by (simp add: dict_update_map_of z comp_def)
  moreover have "map_of (map (\<lambda>x. (kf x, x)) seq) (kf x) = Some x" if "x \<in> set seq" for x
    using True that by (intro map_of_is_SomeI) (auto simp: comp_def)
  ultimately show ?thesis
    using True by (auto simp: SequenceToDict_def Let_def FindDuplicates_empty dom_map_of_conv_image_fst image_image)
qed (simp add: SequenceToDict_def Let_def FindDuplicates_empty)

lemma InsertAtPos_inside:
  "0 \<le> pos \<Longrightarrow> pos \<le> int (length src) \<Longrightarrow>
    length (InsertAtPos src pos other) = length src + length other \<and>
    take (nat pos) (InsertAtPos src pos other) = take (nat pos) src \<and>
    drop (nat pos + length other) (InsertAtPos src pos other) = drop (nat pos) src"
  by (auto simp: InsertAtPos_def slice_pos_def min_def)

section \<open>The order of the keys\<close>

text \<open>\<open>atom_lt\<close> is not irreflexive on \<open>ANone\<close>, but equal atoms are never compared.\<close>

instantiation nice_atom :: linorder
begin

definition less_eq_nice_atom :: "nice_atom \<Rightarrow> nice_atom \<Rightarrow> bool" where
  "less_eq_nice_atom a b \<longleftrightarrow> a = b \<or> atom_lt a b"

definition less_nice_atom :: "nice_atom \<Rightarrow> nice_atom \<Rightarrow> bool" where
  "less_nice_atom a b \<longleftrightarrow> a \<noteq> b \<and> atom_lt a b"

instance
proof
  fix a b c :: nice_atom
  show "(a < b) = (a \<le> b \<and> \<not> b \<le> a)"
    by (cases a; cases b) (auto simp: less_nice_atom_def less_eq_nice_atom_def)
  show "a \<le> a" by (simp add: less_eq_nice_atom_def)
  show "a \<le> c" if "a \<le> b" "b \<le> c"
    using that by (cases a; cases b; cases c) (auto simp: less_eq_nice_atom_def)
  show "a = b" if "a \<le> b" "b \<le> a"
    using that by (cases a; cases b) (auto simp: less_eq_nice_atom_def)
  show "a \<le> b \<or> b \<le> a"
    by (cases a; cases b) (auto simp: less_eq_nice_atom_def)
qed

end

lemma key_lt_less: "key_lt as bs \<longleftrightarrow> as < bs"
  by (induction as bs rule: key_lt.induct) (auto simp: less_nice_atom_def)

lemma sort_insert_insort: "sort_insert (<) x ys = insort_key fst x ys"
  by (induction ys) (auto simp: not_le)

lemma insort_key_map: "insort_key f (g x) (map g ys) = map g (insort_key (\<lambda>y. f (g y)) x ys)"
  by (induction ys) auto

lemma sort_key_map: "sort_key f (map g xs) = map g (sort_key (\<lambda>x. f (g x)) xs)"
  by (induction xs) (auto simp: insort_key_map)

lemma py_sorted_key:
  fixes K :: "'a \<Rightarrow> 'k :: linorder"
  shows "py_sorted (<) (map (\<lambda>v. (K v, v)) vs) = sort_key K vs"
proof -
  have "foldr (sort_insert (<)) xs [] = sort_key fst xs" for xs :: "('k \<times> 'a) list"
    by (induction xs) (auto simp: sort_insert_insort)
  then show ?thesis by (simp add: py_sorted_def sort_key_map comp_def)
qed

lemma res_map_Inr: "res_map f xs = Inr ys \<longleftrightarrow> list_all2 (\<lambda>x y. f x = Inr y) xs ys"
  by (induction xs arbitrary: ys) (auto simp: res_simps list_all2_Cons1)

lemma res_map_Inl: "res_map f xs = Inl e \<Longrightarrow> \<exists>x \<in> set xs. f x = Inl e"
  by (induction xs) (auto simp: res_simps)

lemma res_map_total: "(\<And>x. x \<in> set xs \<Longrightarrow> f x = Inr (g x)) \<Longrightarrow> res_map f xs = Inr (map g xs)"
  by (induction xs) auto

lemma NiceSort_sort_key:
  assumes "\<And>v. v \<in> set vs \<Longrightarrow> NiceSortKey (kf v) = Inr (K v)"
  shows "NiceSort kf vs = Inr (sort_key K vs)"
proof -
  have "key_lt = (<)" by (intro ext) (rule key_lt_less)
  moreover have "zip (map K vs) vs = map (\<lambda>v. (K v, v)) vs" by (simp add: zip_map1 zip_same_conv_map)
  ultimately show ?thesis
    using res_map_total [of vs "\<lambda>v. NiceSortKey (kf v)" K] assms by (simp add: NiceSort_def py_sorted_key)
qed

section \<open>Numbered names\<close>

definition plain :: "string \<Rightarrow> bool" where
  "plain p \<longleftrightarrow> p \<noteq> [] \<and> list_all (\<lambda>c. \<not> is_digit_py c) p"

lemma sorter_groups_empty: "sorter_groups n [] = (replicate n None, [])"
  by (induction n) auto

lemma nat_str_all_digits: "list_all is_digit_char (nat_str n)"
  by (auto simp: list_all_iff intro: nat_str_digits)

lemma sorter_groups_digits:
  assumes "ds \<noteq> []" "list_all is_digit_char ds"
  shows "sorter_groups (Suc n) ds = (Some ds # replicate n None, [])"
proof -
  obtain c cs where ds: "ds = c # cs" using assms(1) by (cases ds) auto
  then have w: "takeWhile (\<lambda>d. is_digit_char d = is_digit_char c) cs = cs" "dropWhile (\<lambda>d. is_digit_char d = is_digit_char c) cs = []"
    using assms(2) by (auto simp: list_all_iff takeWhile_eq_all_conv)
  show ?thesis unfolding ds sorter_groups.simps Let_def w by (simp add: sorter_groups_empty)
qed

lemma sorter_groups_plain:
  assumes "plain p" "ds \<noteq> []" "list_all is_digit_char ds"
  shows "sorter_groups (Suc (Suc n)) (p @ ds) = (Some p # Some ds # replicate n None, [])"
proof -
  obtain c cs where p: "p = c # cs" using assms(1) by (cases p) (auto simp: plain_def)
  let ?same = "\<lambda>d. is_digit_char d = is_digit_char c"
  have nd: "\<not> is_digit_char d" if "d \<in> set p" for d using assms(1) that by (auto simp: plain_def is_digit_py_def list_all_iff)
  have d: "is_digit_char (hd ds)" using assms(2,3) by (cases ds) auto
  have "takeWhile ?same (cs @ ds) = cs" "dropWhile ?same (cs @ ds) = ds"
    using nd d assms(2) by (auto simp: p takeWhile_append dropWhile_append takeWhile_eq_Nil_iff dropWhile_eq_Nil_conv)
      (metis hd_conv_nth dropWhile.simps list.collapse)+
  then show ?thesis using sorter_groups_digits [OF assms(2,3), of n] by (simp add: p Let_def)
qed

definition numbered_key :: "string \<Rightarrow> nat \<Rightarrow> nice_atom list" where
  "numbered_key p n = AStr p # AInt (int n) # replicate 6 ANone @ [AStr []]"

lemma NiceSortKey_numbered:
  assumes "plain p"
  shows "NiceSortKey (p @ nat_str n) = Inr (numbered_key p n)"
proof -
  have "sorter_groups SORTER_GROUPS (p @ nat_str n) = (Some p # Some (nat_str n) # replicate 6 None, [])"
    using sorter_groups_plain [OF assms nat_str_nonempty nat_str_all_digits, of 6 n] by (simp add: SORTER_GROUPS_def)
  then have m: "sorter_match (p @ nat_str n) = Inr (Some p # Some (nat_str n) # replicate 6 None @ [Some []])"
    by (simp add: sorter_match_def)
  have "NiceSortGetKey (Some p) = Inr (AStr p)"
    using assms by (cases p) (auto simp: NiceSortGetKey_def plain_def)
  moreover have "NiceSortGetKey (Some (nat_str n)) = Inr (AInt (int n))"
    using nat_str_all_digits [of n] by (auto simp: NiceSortGetKey_def is_digit_py_def list_all_iff)
  moreover have "res_map NiceSortGetKey (replicate k None @ [Some []]) = Inr (replicate k ANone @ [AStr []])" for k
    by (induction k) (auto simp: NiceSortGetKey_def)
  ultimately show ?thesis by (simp add: NiceSortKey_def m numbered_key_def)
qed

lemma numbered_key_lt: "key_lt (numbered_key p m) (numbered_key p n) \<longleftrightarrow> m < n"
proof -
  have "\<not> key_lt xs xs" for xs by (simp add: key_lt_less)
  then show ?thesis by (simp add: numbered_key_def)
qed



text \<open>A name that is a superscript digit cannot be sorted.\<close>

lemma superscript_raises: "NiceSort id [[CHR 0xB2]] = Inl ValueError"
  by code_simp

section \<open>From flat to nested dictionaries\<close>

lemma res_map_cong [fundef_cong]:
  "xs = ys \<Longrightarrow> (\<And>x. x \<in> set ys \<Longrightarrow> f x = g x) \<Longrightarrow> res_map f xs = res_map g ys"
proof -
  show "res_map f xs = res_map g ys" if "xs = ys" "\<And>x. x \<in> set ys \<Longrightarrow> f x = g x"
    unfolding that(1) using that(2) by (induction ys) auto
qed

definition keys_size :: "(string list \<times> 'v) list \<Rightarrow> nat" where
  "keys_size data = (\<Sum>(ks, _) \<leftarrow> data. length ks)"

lemma keys_size_sorted: "keys_size (sort_key f data) = keys_size data"
proof -
  have "mset (map (\<lambda>(ks, _). length ks) (sort_key f data)) = mset (map (\<lambda>(ks, _). length ks) data)" by simp
  then show ?thesis unfolding keys_size_def by (metis sum_mset_sum_list)
qed

text \<open>The groups hold the entries without their first keys, in order.\<close>

lemma group_by_first_entries:
  assumes "group_by_first data = Inr gs"
  shows "concat (map (\<lambda>(k, g). map (\<lambda>(ks, v). (k # ks, v)) g) gs) = data \<and> (\<forall>(k, g) \<in> set gs. g \<noteq> [])"
  using assms
proof (induction data arbitrary: gs rule: group_by_first.induct)
  case (3 k ks v data)
  then obtain hs where hs: "group_by_first data = Inr hs" by (auto simp: res_simps)
  note IH = "3.IH" [OF hs]
  show ?case
  proof (cases hs)
    case Nil
    then show ?thesis using IH hs "3.prems" by auto
  next
    case (Cons h hs')
    obtain k' g where h: "h = (k', g)" by (cases h)
    show ?thesis using IH hs "3.prems" by (cases "k' = k") (auto simp: Cons h)
  qed
qed simp_all

lemma keys_size_append: "keys_size (xs @ ys) = keys_size xs + keys_size ys"
  by (simp add: keys_size_def)

lemma keys_size_group: "keys_size (map (\<lambda>(ks, v). (k # ks, v)) g) = keys_size g + length g"
  by (induction g) (auto simp: keys_size_def)

lemma group_smaller:
  assumes "group_by_first data = Inr gs" "(k, g) \<in> set gs"
  shows "keys_size g < keys_size data"
proof -
  obtain xs ys where gs: "gs = xs @ (k, g) # ys" using assms(2) by (meson split_list)
  have "g \<noteq> []" using group_by_first_entries [OF assms(1)] assms(2) by auto
  moreover have "keys_size data = keys_size (concat (map (\<lambda>(k, g). map (\<lambda>(ks, v). (k # ks, v)) g) gs))"
    using group_by_first_entries [OF assms(1)] by simp
  ultimately show ?thesis by (simp add: gs keys_size_append keys_size_group)
qed

function MakeFlatToDict :: "(string list \<times> 'v) list \<Rightarrow> 'v nested res" where
  "MakeFlatToDict [] = Inl IndexError"
| "MakeFlatToDict (([], v) # data) = (if data = [] then Inr (Leaf v) else Inl AssertionError)"
| "MakeFlatToDict ((k # ks, v) # data) =
     res_bind (flat_sorted ((k # ks, v) # data)) (\<lambda>data'.
     res_bind (group_by_first data') (\<lambda>gs.
     res_bind (res_map (\<lambda>(k, g). res_bind (MakeFlatToDict g) (\<lambda>t. Inr (k, t))) gs) (\<lambda>kts.
     Inr (Node (dict_update [] kts)))))"
  by pat_completeness auto

termination
proof (relation "measure keys_size")
  fix k ks and v :: 'v and data data' gs x k' g
  assume "flat_sorted ((k # ks, v) # data) = Inr data'" "group_by_first data' = Inr gs" "x \<in> set gs" "(k', g) = x"
  then show "(g, (k # ks, v) # data) \<in> measure keys_size"
    using group_smaller [of data' gs k' g] keys_size_sorted [of fst "(k # ks, v) # data"]
    by (auto simp: flat_sorted_def split: if_splits simp del: sort_key_simps)
qed simp

definition FlatToDict :: "char \<Rightarrow> (string \<times> 'v) list \<Rightarrow> 'v nested res" where
  "FlatToDict field_sep data = MakeFlatToDict (map (\<lambda>(ks, v). (split_char field_sep ks, v)) data)"

fun nested_get :: "'v nested \<Rightarrow> string list \<Rightarrow> 'v option" where
  "nested_get (Leaf v) [] = Some v"
| "nested_get (Leaf v) (k # ks) = None"
| "nested_get (Node d) [] = None"
| "nested_get (Node d) (k # ks) = (case map_of d k of None \<Rightarrow> None | Some t \<Rightarrow> nested_get t ks)"

text \<open>Sorting brings equal first keys together.\<close>

lemma group_keys_sorted:
  assumes "group_by_first data = Inr gs" "sorted (map fst data)"
  shows "sorted_wrt (<) (map fst gs) \<and> (\<forall>k \<in> fst ` set gs. \<exists>x \<in> set data. hd (fst x) = k \<and> fst x \<noteq> [])"
  using assms
proof (induction data arbitrary: gs rule: group_by_first.induct)
  case (3 k ks v data)
  obtain hs where hs: "group_by_first data = Inr hs" using "3.prems"(1) by (auto simp: res_simps)
  have IH: "sorted_wrt (<) (map fst hs)" "\<forall>k \<in> fst ` set hs. \<exists>x \<in> set data. hd (fst x) = k \<and> fst x \<noteq> []"
    using "3.IH" [OF hs] "3.prems"(2) by auto
  have le: "k \<le> k'" if k': "k' \<in> fst ` set hs" for k'
  proof -
    obtain x where x: "x \<in> set data" "hd (fst x) = k'" "fst x \<noteq> []" using IH(2) k' by blast
    have "k # ks \<le> fst x" using "3.prems"(2) x(1) by auto
    then have "k # ks \<le> hd (fst x) # tl (fst x)" using x(3) by simp
    then show ?thesis using x(2) by (auto simp: Cons_le_Cons)
  qed
  show ?case
  proof (cases hs)
    case Nil
    then show ?thesis using hs "3.prems"(1) by auto
  next
    case (Cons h hs')
    obtain k' g where h: "h = (k', g)" by (cases h)
    show ?thesis
    proof (cases "k' = k")
      case True
      then show ?thesis using hs "3.prems"(1) IH by (auto simp: Cons h)
    next
      case False
      then have gs: "gs = (k, [(ks, v)]) # hs" using hs "3.prems"(1) by (auto simp: Cons h)
      have "k < k'" using le [of k'] False by (simp add: Cons h)
      then have "\<forall>x \<in> fst ` set hs. k < x" using IH(1) by (auto simp: Cons h intro: less_trans)
      then show ?thesis using IH by (auto simp: gs)
    qed
  qed
qed simp_all

lemma in_group: "(ks, v) \<in> (\<lambda>(ks, v). (k # ks, v)) ` set g \<longleftrightarrow> (\<exists>ks'. ks = k # ks' \<and> (ks', v) \<in> set g)"
  by (induction g) auto

lemma in_groups:
  "(ks, v) \<in> set (concat (map (\<lambda>(k, g). map (\<lambda>(ks, v). (k # ks, v)) g) gs)) \<longleftrightarrow>
     (\<exists>k g ks'. (k, g) \<in> set gs \<and> ks = k # ks' \<and> (ks', v) \<in> set g)"
proof (induction gs)
  case (Cons h gs)
  obtain k g where h: "h = (k, g)" by (cases h)
  show ?case using Cons in_group [of ks v k g] by (auto simp: h)
qed simp

lemma group_entry:
  assumes "group_by_first data = Inr gs"
  shows "(ks, v) \<in> set data \<longleftrightarrow> (\<exists>k g ks'. (k, g) \<in> set gs \<and> ks = k # ks' \<and> (ks', v) \<in> set g)"
  using in_groups [of ks v gs] group_by_first_entries [OF assms] by simp

text \<open>If the conversion of a flat structure succeeds, following the parts of a key in the nested
  dictionary gives exactly the values that the flat structure has for the key.\<close>

lemma MakeFlatToDict_get: "MakeFlatToDict data = Inr t \<Longrightarrow> nested_get t ks = Some v \<longleftrightarrow> (ks, v) \<in> set data"
proof (induction data arbitrary: t ks v rule: MakeFlatToDict.induct)
  case (2 w data)
  then have "data = []" "t = Leaf w" by (auto split: if_splits)
  then show ?case by (cases ks) auto
next
  case (3 k1 ks1 v1 data)
  let ?data = "(k1 # ks1, v1) # data"
  obtain data' gs kts where d: "flat_sorted ?data = Inr data'" "group_by_first data' = Inr gs"
      "res_map (\<lambda>(k, g). res_bind (MakeFlatToDict g) (\<lambda>t. Inr (k, t))) gs = Inr kts" "t = Node (dict_update [] kts)"
    using "3.prems" by (auto simp: res_simps simp del: res_map.simps)
  have data': "data' = sort_key fst ?data" using d(1) by (simp add: flat_sorted_def split: if_splits)
  have sorted: "sorted_wrt (<) (map fst gs)"
    using group_keys_sorted [OF d(2)] sorted_sort_key [of fst ?data] unfolding data' by blast
  have set: "set data' = set ?data" unfolding data' by (rule set_sort)
  have kts: "list_all2 (\<lambda>(k, g) (k', t). k' = k \<and> MakeFlatToDict g = Inr t) gs kts"
    using d(3) unfolding res_map_Inr by (auto simp: res_simps elim!: list_all2_mono)
  then have keys: "map fst kts = map fst gs" by (induction rule: list_all2_induct) auto
  have "distinct (map fst kts)" unfolding keys using sorted by (simp add: strict_sorted_iff)
  then have get: "map_of (dict_update [] kts) k = Some u \<longleftrightarrow> (k, u) \<in> set kts" for k u
    by (simp add: dict_update_map_of map_of_rev_distinct)
  show ?case
  proof (cases ks)
    case Nil
    then show ?thesis using group_entry [OF d(2), of "[]" v] set by (simp add: d(4))
  next
    case (Cons k ks')
    have "nested_get t ks = Some v \<longleftrightarrow> (\<exists>u. (k, u) \<in> set kts \<and> nested_get u ks' = Some v)"
      unfolding get [symmetric] by (simp add: d(4) Cons split: option.split)
    also have "\<dots> \<longleftrightarrow> (\<exists>g. (k, g) \<in> set gs \<and> (ks', v) \<in> set g)"
    proof -
      have IH: "nested_get u ks' = Some v \<longleftrightarrow> (ks', v) \<in> set g" if "(k, g) \<in> set gs" "MakeFlatToDict g = Inr u" for g u
        using "3.IH" [OF d(1,2) that(1) refl that(2)] .
      have "(k, u) \<in> set kts \<Longrightarrow> \<exists>g. (k, g) \<in> set gs \<and> MakeFlatToDict g = Inr u" for u
        using kts by (fastforce simp: list_all2_conv_all_nth in_set_conv_nth)
      moreover have "(k, g) \<in> set gs \<Longrightarrow> \<exists>u. (k, u) \<in> set kts \<and> MakeFlatToDict g = Inr u" for g
        using kts by (fastforce simp: list_all2_conv_all_nth in_set_conv_nth)
      ultimately show ?thesis using IH by blast
    qed
    also have "\<dots> \<longleftrightarrow> (ks, v) \<in> set ?data" using group_entry [OF d(2), of ks v] set by (auto simp: Cons)
    finally show ?thesis .
  qed
qed simp

lemma FlatToDict_get:
  "FlatToDict sep data = Inr t \<Longrightarrow>
    nested_get t ks = Some v \<longleftrightarrow> (\<exists>k. split_char sep k = ks \<and> (k, v) \<in> set data)"
  using MakeFlatToDict_get [of "map (\<lambda>(ks, v). (split_char sep ks, v)) data" t ks v] by (auto simp: FlatToDict_def)

end
