(* ===== verification/Query.thy ===== *)
theory Query
  imports Ht Algo
begin

text \<open>
  Queries: the filters of \<^verbatim>\<open>lib/query.py\<close> are compiled to functions on items, with hints that
  tell the caller which items it need not collect; the class \<^verbatim>\<open>Query\<close> runs the compiled filter
  over the items, collects the rows and sorts them by name. \<^verbatim>\<open>lib/qlang.py\<close> builds simple
  filters. The fields of a query, with the functions that read them from the
  caller's data, are arguments, as are the regular expressions of the standard library (\<open>re\<close>
  gives for a pattern the texts in which it is found) and \<^verbatim>\<open>str\<close> of values that are neither
  texts nor integers (\<open>str_fn\<close>). Letter case is that of ASCII. Lemmas: leaving out the items
  that the hints exclude does not change the result of a query; the rows are those
  of the items that match, stably sorted by the keys of their names.
\<close>

section \<open>Fields\<close>

datatype qft = QFT_UNKNOWN | QFT_TEXT | QFT_BOOL | QFT_NUMBER | QFT_NUMBER_FLOAT | QFT_UNIT | QFT_TIMESTAMP | QFT_OTHER

text \<open>What reading a field gives: one of the objects for a special status, or a value.\<close>

datatype fval = FS_UNKNOWN | FS_NODATA | FS_UNAVAIL | FS_OFFLINE | FVal pyval

record ('c, 'i) qfield =
  fd_name :: string
  fd_title :: string
  fd_kind :: qft
  fd_doc :: string
  fd_datakind :: "nat option"
  fd_flags :: nat
  fd_fn :: "'c \<Rightarrow> 'i \<Rightarrow> fval res"

type_synonym ('c, 'i) fielddefs = "(string \<times> ('c, 'i) qfield) list"

definition QFF_HOSTNAME :: nat where "QFF_HOSTNAME = 1"
definition QFF_IP_ADDRESS :: nat where "QFF_IP_ADDRESS = 2"
definition QFF_JOB_ID :: nat where "QFF_JOB_ID = 4"
definition QFF_SPLIT_TIMESTAMP :: nat where "QFF_SPLIT_TIMESTAMP = 8"

definition QFF_ALL :: nat where
  "QFF_ALL = QFF_HOSTNAME OR QFF_IP_ADDRESS OR QFF_JOB_ID OR QFF_SPLIT_TIMESTAMP"

fun VERIFY_FN :: "qft \<Rightarrow> check_fn" where
  "VERIFY_FN QFT_UNKNOWN = TNone"
| "VERIFY_FN QFT_TEXT = TString"
| "VERIFY_FN QFT_BOOL = TBool"
| "VERIFY_FN QFT_NUMBER = TInt"
| "VERIFY_FN QFT_NUMBER_FLOAT = TFloat"
| "VERIFY_FN QFT_UNIT = TInt"
| "VERIFY_FN QFT_TIMESTAMP = TNumber"
| "VERIFY_FN QFT_OTHER = (\<lambda>_. Inr True)"

definition GetUnknownField :: "'c \<Rightarrow> 'i \<Rightarrow> fval res" where
  "GetUnknownField ctx item = Inr FS_UNKNOWN"

definition unknown_field :: "string \<Rightarrow> ('c, 'i) qfield" where
  "unknown_field name =
     \<lparr>fd_name = name, fd_title = name, fd_kind = QFT_UNKNOWN, fd_doc = ''Unknown field '' @ [CHR 0x27] @ name @ [CHR 0x27],
      fd_datakind = None, fd_flags = 0, fd_fn = GetUnknownField\<rparr>"

definition GetQueryFields :: "('c, 'i) fielddefs \<Rightarrow> string list \<Rightarrow> ('c, 'i) qfield list" where
  "GetQueryFields fielddefs selected =
     map (\<lambda>name. case map_of fielddefs name of Some f \<Rightarrow> f | None \<Rightarrow> unknown_field name) selected"

section \<open>Hints\<close>

record hints =
  fh_namefield :: string
  fh_allnames :: bool
  fh_names :: "pyval list option"
  fh_datakinds :: "nat set"

definition FilterHints :: "string \<Rightarrow> hints" where
  "FilterHints namefield = \<lparr>fh_namefield = namefield, fh_allnames = False, fh_names = None, fh_datakinds = {}\<rparr>"

text \<open>\<^verbatim>\<open>utils.UniqueSequence\<close> on Python values, which must be hashable.\<close>

fun unique_values :: "pyval list \<Rightarrow> pyval list \<Rightarrow> pyval list res" where
  "unique_values [] seen = Inr []"
| "unique_values (v # vs) seen =
     (if \<not> py_hashable v then Inl TypeError
      else if list_ex (py_eq v) seen then unique_values vs seen
      else res_bind (unique_values vs (seen @ [v])) (\<lambda>us. Inr (v # us)))"

definition Hints_RequestedNames :: "hints \<Rightarrow> pyval list option res" where
  "Hints_RequestedNames h =
     (case fh_names h of
        None \<Rightarrow> Inr None
      | Some vs \<Rightarrow> if fh_allnames h then Inr None else res_bind (unique_values vs []) (\<lambda>us. Inr (Some us)))"

definition NeedAllNames :: "hints \<Rightarrow> hints" where
  "NeedAllNames h = h\<lparr>fh_allnames := True, fh_names := None\<rparr>"

definition note_datakind :: "nat option \<Rightarrow> hints \<Rightarrow> hints" where
  "note_datakind datakind h =
     (case datakind of None \<Rightarrow> h | Some k \<Rightarrow> h\<lparr>fh_datakinds := insert k (fh_datakinds h)\<rparr>)"

definition NoteLogicOp :: "string \<Rightarrow> hints \<Rightarrow> hints" where
  "NoteLogicOp op h = (if op \<noteq> ''|'' then NeedAllNames h else h)"

definition NoteUnaryOp :: "nat option \<Rightarrow> hints \<Rightarrow> hints" where
  "NoteUnaryOp datakind h = NeedAllNames (note_datakind datakind h)"

definition NoteBinaryOp :: "string \<Rightarrow> nat option \<Rightarrow> string \<Rightarrow> pyval \<Rightarrow> hints \<Rightarrow> hints" where
  "NoteBinaryOp op datakind name v h =
     (let h = note_datakind datakind h
      in if fh_allnames h then h
         else if op \<in> {''=='', ''=''} \<and> name = fh_namefield h
         then h\<lparr>fh_names := Some ((case fh_names h of None \<Rightarrow> [] | Some vs \<Rightarrow> vs) @ [v])\<rparr>
         else NeedAllNames h)"

section \<open>Comparisons\<close>

text \<open>
  The order of values: numbers, texts, and sequences of the same kind by their first
  unequal elements; everything else is a \<^verbatim>\<open>TypeError\<close>. The result is the sign of the difference.
\<close>

function py_cmp3 :: "pyval \<Rightarrow> pyval \<Rightarrow> int res" and py_cmp3s :: "pyval list \<Rightarrow> pyval list \<Rightarrow> int res" where
  "py_cmp3 x y =
     (case (x, y) of
        (PList xs, PList ys) \<Rightarrow> py_cmp3s xs ys
      | (PTuple xs, PTuple ys) \<Rightarrow> py_cmp3s xs ys
      | (PStr s, PStr t) \<Rightarrow> Inr (if s < t then - 1 else if s = t then 0 else 1)
      | _ \<Rightarrow>
          (case (py_num x, py_num y) of
             (Some a, Some b) \<Rightarrow> Inr (if a < b then - 1 else if a = b then 0 else 1)
           | _ \<Rightarrow> Inl TypeError))"
| "py_cmp3s [] [] = Inr 0"
| "py_cmp3s [] (y # ys) = Inr (- 1)"
| "py_cmp3s (x # xs) [] = Inr 1"
| "py_cmp3s (x # xs) (y # ys) = (if py_eq x y then py_cmp3s xs ys else py_cmp3 x y)"
  by pat_completeness auto

termination
  by (relation "measure (\<lambda>x. case x of Inl (x, _) \<Rightarrow> size x | Inr (xs, _) \<Rightarrow> size_list size xs)") auto

text \<open>The right-hand side of an operator after its preparation.\<close>

datatype prep = PVal pyval | PRegex "string \<Rightarrow> bool"

type_synonym binop = "fval \<Rightarrow> prep \<Rightarrow> bool res"

definition op_compare :: "(int \<Rightarrow> bool) \<Rightarrow> binop" where
  "op_compare P lhs rhs =
     (case (lhs, rhs) of (FVal u, PVal v) \<Rightarrow> res_bind (py_cmp3 u v) (\<lambda>c. Inr (P c)) | _ \<Rightarrow> Inl TypeError)"

definition op_eq :: binop where
  "op_eq lhs rhs = (case (lhs, rhs) of (FVal u, PVal v) \<Rightarrow> Inr (py_eq u v) | _ \<Rightarrow> Inr False)"

fun substring :: "string \<Rightarrow> string \<Rightarrow> bool" where
  "substring s [] = (s = [])"
| "substring s (c # cs) = (take (length s) (c # cs) = s \<or> substring s cs)"

definition op_contains :: binop where
  "op_contains lhs rhs =
     (case (lhs, rhs) of
        (FVal (PStr t), PVal (PStr s)) \<Rightarrow> Inr (substring s t)
      | (FVal (PList vs), PVal v) \<Rightarrow> Inr (list_ex (py_eq v) vs)
      | (FVal (PTuple vs), PVal v) \<Rightarrow> Inr (list_ex (py_eq v) vs)
      | (FVal (PDict d), PVal v) \<Rightarrow> if py_hashable v then Inr (list_ex (py_eq v) (map fst d)) else Inl TypeError
      | _ \<Rightarrow> Inl TypeError)"

definition op_search :: binop where
  "op_search lhs rhs = (case (lhs, rhs) of (FVal (PStr s), PRegex found) \<Rightarrow> Inr (found s) | _ \<Rightarrow> Inl TypeError)"

definition WrapNot :: "binop \<Rightarrow> binop" where
  "WrapNot fn lhs rhs = res_bind (fn lhs rhs) (\<lambda>b. Inr (\<not> b))"

text \<open>
  \<^verbatim>\<open>MatchNameComponent(key, [name], case_sensitive=False)\<close> as a truth value: the name
  itself, or a name that starts with the key, up to letter case, followed by a dot; what follows
  must not hold a line feed other than at the end.
\<close>

definition name_re_match :: "string \<Rightarrow> string \<Rightarrow> bool" where
  "name_re_match key name =
     (map to_upper (take (length key) name) = map to_upper key \<and>
      (case drop (length key) name of
         [] \<Rightarrow> True
       | c # rest \<Rightarrow>
           (if c = CHR ''.'' then dropWhile (\<lambda>c. c \<noteq> CHR 0x0A) rest \<in> {[], [CHR 0x0A]} else c # rest = [CHR 0x0A])))"

definition match_hostname :: binop where
  "match_hostname lhs rhs =
     (case rhs of
        PRegex _ \<Rightarrow> Inl TypeError
      | PVal v \<Rightarrow>
          (case lhs of
             FVal u \<Rightarrow>
               if py_eq v u then Inr (py_truth v)
               else
                 (case v of
                    PStr key \<Rightarrow>
                      (case u of
                         PStr name \<Rightarrow> Inr (name_re_match key name \<and> name \<noteq> [])
                       | _ \<Rightarrow> Inl TypeError)
                  | _ \<Rightarrow> Inl AttributeError)
           | _ \<Rightarrow> (case v of PStr _ \<Rightarrow> Inl TypeError | _ \<Rightarrow> Inl AttributeError)))"

text \<open>Floats are exact here.\<close>

definition MergeTime :: "pyval \<Rightarrow> rat res" where
  "MergeTime timetuple =
     res_bind (py_iter timetuple) (\<lambda>xs.
       case xs of
         [seconds, microseconds] \<Rightarrow>
           (case (py_num seconds, py_num microseconds) of
              (Some s, m) \<Rightarrow>
                res_bind (check (0 \<le> s) AssertionError) (\<lambda>_.
                  case m of
                    Some m \<Rightarrow>
                      res_bind (check (0 \<le> m \<and> m \<le> 999999) AssertionError) (\<lambda>_. Inr (s + m / 1000000))
                  | None \<Rightarrow> Inl TypeError)
            | _ \<Rightarrow> Inl TypeError)
       | _ \<Rightarrow> Inl ValueError)"

definition PrepareSplitTimestamp :: "pyval \<Rightarrow> prep res" where
  "PrepareSplitTimestamp v =
     res_bind (TNumber v) (\<lambda>b. if b then Inr (PVal v) else res_bind (MergeTime v) (\<lambda>r. Inr (PVal (PFloat r))))"

definition MakeSplitTimestampComparison :: "binop \<Rightarrow> binop" where
  "MakeSplitTimestampComparison fn lhs rhs =
     (case lhs of FVal u \<Rightarrow> res_bind (MergeTime u) (\<lambda>r. fn (FVal (PFloat r)) rhs) | _ \<Rightarrow> Inl TypeError)"

definition ParseJobId :: "pyval \<Rightarrow> int res" where
  "ParseJobId v =
     (case v of
        PInt i \<Rightarrow> Inr i
      | PBool b \<Rightarrow> Inr (if b then 1 else 0)
      | PFloat r \<Rightarrow> Inr (if 0 \<le> r then \<lfloor>r\<rfloor> else \<lceil>r\<rceil>)
      | PStr s \<Rightarrow> (case py_int s of Some i \<Rightarrow> Inr i | None \<Rightarrow> Inl (ParameterError ''Invalid job ID''))
      | _ \<Rightarrow> Inl (ParameterError ''Invalid job ID''))"

definition compare_job_id :: "binop \<Rightarrow> binop" where
  "compare_job_id fn lhs rhs =
     (case lhs of
        FVal u \<Rightarrow> res_bind (ParseJobId u) (\<lambda>i. fn (FVal (PInt i)) rhs)
      | _ \<Rightarrow> Inl (ParameterError ''Invalid job ID''))"

text \<open>An entry of a table of checks: the flags it is for, the function and the preparation of the value.\<close>

type_synonym op_check = "nat option \<times> binop \<times> (pyval \<Rightarrow> prep res)"

definition no_prep :: "pyval \<Rightarrow> prep res" where
  "no_prep v = Inr (PVal v)"

definition prep_job_id :: "pyval \<Rightarrow> prep res" where
  "prep_job_id v = res_bind (ParseJobId v) (\<lambda>i. Inr (PVal (PInt i)))"

definition MakeComparisonChecks :: "binop \<Rightarrow> op_check list" where
  "MakeComparisonChecks fn =
     [(Some QFF_SPLIT_TIMESTAMP, MakeSplitTimestampComparison fn, PrepareSplitTimestamp),
      (Some QFF_JOB_ID, compare_job_id fn, prep_job_id),
      (None, fn, no_prep)]"

definition EQUALITY_CHECKS :: "op_check list" where
  "EQUALITY_CHECKS =
     [(Some QFF_HOSTNAME, match_hostname, no_prep),
      (Some QFF_SPLIT_TIMESTAMP, MakeSplitTimestampComparison op_eq, PrepareSplitTimestamp),
      (None, op_eq, no_prep)]"

definition PrepareRegex :: "(string \<Rightarrow> (string \<Rightarrow> bool) option) \<Rightarrow> pyval \<Rightarrow> prep res" where
  "PrepareRegex re v =
     (case v of
        PStr pattern \<Rightarrow>
          (case re pattern of Some found \<Rightarrow> Inr (PRegex found) | None \<Rightarrow> Inl (ParameterError ''Invalid regex pattern''))
      | _ \<Rightarrow> Inl TypeError)"

section \<open>Compiling filters\<close>

fun text_of :: "pyval \<Rightarrow> string" where
  "text_of (PStr s) = s"
| "text_of (PPrivate v) = text_of v"
| "text_of _ = []"

fun is_sequence :: "pyval \<Rightarrow> bool" where
  "is_sequence (PList vs) = True"
| "is_sequence (PTuple vs) = True"
| "is_sequence _ = False"

type_synonym ('c, 'i) filter_fn = "'c \<Rightarrow> 'i \<Rightarrow> bool res"

text \<open>The kinds of operators; a logic operator is \<^verbatim>\<open>any\<close> or \<^verbatim>\<open>all\<close>.\<close>

datatype op_kind = OPTYPE_LOGIC "bool res list \<Rightarrow> bool res" | OPTYPE_UNARY | OPTYPE_BINARY "op_check list"

definition OPS :: "(string \<Rightarrow> (string \<Rightarrow> bool) option) \<Rightarrow> (string \<times> op_kind) list" where
  "OPS re =
     [(''|'', OPTYPE_LOGIC any_res),
      (''&'', OPTYPE_LOGIC all_res),
      (''!'', OPTYPE_UNARY),
      (''?'', OPTYPE_UNARY),
      (''=='', OPTYPE_BINARY EQUALITY_CHECKS),
      (''='', OPTYPE_BINARY EQUALITY_CHECKS),
      (''!='', OPTYPE_BINARY (map (\<lambda>(flags, fn, valprepfn). (flags, WrapNot fn, valprepfn)) EQUALITY_CHECKS)),
      (''<'', OPTYPE_BINARY (MakeComparisonChecks (op_compare (\<lambda>c. c < 0)))),
      (''<='', OPTYPE_BINARY (MakeComparisonChecks (op_compare (\<lambda>c. c \<le> 0)))),
      (''>'', OPTYPE_BINARY (MakeComparisonChecks (op_compare (\<lambda>c. 0 < c)))),
      (''>='', OPTYPE_BINARY (MakeComparisonChecks (op_compare (\<lambda>c. 0 \<le> c)))),
      (''=~'', OPTYPE_BINARY [(None, op_search, PrepareRegex re)]),
      (''=[]'', OPTYPE_BINARY [(None, op_contains, no_prep)])]"

definition WrapLogicOp :: "(bool res list \<Rightarrow> bool res) \<Rightarrow> ('c, 'i) filter_fn list \<Rightarrow> ('c, 'i) filter_fn" where
  "WrapLogicOp op_fn sentences ctx item = op_fn (map (\<lambda>fn. fn ctx item) sentences)"

fun fval_truth :: "fval \<Rightarrow> bool" where
  "fval_truth (FVal v) = py_truth v"
| "fval_truth _ = True"

definition truth_of :: "('c \<Rightarrow> 'i \<Rightarrow> fval res) \<Rightarrow> ('c, 'i) filter_fn" where
  "truth_of retrieval_fn ctx item = res_bind (retrieval_fn ctx item) (\<lambda>v. Inr (fval_truth v))"

definition not_of :: "('c, 'i) filter_fn \<Rightarrow> ('c, 'i) filter_fn" where
  "not_of fn ctx item = res_bind (fn ctx item) (\<lambda>b. Inr (\<not> b))"

definition WrapBinaryOp :: "binop \<Rightarrow> ('c \<Rightarrow> 'i \<Rightarrow> fval res) \<Rightarrow> prep \<Rightarrow> ('c, 'i) filter_fn" where
  "WrapBinaryOp op_fn retrieval_fn v ctx item = res_bind (retrieval_fn ctx item) (\<lambda>lhs. op_fn lhs v)"

definition LookupField :: "('c, 'i) fielddefs \<Rightarrow> pyval \<Rightarrow> (string \<times> ('c, 'i) qfield) res" where
  "LookupField fdefs name =
     (if \<not> py_hashable name then Inl TypeError
      else
        case unprivate name of
          PStr n \<Rightarrow> (case map_of fdefs n of Some f \<Rightarrow> Inr (n, f) | None \<Rightarrow> Inl (ParameterError ''Unknown field''))
        | _ \<Rightarrow> Inl (ParameterError ''Unknown field''))"

text \<open>The first entry without flags, or with one of the flags of the field.\<close>

fun select_check :: "op_check list \<Rightarrow> nat \<Rightarrow> (binop \<times> (pyval \<Rightarrow> prep res)) option" where
  "select_check [] field_flags = None"
| "select_check ((fn_flags, fn, valprepfn) # op_data) field_flags =
     (case fn_flags of
        None \<Rightarrow> Some (fn, valprepfn)
      | Some fl \<Rightarrow> if fl AND field_flags \<noteq> 0 then Some (fn, valprepfn) else select_check op_data field_flags)"

definition HandleBinaryOp ::
  "('c, 'i) fielddefs \<Rightarrow> string \<Rightarrow> op_check list \<Rightarrow> pyval list \<Rightarrow> hints option \<Rightarrow> (('c, 'i) filter_fn \<times> hints option) res" where
  "HandleBinaryOp fdefs op op_data operands h =
     (case operands of
        [name, v] \<Rightarrow>
          res_bind (LookupField fdefs name) (\<lambda>(n, f).
          res_bind (check (fd_kind f \<noteq> QFT_UNKNOWN) AssertionError) (\<lambda>_.
          res_bind (VERIFY_FN (fd_kind f) v) (\<lambda>ok.
          if \<not> ok then Inl (ParameterError ''Unable to compare field'')
          else
            (case select_check op_data (fd_flags f) of
               None \<Rightarrow> Inl (ProgrammerError ''Unable to find operator implementation'')
             | Some (fn, valprepfn) \<Rightarrow>
                 res_bind (valprepfn v) (\<lambda>p.
                 Inr (WrapBinaryOp fn (fd_fn f) p, map_option (NoteBinaryOp op (fd_datakind f) n v) h))))))
      | _ \<Rightarrow> Inl (ParameterError ''Invalid binary operator, expected exactly two operands''))"

definition LEVELS_MAX :: nat where
  "LEVELS_MAX = 10"

text \<open>Operands are compiled one after the other, with the same hints object.\<close>

fun compile_list :: "('a \<Rightarrow> 's \<Rightarrow> ('b \<times> 's) res) \<Rightarrow> 'a list \<Rightarrow> 's \<Rightarrow> ('b list \<times> 's) res" where
  "compile_list f [] h = Inr ([], h)"
| "compile_list f (x # xs) h =
     res_bind (f x h) (\<lambda>(y, h1). res_bind (compile_list f xs h1) (\<lambda>(ys, h2). Inr (y # ys, h2)))"

lemma compile_list_cong [fundef_cong]:
  "xs = ys \<Longrightarrow> h = h' \<Longrightarrow> (\<And>x h. x \<in> set ys \<Longrightarrow> f x h = g x h) \<Longrightarrow> compile_list f xs h = compile_list g ys h'"
proof -
  have "compile_list f ys h = compile_list g ys h" if "\<And>x h. x \<in> set ys \<Longrightarrow> f x h = g x h" for h
    using that by (induction ys arbitrary: h) (simp_all cong: res_bind_cong)
  then show "xs = ys \<Longrightarrow> h = h' \<Longrightarrow> (\<And>x h. x \<in> set ys \<Longrightarrow> f x h = g x h) \<Longrightarrow> compile_list f xs h = compile_list g ys h'"
    by simp
qed

function Compile ::
  "(string \<Rightarrow> (string \<Rightarrow> bool) option) \<Rightarrow> ('c, 'i) fielddefs \<Rightarrow> nat \<Rightarrow> pyval \<Rightarrow> hints option \<Rightarrow>
   (('c, 'i) filter_fn \<times> hints option) res" where
  "Compile re fdefs level qfilter h =
     (if \<not> is_sequence qfilter \<or> \<not> py_truth qfilter
      then Inl (ParameterError ''Invalid filter'')
      else if level \<ge> LEVELS_MAX then Inl (ParameterError ''Only up to 10 levels are allowed'')
      else
        case qfilter of
          PList (op # operands) \<Rightarrow>
            if \<not> py_hashable op then Inl TypeError
            else
              (case field_of (OPS re) op of
                 None \<Rightarrow> Inl (ParameterError ''Unknown operator'')
               | Some (OPTYPE_LOGIC op_fn) \<Rightarrow>
                   res_bind
                     (compile_list (\<lambda>q h. Compile re fdefs (level + 1) q h) operands
                        (map_option (NoteLogicOp (text_of op)) h)) (\<lambda>(fns, h).
                   Inr (WrapLogicOp op_fn fns, h))
               | Some OPTYPE_UNARY \<Rightarrow>
                   (case operands of
                      [arg] \<Rightarrow>
                        if text_of op = ''?'' then
                          res_bind (LookupField fdefs arg) (\<lambda>(n, f).
                          Inr (truth_of (fd_fn f), map_option (NoteUnaryOp (fd_datakind f)) h))
                        else
                          res_bind (Compile re fdefs (level + 1) arg (map_option (NoteUnaryOp None) h)) (\<lambda>(fn, h).
                          Inr (not_of fn, h))
                    | _ \<Rightarrow> Inl (ParameterError ''Unary operator expects exactly one operand''))
               | Some (OPTYPE_BINARY op_data) \<Rightarrow> HandleBinaryOp fdefs (text_of op) op_data operands h)
        | _ \<Rightarrow> Inl AttributeError)"
  by pat_completeness auto

termination
  by (relation "measure (\<lambda>(re, fdefs, level, q, h). LEVELS_MAX - level)") auto

section \<open>The query\<close>

record ('c, 'i) query =
  q_fields :: "('c, 'i) qfield list"
  q_filter_fn :: "('c, 'i) filter_fn option"
  q_requested_names :: "pyval list option"
  q_filter_datakinds :: "nat set"
  q_name_fn :: "('c \<Rightarrow> 'i \<Rightarrow> fval res) option"

definition compile_query ::
  "(string \<Rightarrow> (string \<Rightarrow> bool) option) \<Rightarrow> ('c, 'i) fielddefs \<Rightarrow> pyval option \<Rightarrow> string option \<Rightarrow>
   (('c, 'i) filter_fn option \<times> pyval list option \<times> nat set) res" where
  "compile_query re fieldlist qfilter namefield =
     (case qfilter of
        None \<Rightarrow> Inr (None, None, {})
      | Some qf \<Rightarrow>
          (let h = (case namefield of None \<Rightarrow> None | Some nf \<Rightarrow> if nf = [] then None else Some (FilterHints nf))
           in res_bind (Compile re fieldlist 0 qf h) (\<lambda>(fn, h).
              case h of
                None \<Rightarrow> Inr (Some fn, None, {})
              | Some h \<Rightarrow>
                  res_bind (Hints_RequestedNames h) (\<lambda>names. Inr (Some fn, names, fh_datakinds h)))))"

definition Query_init ::
  "(string \<Rightarrow> (string \<Rightarrow> bool) option) \<Rightarrow> ('c, 'i) fielddefs \<Rightarrow> string list \<Rightarrow> pyval option \<Rightarrow> string option \<Rightarrow>
   ('c, 'i) query res" where
  "Query_init re fieldlist selected qfilter namefield =
     res_bind (check (case namefield of None \<Rightarrow> True | Some nf \<Rightarrow> map_of fieldlist nf \<noteq> None) AssertionError) (\<lambda>_.
     res_bind (compile_query re fieldlist qfilter namefield) (\<lambda>(fn, names, datakinds).
     Inr \<lparr>q_fields = GetQueryFields fieldlist selected, q_filter_fn = fn, q_requested_names = names,
          q_filter_datakinds = datakinds,
          q_name_fn = (case namefield of None \<Rightarrow> None | Some nf \<Rightarrow> map_option fd_fn (map_of fieldlist nf))\<rparr>))"

definition RequestedData :: "('c, 'i) query \<Rightarrow> nat set" where
  "RequestedData q = q_filter_datakinds q \<union> {k. Some k \<in> fd_datakind ` set (q_fields q)}"

text \<open>The status of a result and its value: \<^verbatim>\<open>RS_NORMAL\<close> is 0.\<close>

fun ProcessResult_field :: "fval \<Rightarrow> int \<times> pyval" where
  "ProcessResult_field FS_UNKNOWN = (1, PNone)"
| "ProcessResult_field FS_NODATA = (2, PNone)"
| "ProcessResult_field FS_UNAVAIL = (3, PNone)"
| "ProcessResult_field FS_OFFLINE = (4, PNone)"
| "ProcessResult_field (FVal v) = (0, v)"

definition cell_ok :: "int \<times> pyval \<Rightarrow> ('c, 'i) qfield \<Rightarrow> bool" where
  "cell_ok cell f =
     (if fst cell = 0 then VERIFY_FN (fd_kind f) (snd cell) = Inr True else snd cell = PNone)"

definition VerifyResultRow :: "('c, 'i) qfield list \<Rightarrow> (int \<times> pyval) list \<Rightarrow> unit res" where
  "VerifyResultRow fdefs row =
     res_bind (check (length row = length fdefs) AssertionError) (\<lambda>_.
     check (list_all (\<lambda>(cell, f). cell_ok cell f) (zip row fdefs)) AssertionError)"

definition py_str :: "(pyval \<Rightarrow> string) \<Rightarrow> pyval \<Rightarrow> string" where
  "py_str str_fn v = (case v of PStr s \<Rightarrow> s | PInt i \<Rightarrow> int_str i | _ \<Rightarrow> str_fn v)"

definition query_row :: "('c, 'i) query \<Rightarrow> 'c \<Rightarrow> 'i \<Rightarrow> (int \<times> pyval) list res" where
  "query_row q ctx item =
     res_bind (res_map (\<lambda>f. res_bind (fd_fn f ctx item) (\<lambda>v. Inr (ProcessResult_field v))) (q_fields q)) (\<lambda>row.
     res_bind (VerifyResultRow (q_fields q) row) (\<lambda>_. Inr row))"

definition query_key :: "(pyval \<Rightarrow> string) \<Rightarrow> ('c \<Rightarrow> 'i \<Rightarrow> fval res) \<Rightarrow> 'c \<Rightarrow> 'i \<Rightarrow> nice_atom list res" where
  "query_key str_fn name_fn ctx item =
     res_bind (name_fn ctx item) (\<lambda>v.
       let (status, name) = ProcessResult_field v
       in res_bind (check (status = 0) AssertionError) (\<lambda>_. NiceSortKey (py_str str_fn name)))"

text \<open>One item: nothing if the filter does not match, else its row and, to sort, its key.\<close>

definition query_item ::
  "(pyval \<Rightarrow> string) \<Rightarrow> ('c, 'i) query \<Rightarrow> ('c \<Rightarrow> 'i \<Rightarrow> fval res) option \<Rightarrow> 'c \<Rightarrow> 'i \<Rightarrow>
   (nice_atom list \<times> (int \<times> pyval) list) option res" where
  "query_item str_fn q sort_fn ctx item =
     res_bind (case q_filter_fn q of None \<Rightarrow> Inr True | Some fn \<Rightarrow> fn ctx item) (\<lambda>matches.
       if \<not> matches then Inr None
       else
         res_bind (query_row q ctx item) (\<lambda>row.
         res_bind (case sort_fn of None \<Rightarrow> Inr [] | Some name_fn \<Rightarrow> query_key str_fn name_fn ctx item) (\<lambda>k.
         Inr (Some (k, row)))))"

fun query_loop ::
  "(pyval \<Rightarrow> string) \<Rightarrow> ('c, 'i) query \<Rightarrow> ('c \<Rightarrow> 'i \<Rightarrow> fval res) option \<Rightarrow> 'c \<Rightarrow> nat \<Rightarrow> 'i list \<Rightarrow>
   ((nice_atom list \<times> nat) \<times> (int \<times> pyval) list) list res" where
  "query_loop str_fn q sort_fn ctx idx [] = Inr []"
| "query_loop str_fn q sort_fn ctx idx (item # items) =
     res_bind (query_item str_fn q sort_fn ctx item) (\<lambda>r.
     res_bind (query_loop str_fn q sort_fn ctx (idx + 1) items) (\<lambda>rs.
       Inr (case r of None \<Rightarrow> rs | Some (k, row) \<Rightarrow> ((k, idx), row) # rs)))"

text \<open>Comparison of the tuples of key and index: the indices differ, so the rows are never compared.\<close>

definition tuple_lt :: "nice_atom list \<times> nat \<Rightarrow> nice_atom list \<times> nat \<Rightarrow> bool" where
  "tuple_lt a b = (if fst a = fst b then snd a < snd b else key_lt (fst a) (fst b))"

definition Query_Query ::
  "(pyval \<Rightarrow> string) \<Rightarrow> ('c, 'i) query \<Rightarrow> 'c \<Rightarrow> 'i list \<Rightarrow> bool \<Rightarrow> (int \<times> pyval) list list res" where
  "Query_Query str_fn q ctx items sort_by_name =
     (let sort_fn = (if sort_by_name then q_name_fn q else None)
      in res_bind (query_loop str_fn q sort_fn ctx 0 items) (\<lambda>rs.
         Inr (if sort_fn = None then map snd rs else py_sorted tuple_lt rs)))"

definition OldStyleQuery ::
  "(pyval \<Rightarrow> string) \<Rightarrow> ('c, 'i) query \<Rightarrow> 'c \<Rightarrow> 'i list \<Rightarrow> bool \<Rightarrow> pyval list list res" where
  "OldStyleQuery str_fn q ctx items sort_by_name =
     (if \<exists>f \<in> set (q_fields q). fd_kind f = QFT_UNKNOWN then Inl (OpPrereqError ''Unknown output fields selected'')
      else res_bind (Query_Query str_fn q ctx items sort_by_name) (\<lambda>rows. Inr (map (map snd) rows)))"

text \<open>A field definition is the name, the title, the kind and the description of a field.\<close>

definition GetAllFields :: "('c, 'i) qfield list \<Rightarrow> (string \<times> string \<times> qft \<times> string) list" where
  "GetAllFields fs = map (\<lambda>f. (fd_name f, fd_title f, fd_kind f, fd_doc f)) fs"

definition QueryFields ::
  "(string \<Rightarrow> (string \<Rightarrow> bool) option) \<Rightarrow> ('c, 'i) fielddefs \<Rightarrow> string list option \<Rightarrow>
   (string \<times> string \<times> qft \<times> string) list res" where
  "QueryFields re fielddefs selected =
     (case selected of
        None \<Rightarrow> NiceSort fst (GetAllFields (map snd fielddefs))
      | Some names \<Rightarrow> res_bind (Query_init re fielddefs names None None) (\<lambda>q. Inr (GetAllFields (q_fields q))))"

section \<open>Field lists\<close>

definition alias_field :: "('c, 'i) fielddefs \<Rightarrow> string \<times> string \<Rightarrow> ('c, 'i) fielddefs res" where
  "alias_field d al =
     (case al of (alias, target) \<Rightarrow>
        res_bind (check (map_of d alias = None) AssertionError) (\<lambda>_.
          case map_of d target of
            None \<Rightarrow> Inl AssertionError
          | Some f \<Rightarrow> Inr (AList.update alias (f\<lparr>fd_name := alias\<rparr>) d)))"

fun add_aliases :: "('c, 'i) fielddefs \<Rightarrow> (string \<times> string) list \<Rightarrow> ('c, 'i) fielddefs res" where
  "add_aliases d [] = Inr d"
| "add_aliases d (al # als) = res_bind (alias_field d al) (\<lambda>d'. add_aliases d' als)"

text \<open>The form of a name, a title and a description, and the flags (\<^verbatim>\<open>_FieldDictKey\<close>).\<close>

definition is_line_break :: "char \<Rightarrow> bool" where
  "is_line_break c \<longleftrightarrow> (let n = (of_char c :: nat) in (10 \<le> n \<and> n \<le> 13) \<or> (28 \<le> n \<and> n \<le> 30) \<or> n = 133)"

definition cut_newline :: "string \<Rightarrow> string" where
  "cut_newline s = (if s \<noteq> [] \<and> last s = CHR 0x0A then butlast s else s)"

definition field_form_ok :: "('c, 'i) qfield \<Rightarrow> bool" where
  "field_form_ok f \<longleftrightarrow>
     fd_name f \<noteq> [] \<and> fd_title f \<noteq> [] \<and>
     (let n = cut_newline (fd_name f)
      in n \<noteq> [] \<and> list_all (\<lambda>c. is_lower c \<or> is_digit_char c \<or> c \<in> set ''/._'') n) \<and>
     (let t = cut_newline (fd_title f) in t \<noteq> [] \<and> list_all (\<lambda>c. \<not> is_space_char c) t) \<and>
     (let d = fd_doc f
      in 2 \<le> length d \<and> is_upper (hd d) \<and> last d \<notin> set ''.,?!'' \<and> \<not> list_ex is_line_break d \<and> strip_space d = d) \<and>
     fd_flags f AND QFF_ALL = fd_flags f"

definition FieldDictKey :: "('c, 'i) qfield \<Rightarrow> string res" where
  "FieldDictKey f = res_bind (check (field_form_ok f) AssertionError) (\<lambda>_. Inr (fd_name f))"

definition PrepareFieldList ::
  "('c, 'i) qfield list \<Rightarrow> (string \<times> string) list \<Rightarrow> ('c, 'i) fielddefs res" where
  "PrepareFieldList fdefs aliases =
     res_bind (check (FindDuplicates (map (\<lambda>f. map to_lower (fd_title f)) fdefs) = {}) AssertionError) (\<lambda>_.
     res_bind (res_map FieldDictKey fdefs) (\<lambda>_.
     res_bind (SequenceToDict fdefs fd_name) (\<lambda>d.
     res_bind (add_aliases d aliases) (\<lambda>d.
     res_bind (check (length d = length fdefs + length aliases) AssertionError) (\<lambda>_.
     res_bind (check (list_all (\<lambda>(name, f). name = fd_name f) d) AssertionError) (\<lambda>_.
     Inr d))))))"

section \<open>Simple filters\<close>

definition MakeSimpleFilter :: "string \<Rightarrow> pyval list \<Rightarrow> pyval option" where
  "MakeSimpleFilter namefield vs =
     (if vs = [] then None
      else Some (PList (PStr ''|'' # map (\<lambda>i. PList [PStr ''=='', PStr namefield, i]) vs)))"

definition CheckGlobbing :: "string \<Rightarrow> bool" where
  "CheckGlobbing s = list_ex (\<lambda>c. c \<in> set ''*?'') s"

definition re_escape_char :: "char \<Rightarrow> string" where
  "re_escape_char c =
     (if c \<in> set ''()[]{}?*+-|^$.&~# '' \<or> c = CHR 0x5C \<or> (9 \<le> (of_char c :: nat) \<and> (of_char c :: nat) \<le> 13) then [CHR 0x5C, c] else [c])"

definition DnsNameGlobHelper :: "char \<Rightarrow> string" where
  "DnsNameGlobHelper c =
     (if c = CHR ''*'' then ''[^.]*'' else if c = CHR ''?'' then ''[^.]'' else re_escape_char c)"

definition DnsNameGlobPattern :: "string \<Rightarrow> string" where
  "DnsNameGlobPattern pattern = ''^'' @ concat (map DnsNameGlobHelper pattern) @ ''('' @ [CHR 0x5C] @ ''..*)?$''"

definition MakeFilterPart :: "string \<Rightarrow> string \<Rightarrow> bool \<Rightarrow> pyval res" where
  "MakeFilterPart namefield txt isnumeric =
     (if isnumeric then
        (case py_int txt of
           None \<Rightarrow> Inl (OpPrereqError ''Invalid job ID passed'')
         | Some n \<Rightarrow> Inr (PList [PStr ''=='', PStr namefield, PInt n]))
      else if CheckGlobbing txt then Inr (PList [PStr ''=~'', PStr namefield, PStr (DnsNameGlobPattern txt)])
      else Inr (PList [PStr ''=='', PStr namefield, PStr txt]))"

text \<open>The parser, built with a library, is an argument of the function that makes filters of command arguments.\<close>

definition FILTER_DETECTION_CHARS :: string where
  "FILTER_DETECTION_CHARS =
     ''! )(/<>=~'' @ [CHR 0x22, CHR 0x27, CHR 0x0B, CHR 0x0A, CHR 0x0D, CHR 0x0C, CHR 0x09, CHR 0x5C]"

definition CheckFilter :: "string \<Rightarrow> bool" where
  "CheckFilter s = list_ex (\<lambda>c. c \<in> set FILTER_DETECTION_CHARS) s"

definition MakeFilter ::
  "(string \<Rightarrow> pyval res) \<Rightarrow> string list \<Rightarrow> bool \<Rightarrow> string option \<Rightarrow> bool \<Rightarrow> pyval option res" where
  "MakeFilter parse args force_filter namefield isnumeric =
     (let nf = (case namefield of None \<Rightarrow> ''name'' | Some n \<Rightarrow> n)
      in if force_filter \<or> length args = 1 \<and> CheckFilter (hd args) then
           (case args of
              [filter_text] \<Rightarrow> res_bind (parse filter_text) (\<lambda>q. Inr (Some q))
            | _ \<Rightarrow> Inl (OpPrereqError ''Exactly one argument must be given as a filter''))
         else if args \<noteq> [] then
           res_bind (res_map (\<lambda>arg. MakeFilterPart nf arg isnumeric) args) (\<lambda>parts. Inr (Some (PList (PStr ''|'' # parts))))
         else Inr None)"

section \<open>What the hints exclude\<close>

declare Compile.simps [simp del]

definition names_list :: "hints \<Rightarrow> pyval list" where
  "names_list h = (case fh_names h of None \<Rightarrow> [] | Some vs \<Rightarrow> vs)"

text \<open>The comparison of the name of an item with a requested value, and a value that may be requested.\<close>

definition name_check :: "('c, 'i) qfield \<Rightarrow> pyval \<Rightarrow> 'c \<Rightarrow> 'i \<Rightarrow> bool res" where
  "name_check f v ctx item =
     (case select_check EQUALITY_CHECKS (fd_flags f) of
        None \<Rightarrow> Inl AssertionError
      | Some (fn, valprepfn) \<Rightarrow> res_bind (valprepfn v) (\<lambda>p. WrapBinaryOp fn (fd_fn f) p ctx item))"

text \<open>
  What a compiled filter and the hints before and after compiling have to do with each other:
  unless all names are needed, the values that were added exclude an item from the filter.
\<close>

definition reject :: "('c, 'i) filter_fn list \<Rightarrow> 'c \<Rightarrow> 'i \<Rightarrow> bool" where
  "reject fns ctx item \<longleftrightarrow> (\<forall>fn \<in> set fns. fn ctx item = Inr False)"

definition excludes :: "('c, 'i) qfield \<Rightarrow> pyval list \<Rightarrow> ('c, 'i) filter_fn list \<Rightarrow> bool" where
  "excludes f vs fns \<longleftrightarrow> (\<forall>v \<in> set vs. VERIFY_FN (fd_kind f) v = Inr True) \<and>
     (\<forall>ctx item. reject (map (name_check f) vs) ctx item \<longrightarrow> reject fns ctx item)"

definition hinted ::
  "('c, 'i) qfield \<Rightarrow> hints \<Rightarrow> hints \<Rightarrow> ('c, 'i) filter_fn list \<Rightarrow> bool" where
  "hinted f h h' fns \<longleftrightarrow>
     fh_namefield h' = fh_namefield h \<and> (fh_allnames h \<longrightarrow> fh_allnames h') \<and>
     (\<not> fh_allnames h' \<longrightarrow> (\<exists>vs. names_list h' = names_list h @ vs \<and> excludes f vs fns))"

lemma reject_append: "reject (fns @ gns) ctx item \<longleftrightarrow> reject fns ctx item \<and> reject gns ctx item"
  unfolding reject_def set_append ball_Un by (rule refl)

lemma reject_Nil: "reject [] ctx item"
  unfolding reject_def by simp

lemma excludes_Nil: "excludes f [] []"
  by (simp add: excludes_def)

lemma hinted_Nil: "hinted f h h []"
  unfolding hinted_def by (intro conjI impI exI [of _ "[]"] excludes_Nil) simp_all

lemma excludes_append: "excludes f vs fns \<Longrightarrow> excludes f ws gns \<Longrightarrow> excludes f (vs @ ws) (fns @ gns)"
  unfolding excludes_def set_append ball_Un map_append reject_append by blast

lemma hinted_append:
  assumes "hinted f h h1 fns" "hinted f h1 h2 gns"
  shows "hinted f h h2 (fns @ gns)"
proof (cases "fh_allnames h2")
  case False
  then have "\<not> fh_allnames h1" using assms(2) by (auto simp: hinted_def)
  then obtain vs ws where
    "names_list h1 = names_list h @ vs" "excludes f vs fns" "names_list h2 = names_list h1 @ ws" "excludes f ws gns"
    using assms False unfolding hinted_def by metis
  then show ?thesis
    using assms unfolding hinted_def by (intro conjI impI exI [of _ "vs @ ws"] excludes_append) auto
qed (use assms in \<open>auto simp: hinted_def\<close>)

lemma hinted_all: "fh_namefield h' = fh_namefield h \<Longrightarrow> fh_allnames h' \<Longrightarrow> hinted f h h' fns"
  by (simp add: hinted_def)

lemma hinted_from: "hinted f h1 h' fns \<Longrightarrow> fh_namefield h1 = fh_namefield h \<Longrightarrow> fh_allnames h1 \<Longrightarrow> hinted f h h' gns"
  by (auto simp: hinted_def)

lemma note_datakind_simps [simp]:
  "fh_namefield (note_datakind k h) = fh_namefield h" "fh_allnames (note_datakind k h) = fh_allnames h"
  "fh_names (note_datakind k h) = fh_names h"
  by (auto simp: note_datakind_def split: option.split)

lemma any_res_all_False: "set rs \<subseteq> {Inr False} \<Longrightarrow> any_res rs = Inr False"
  by (induction rs) simp_all

lemma reject_or:
  assumes "reject fns ctx item"
  shows "reject [WrapLogicOp any_res fns] ctx item"
proof -
  have "any_res (map (\<lambda>fn. fn ctx item) fns) = Inr False"
    by (rule any_res_all_False) (use assms in \<open>unfold reject_def set_map, blast\<close>)
  then show ?thesis by (simp add: reject_def WrapLogicOp_def)
qed

lemma excludes_or: "excludes f vs fns \<Longrightarrow> excludes f vs [WrapLogicOp any_res fns]"
  unfolding excludes_def
  by (elim conjE, intro conjI allI impI, assumption, rule reject_or, erule allE, erule allE, erule mp)

lemma hinted_or: "hinted f h h' fns \<Longrightarrow> hinted f h h' [WrapLogicOp any_res fns]"
  unfolding hinted_def
  by (elim conjE, intro conjI impI, assumption, erule mp, assumption, drule mp, assumption, erule exE, elim conjE,
      intro exI conjI, assumption, erule excludes_or)

lemma hinted_namefield: "hinted f h h' fns \<Longrightarrow> fh_namefield h' = fh_namefield h"
  by (simp add: hinted_def)

lemma compile_list_hinted:
  assumes "compile_list C qs (Some h) = Inr (fns, hs)" "fh_namefield h = nf"
    and "\<And>q h fn hs. q \<in> set qs \<Longrightarrow> fh_namefield h = nf \<Longrightarrow> C q (Some h) = Inr (fn, hs) \<Longrightarrow>
      \<exists>h'. hs = Some h' \<and> hinted f h h' [fn]"
  shows "\<exists>h'. hs = Some h' \<and> hinted f h h' fns"
  using assms
proof (induction qs arbitrary: h fns)
  case Nil
  then show ?case by (auto intro: hinted_Nil)
next
  case (Cons q qs)
  obtain fn h1 gns where q: "C q (Some h) = Inr (fn, h1)" "compile_list C qs h1 = Inr (gns, hs)" "fns = fn # gns"
    using Cons.prems(1) by (auto simp: res_simps)
  obtain h1' where h1: "h1 = Some h1'" "hinted f h h1' [fn]"
    using Cons.prems(3) [OF _ Cons.prems(2) q(1)] by auto
  have step: "\<exists>h'. hs = Some h' \<and> hinted f h h' [fn]"
    if "q \<in> set qs" "fh_namefield h = nf" "C q (Some h) = Inr (fn, hs)" for q h fn hs
    by (rule Cons.prems(3) [OF _ that(2,3)]) (simp add: that(1))
  have "\<exists>h'. hs = Some h' \<and> hinted f h1' h' gns"
    by (rule Cons.IH [OF _ _ step]) (use q(2) h1(1) hinted_namefield [OF h1(2)] Cons.prems(2) in simp_all)
  then obtain h' where "hs = Some h'" "hinted f h1' h' gns" by blast
  then show ?case using hinted_append [OF h1(2)] q(3) by fastforce
qed

lemma field_of_text: "field_of items key = Some t \<Longrightarrow> \<exists>s. unprivate key = PStr s \<and> map_of items s = Some t"
proof (induction items)
  case (Cons p items)
  obtain k u where p: "p = (k, u)" by (cases p)
  show ?case
  proof (cases "unprivate key = PStr k")
    case True
    then show ?thesis using Cons.prems p by (simp add: py_eq_text)
  next
    case False
    then have "field_of items key = Some t" using Cons.prems p by (simp add: py_eq_text)
    then show ?thesis using Cons.IH False p by auto
  qed
qed simp

lemma text_of_unprivate: "unprivate v = PStr s \<Longrightarrow> text_of v = s"
  by (induction v rule: unprivate.induct) simp_all

lemma op_text: "field_of items op = Some k \<Longrightarrow> map_of items (text_of op) = Some k"
  using field_of_text text_of_unprivate by fastforce

lemma logic_or: "field_of (OPS re) op = Some (OPTYPE_LOGIC op_fn) \<Longrightarrow> text_of op = ''|'' \<Longrightarrow> op_fn = any_res"
  by (drule op_text) (simp add: OPS_def)

lemma equality_op:
  "field_of (OPS re) op = Some (OPTYPE_BINARY op_data) \<Longrightarrow> text_of op \<in> {''=='', ''=''} \<Longrightarrow> op_data = EQUALITY_CHECKS"
  by (drule op_text) (auto simp: OPS_def)

text \<open>The ways in which a filter compiles.\<close>

lemma Compile_cases:
  assumes "Compile re fl level qf h = Inr (fn, hs)"
  obtains (logic) op operands op_fn fns where "level < LEVELS_MAX" "qf = PList (op # operands)"
      "field_of (OPS re) op = Some (OPTYPE_LOGIC op_fn)" "fn = WrapLogicOp op_fn fns"
      "compile_list (\<lambda>q h. Compile re fl (level + 1) q h) operands (map_option (NoteLogicOp (text_of op)) h) = Inr (fns, hs)"
    | (true) op arg n f where "qf = PList [op, arg]" "LookupField fl arg = Inr (n, f)" "fn = truth_of (fd_fn f)"
      "hs = map_option (NoteUnaryOp (fd_datakind f)) h"
    | (negated) op arg gn where "level < LEVELS_MAX" "qf = PList [op, arg]" "fn = not_of gn"
      "Compile re fl (level + 1) arg (map_option (NoteUnaryOp None) h) = Inr (gn, hs)"
    | (binary) op operands op_data where "qf = PList (op # operands)"
      "field_of (OPS re) op = Some (OPTYPE_BINARY op_data)"
      "HandleBinaryOp fl (text_of op) op_data operands h = Inr (fn, hs)"
proof -
  obtain op operands where qf: "qf = PList (op # operands)" and level: "level < LEVELS_MAX"
    using assms by (subst (asm) Compile.simps) (auto split: if_splits pyval.splits list.splits)
  note C = assms [unfolded qf, simplified Compile.simps [of re fl level "PList (op # operands)"]]
  then obtain k where k: "field_of (OPS re) op = Some k" by (auto split: if_splits option.splits)
  show ?thesis
  proof (cases k)
    case (OPTYPE_LOGIC op_fn)
    then show ?thesis using C k level qf logic by (auto simp: res_simps split: if_splits)
  next
    case OPTYPE_UNARY
    then obtain arg where "operands = [arg]" using C k by (auto split: if_splits list.splits)
    then show ?thesis using C k level qf OPTYPE_UNARY true negated by (auto simp: res_simps split: if_splits)
  next
    case (OPTYPE_BINARY op_data)
    then show ?thesis using C k qf binary by (auto split: if_splits)
  qed
qed

lemma HandleBinaryOp_cases:
  assumes "HandleBinaryOp fl op op_data operands h = Inr (fn, hs)"
  obtains name v n f cfn prepfn p where "operands = [name, v]" "LookupField fl name = Inr (n, f)"
    "VERIFY_FN (fd_kind f) v = Inr True" "select_check op_data (fd_flags f) = Some (cfn, prepfn)" "prepfn v = Inr p"
    "fn = WrapBinaryOp cfn (fd_fn f) p" "hs = map_option (NoteBinaryOp op (fd_datakind f) n v) h"
proof -
  obtain name v where ops: "operands = [name, v]"
    using assms by (auto simp: HandleBinaryOp_def split: list.splits)
  then show ?thesis
    using assms that by (auto simp: HandleBinaryOp_def res_simps split: if_splits option.splits)
qed

lemma LookupField_name: "LookupField fl name = Inr (n, f) \<Longrightarrow> map_of fl n = Some f"
  by (auto simp: LookupField_def split: if_splits pyval.splits option.splits)

lemma NoteBinaryOp_namefield [simp]: "fh_namefield (NoteBinaryOp op k n v h) = fh_namefield h"
  by (simp add: NoteBinaryOp_def NeedAllNames_def Let_def)

lemma NoteBinaryOp_names:
  assumes "\<not> fh_allnames (NoteBinaryOp op k n v h)"
  shows "op \<in> {''=='', ''=''}" "n = fh_namefield h" "\<not> fh_allnames h"
    "names_list (NoteBinaryOp op k n v h) = names_list h @ [v]"
  using assms by (auto simp: NoteBinaryOp_def NeedAllNames_def Let_def names_list_def split: if_splits)

lemma binary_hinted:
  assumes "HandleBinaryOp fl (text_of op) op_data operands (Some h) = Inr (fn, hs)"
    and "field_of (OPS re) op = Some (OPTYPE_BINARY op_data)" and "map_of fl (fh_namefield h) = Some f"
  shows "\<exists>h'. hs = Some h' \<and> hinted f h h' [fn]"
  using assms(1)
proof (cases rule: HandleBinaryOp_cases)
  case (1 name v n g cfn prepfn p)
  note H = 1(2-6)
  let ?h = "NoteBinaryOp (text_of op) (fd_datakind g) n v h"
  have "hinted f h ?h [fn]"
  proof (cases "fh_allnames ?h")
    case True
    then show ?thesis by (simp add: hinted_all)
  next
    case False
    note names = NoteBinaryOp_names [OF False]
    have g: "g = f" using LookupField_name [OF H(1)] assms(3) names(2) by simp
    have "op_data = EQUALITY_CHECKS" using equality_op [OF assms(2) names(1)] .
    then have "name_check f v = fn" using H(3-5) g by (simp add: name_check_def fun_eq_iff)
    then have "excludes f [v] [fn]" using H(2) g by (simp add: excludes_def)
    then show ?thesis using names by (simp add: hinted_def)
  qed
  then show ?thesis using 1(7) by simp
qed

lemma NoteLogicOp_simps [simp]:
  "fh_namefield (NoteLogicOp op h) = fh_namefield h" "fh_namefield (NoteUnaryOp k h) = fh_namefield h"
  "fh_allnames (NoteUnaryOp k h)"
  by (simp_all add: NoteLogicOp_def NoteUnaryOp_def NeedAllNames_def)

lemma Compile_hinted:
  assumes "Compile re fl level qf (Some h) = Inr (fn, hs)" "map_of fl (fh_namefield h) = Some f"
  shows "\<exists>h'. hs = Some h' \<and> hinted f h h' [fn]"
  using assms
proof (induction "LEVELS_MAX - level" arbitrary: level qf h fn hs rule: less_induct)
  case less
  show ?case
    using less.prems(1)
  proof (cases rule: Compile_cases)
    case (logic op operands op_fn fns)
    let ?h = "NoteLogicOp (text_of op) h"
    have "\<exists>h'. hs = Some h' \<and> hinted f ?h h' fns"
    proof (rule compile_list_hinted)
      show "compile_list (\<lambda>q h. Compile re fl (level + 1) q h) operands (Some ?h) = Inr (fns, hs)"
        using logic(5) by simp
      show "fh_namefield ?h = fh_namefield h" by simp
      show "\<exists>h'. hs = Some h' \<and> hinted f h1 h' [fn]"
        if "fh_namefield h1 = fh_namefield h" "Compile re fl (level + 1) q (Some h1) = Inr (fn, hs)" for q h1 fn hs
        by (rule less.hyps [OF _ that(2)]) (use logic(1) less.prems(2) that(1) in auto)
    qed
    then obtain h' where h': "hs = Some h'" "hinted f ?h h' fns" by blast
    have "hinted f h h' [fn]"
    proof (cases "text_of op = ''|''")
      case True
      then have "?h = h" by (simp add: NoteLogicOp_def)
      then show ?thesis using hinted_or [of f h h' fns] h'(2) logic_or [OF logic(3) True] logic(4) by simp
    next
      case False
      then have "fh_allnames ?h" by (simp add: NoteLogicOp_def NeedAllNames_def)
      then show ?thesis by (rule hinted_from [OF h'(2) NoteLogicOp_simps(1)])
    qed
    then show ?thesis using h'(1) by blast
  next
    case (true op arg n g)
    then show ?thesis by (auto intro: hinted_all)
  next
    case (negated op arg gn)
    have "\<exists>h'. hs = Some h' \<and> hinted f (NoteUnaryOp None h) h' [gn]"
      by (rule less.hyps) (use negated less.prems(2) in auto)
    then obtain h' where h': "hs = Some h'" "hinted f (NoteUnaryOp None h) h' [gn]" by blast
    have "hinted f h h' [fn]" by (rule hinted_from [OF h'(2)]) simp_all
    then show ?thesis using h'(1) by blast
  next
    case (binary op operands op_data)
    then show ?thesis using binary_hinted less.prems(2) by blast
  qed
qed

section \<open>The rows of a query\<close>

definition strip_index :: "(('k \<times> nat) \<times> 'r) list \<Rightarrow> ('k \<times> 'r) list" where
  "strip_index rs = map (\<lambda>((k, i), row). (k, row)) rs"

lemma sort_insert_strip:
  assumes "\<And>y. y \<in> set ys \<Longrightarrow> snd (fst x) < snd (fst y)"
  shows "strip_index (sort_insert tuple_lt x ys) = insort_key fst (fst (fst x), snd x) (strip_index ys)"
  using assms
proof (induction ys)
  case Nil
  then show ?case by (simp add: strip_index_def split_beta)
next
  case (Cons y ys)
  have "tuple_lt (fst y) (fst x) \<longleftrightarrow> fst (fst y) < fst (fst x)"
    using Cons.prems [of y] by (auto simp: tuple_lt_def key_lt_less)
  then show ?case using Cons by (auto simp: strip_index_def split_beta)
qed

lemma set_sort_insert: "set (sort_insert lt x ys) = insert x (set ys)"
  by (induction ys) auto

lemma sorted_strip:
  assumes "sorted_wrt (\<lambda>x y. snd (fst x) < snd (fst y)) rs"
  shows "strip_index (foldr (sort_insert tuple_lt) rs []) = sort_key fst (strip_index rs) \<and>
    set (foldr (sort_insert tuple_lt) rs []) = set rs"
  using assms
proof (induction rs)
  case (Cons r rs)
  then have "strip_index (sort_insert tuple_lt r (foldr (sort_insert tuple_lt) rs [])) =
    insort_key fst (fst (fst r), snd r) (sort_key fst (strip_index rs))"
    by (subst sort_insert_strip) auto
  then show ?case using Cons by (simp add: set_sort_insert strip_index_def split_beta)
qed (simp add: strip_index_def)

lemma py_sorted_tuples:
  assumes "sorted_wrt (\<lambda>x y. snd (fst x) < snd (fst y)) rs"
  shows "py_sorted tuple_lt rs = map snd (sort_key fst (strip_index rs))"
proof -
  have "map snd (strip_index xs) = map snd xs" for xs :: "((nice_atom list \<times> nat) \<times> 'a) list"
    by (simp add: strip_index_def split_beta comp_def)
  then show ?thesis using sorted_strip [OF assms] by (metis py_sorted_def)
qed

text \<open>The matched of the items, in their order.\<close>

definition matched :: "'a option list \<Rightarrow> 'a list" where
  "matched rs = concat (map (\<lambda>r. case r of None \<Rightarrow> [] | Some x \<Rightarrow> [x]) rs)"

lemma query_loop_items:
  "case query_loop str_fn q sort_fn ctx idx items of
     Inl e \<Rightarrow> res_map (query_item str_fn q sort_fn ctx) items = Inl e
   | Inr L \<Rightarrow> \<exists>rs. res_map (query_item str_fn q sort_fn ctx) items = Inr rs \<and> strip_index L = matched rs \<and>
       sorted_wrt (\<lambda>x y. snd (fst x) < snd (fst y)) L \<and> (\<forall>x \<in> set L. idx \<le> snd (fst x))"
proof (induction items arbitrary: idx)
  case Nil
  then show ?case by (simp add: strip_index_def matched_def)
next
  case (Cons item items)
  show ?case
  proof (cases "query_item str_fn q sort_fn ctx item")
    case (Inr r)
    show ?thesis
    proof (cases "query_loop str_fn q sort_fn ctx (idx + 1) items")
      case (Inl e)
      then show ?thesis using Cons [of "idx + 1"] Inr by (simp add: res_simps)
    next
      case L: (Inr L)
      then obtain rs where rs: "res_map (query_item str_fn q sort_fn ctx) items = Inr rs" "strip_index L = matched rs"
        "sorted_wrt (\<lambda>x y. snd (fst x) < snd (fst y)) L" "\<forall>x \<in> set L. idx + 1 \<le> snd (fst x)"
        using Cons [of "idx + 1"] by auto
      then show ?thesis
        using L Inr by (cases r) (fastforce simp: res_simps strip_index_def matched_def split_beta)+
    qed
  qed (simp add: res_simps)
qed

definition sort_fn_of :: "('c, 'i) query \<Rightarrow> bool \<Rightarrow> ('c \<Rightarrow> 'i \<Rightarrow> fval res) option" where
  "sort_fn_of q sort_by_name = (if sort_by_name then q_name_fn q else None)"

lemma Query_Query_rows:
  "Query_Query str_fn q ctx items sort_by_name =
     res_bind (res_map (query_item str_fn q (sort_fn_of q sort_by_name) ctx) items) (\<lambda>rs.
       Inr (map snd (if sort_fn_of q sort_by_name = None then matched rs else sort_key fst (matched rs))))"
proof -
  let ?s = "sort_fn_of q sort_by_name"
  have *: "Query_Query str_fn q ctx items sort_by_name = res_bind (query_loop str_fn q ?s ctx 0 items) (\<lambda>rs.
      Inr (if ?s = None then map snd rs else py_sorted tuple_lt rs))"
    by (simp add: Query_Query_def sort_fn_of_def Let_def)
  show ?thesis
  proof (cases "query_loop str_fn q ?s ctx 0 items")
    case (Inl e)
    then show ?thesis using query_loop_items [where idx = 0 and items = items and str_fn = str_fn and q = q and ctx = ctx and sort_fn = ?s] by (simp add: * res_simps)
  next
    case (Inr L)
    then obtain rs where "res_map (query_item str_fn q ?s ctx) items = Inr rs" "strip_index L = matched rs"
      "sorted_wrt (\<lambda>x y. snd (fst x) < snd (fst y)) L"
      using query_loop_items [where idx = 0 and items = items and str_fn = str_fn and q = q and ctx = ctx and sort_fn = ?s] by auto
    moreover have "map snd (strip_index L) = map snd L" by (simp add: strip_index_def split_beta comp_def)
    ultimately show ?thesis using Inr by (simp add: * res_simps py_sorted_tuples)
  qed
qed

section \<open>Requested names\<close>

text \<open>Values that are equal only to themselves among each other.\<close>

lemma unique_values_set:
  assumes "unique_values vs seen = Inr us" "\<And>u v. u \<in> set vs \<Longrightarrow> v \<in> set vs \<union> set seen \<Longrightarrow> py_eq u v \<Longrightarrow> u = v"
  shows "set vs \<subseteq> set us \<union> set seen"
  using assms
proof (induction vs arbitrary: seen us)
  case (Cons v vs)
  show ?case
  proof (cases "list_ex (py_eq v) seen")
    case True
    then have "v \<in> set seen" using Cons.prems(2) [of v] by (auto simp: list_ex_iff)
    moreover have "set vs \<subseteq> set us \<union> set seen"
      by (rule Cons.IH) (use Cons.prems True in \<open>auto split: if_splits\<close>)
    ultimately show ?thesis by simp
  next
    case False
    then obtain us' where us': "unique_values vs (seen @ [v]) = Inr us'" "us = v # us'"
      using Cons.prems(1) by (auto simp: res_simps split: if_splits)
    have "set vs \<subseteq> set us' \<union> set (seen @ [v])"
      by (rule Cons.IH [OF us'(1)]) (use Cons.prems(2) in auto)
    then show ?thesis using us'(2) by auto
  qed
qed simp

definition plain_kind :: "qft \<Rightarrow> bool" where
  "plain_kind k \<longleftrightarrow> k \<in> {QFT_TEXT, QFT_NUMBER}"

lemma plain_kind_eq:
  assumes "plain_kind k" "VERIFY_FN k u = Inr True" "VERIFY_FN k v = Inr True" "py_eq u v"
  shows "u = v"
  using assms by (auto simp: plain_kind_def TString_def TInt_def split: pyval.splits)

lemma requested_names_reject:
  assumes init: "Query_init re fl selected (Some qf) (Some nf) = Inr q"
    and names: "q_requested_names q = Some names"
    and f: "map_of fl nf = Some f" "plain_kind (fd_kind f)" "nf \<noteq> []"
    and out: "reject (map (name_check f) names) ctx item"
  obtains fn where "q_filter_fn q = Some fn" "fn ctx item = Inr False"
proof -
  obtain fn h' where C: "Compile re fl 0 qf (Some (FilterHints nf)) = Inr (fn, Some h')" "q_filter_fn q = Some fn"
    "Hints_RequestedNames h' = Inr (Some names)"
    using init names f(1,3)
    by (auto simp: Query_init_def compile_query_def Let_def res_simps split: option.splits)
  then have "hinted f (FilterHints nf) h' [fn]" using Compile_hinted f(1) by (force simp: FilterHints_def)
  moreover obtain vs where vs: "fh_names h' = Some vs" "\<not> fh_allnames h'" "unique_values vs [] = Inr names"
    using C(3) by (auto simp: Hints_RequestedNames_def res_simps split: option.splits if_splits)
  ultimately have ex: "excludes f vs [fn]"
    by (auto simp: hinted_def names_list_def FilterHints_def)
  have "set vs \<subseteq> set names \<union> set []"
    by (rule unique_values_set [OF vs(3)]) (use ex plain_kind_eq [OF f(2)] in \<open>auto simp: excludes_def\<close>)
  then have "reject (map (name_check f) vs) ctx item" using out by (auto simp: reject_def)
  then have "reject [fn] ctx item" using ex unfolding excludes_def by blast
  then show ?thesis using that C(2) by (simp add: reject_def)
qed

lemma query_item_excluded:
  "q_filter_fn q = Some fn \<Longrightarrow> fn ctx item = Inr False \<Longrightarrow> query_item str_fn q sort_fn ctx item = Inr None"
  by (simp add: query_item_def)

lemma res_bind_assoc: "res_bind (res_bind r f) g = res_bind r (\<lambda>x. res_bind (f x) g)"
  by (cases r) simp_all

lemma res_map_matched:
  assumes "\<And>x. x \<in> set xs \<Longrightarrow> \<not> keep x \<Longrightarrow> g x = Inr None"
  shows "res_bind (res_map g (filter keep xs)) (\<lambda>rs. Inr (F (matched rs))) = res_bind (res_map g xs) (\<lambda>rs. Inr (F (matched rs)))"
  using assms
proof (induction xs arbitrary: F)
  case (Cons x xs)
  show ?case
  proof (cases "g x")
    case (Inl e)
    then have "keep x" using Cons.prems [of x] by force
    then show ?thesis using Inl by simp
  next
    case (Inr r)
    let ?F = "\<lambda>ms. F ((case r of None \<Rightarrow> [] | Some x \<Rightarrow> [x]) @ ms)"
    have "res_bind (res_map g (filter keep xs)) (\<lambda>rs. Inr (?F (matched rs))) =
      res_bind (res_map g xs) (\<lambda>rs. Inr (?F (matched rs)))"
      by (rule Cons.IH) (use Cons.prems in simp)
    then show ?thesis
      using Inr Cons.prems [of x] by (auto simp: matched_def res_bind_assoc)
  qed
qed simp

text \<open>C11: a caller of a query may leave out the items that the requested names exclude: if the query
  was made with a filter and a name field of texts or of numbers, and none of the requested names is
  equal to the name of the items left out, the result is that of the query over all items, be it rows or an error.\<close>

theorem query_requested_names:
  assumes "Query_init re fl selected (Some qf) (Some nf) = Inr q" "q_requested_names q = Some names"
    and "map_of fl nf = Some f" "plain_kind (fd_kind f)" "nf \<noteq> []"
    and "\<And>item. item \<in> set items \<Longrightarrow> \<not> keep item \<Longrightarrow> \<forall>v \<in> set names. name_check f v ctx item = Inr False"
  shows "Query_Query str_fn q ctx (filter keep items) sort_by_name = Query_Query str_fn q ctx items sort_by_name"
  unfolding Query_Query_rows
proof (rule res_map_matched)
  fix item assume "item \<in> set items" "\<not> keep item"
  then have "reject (map (name_check f) names) ctx item" using assms(6) unfolding reject_def by simp
  then obtain fn where "q_filter_fn q = Some fn" "fn ctx item = Inr False"
    using requested_names_reject [OF assms(1-5)] by blast
  then show "query_item str_fn q (sort_fn_of q sort_by_name) ctx item = Inr None" by (rule query_item_excluded)
qed

text \<open>C12: the rows of a query are those of the matching items in their order or, if it is sorted, stably
  sorted by the keys of their names: the index of an item, which is part of what is compared, only keeps
  the order of equal names. An error is that of the first item that has one.\<close>

theorem query_rows:
  "Query_Query str_fn q ctx items sort_by_name =
     (let sort_fn = sort_fn_of q sort_by_name
      in case res_map (query_item str_fn q sort_fn ctx) items of
           Inl e \<Rightarrow> Inl e
         | Inr rs \<Rightarrow> Inr (map snd (if sort_fn = None then matched rs else sort_key fst (matched rs))))"
  unfolding Query_Query_rows Let_def by (simp split: sum.split)

section \<open>Simple filters of names\<close>

definition name_matches :: "nat \<Rightarrow> string \<Rightarrow> string \<Rightarrow> bool" where
  "name_matches flags n s \<longleftrightarrow> (if flags AND QFF_HOSTNAME \<noteq> 0 then s \<noteq> [] \<and> name_re_match n s else n = s)"

lemma name_re_match_refl: "name_re_match s s"
  by (simp add: name_re_match_def)

lemma name_check_text:
  assumes "fd_flags f AND QFF_SPLIT_TIMESTAMP = 0" "fd_fn f ctx item = Inr (FVal (PStr s))"
  shows "name_check f (PStr n) ctx item = Inr (name_matches (fd_flags f) n s)"
  using assms name_re_match_refl
  by (auto simp: name_check_def EQUALITY_CHECKS_def WrapBinaryOp_def no_prep_def op_eq_def match_hostname_def
      name_matches_def and.commute)

lemma any_res_exists: "any_res (map (\<lambda>x. Inr (P x)) xs) = Inr (\<exists>x \<in> set xs. P x)"
  by (induction xs) auto

text \<open>The hints after the operands that compare the name field with given names.\<close>

definition note_names :: "nat option \<Rightarrow> string \<Rightarrow> string list \<Rightarrow> hints \<Rightarrow> hints" where
  "note_names k nf ns h = fold (\<lambda>n. NoteBinaryOp ''=='' k nf (PStr n)) ns h"

lemma note_names_props:
  assumes "\<not> fh_allnames h" "fh_namefield h = nf"
  shows "\<not> fh_allnames (note_names k nf ns h) \<and> fh_namefield (note_names k nf ns h) = nf \<and>
    names_list (note_names k nf ns h) = names_list h @ map PStr ns \<and> (ns \<noteq> [] \<longrightarrow> fh_names (note_names k nf ns h) \<noteq> None)"
  using assms
proof (induction ns arbitrary: h)
  case (Cons n ns)
  let ?h = "NoteBinaryOp ''=='' k nf (PStr n) h"
  have h: "\<not> fh_allnames ?h" "fh_namefield ?h = nf" "names_list ?h = names_list h @ [PStr n]" "fh_names ?h \<noteq> None"
    using Cons.prems by (simp_all add: NoteBinaryOp_def Let_def names_list_def)
  then show ?case using Cons.IH [OF h(1,2)] by (cases ns) (auto simp: note_names_def)
qed (simp add: note_names_def)

lemma Compile_name:
  assumes "map_of fl nf = Some f" "fd_kind f = QFT_TEXT" "fd_flags f AND QFF_SPLIT_TIMESTAMP = 0" "level < LEVELS_MAX"
  shows "Compile re fl level (PList [PStr ''=='', PStr nf, PStr n]) (Some h) =
    Inr (name_check f (PStr n), Some (NoteBinaryOp ''=='' (fd_datakind f) nf (PStr n) h))"
proof -
  have "select_check EQUALITY_CHECKS (fd_flags f) = Some (if QFF_HOSTNAME AND fd_flags f \<noteq> 0 then match_hostname else op_eq, no_prep)"
    using assms(3) by (simp add: EQUALITY_CHECKS_def and.commute)
  moreover have "field_of (OPS re) (PStr ''=='') = Some (OPTYPE_BINARY EQUALITY_CHECKS)"
    by (simp add: OPS_def)
  ultimately show ?thesis
    using assms(1,2,4)
    by (subst Compile.simps) (simp add: HandleBinaryOp_def LookupField_def TString_def no_prep_def name_check_def fun_eq_iff)
qed

lemma compile_names:
  assumes "map_of fl nf = Some f" "fd_kind f = QFT_TEXT" "fd_flags f AND QFF_SPLIT_TIMESTAMP = 0" "level < LEVELS_MAX"
  shows "compile_list (\<lambda>q h. Compile re fl level q h) (map (\<lambda>n. PList [PStr ''=='', PStr nf, PStr n]) ns) (Some h) =
    Inr (map (\<lambda>n. name_check f (PStr n)) ns, Some (note_names (fd_datakind f) nf ns h))"
  by (induction ns arbitrary: h) (simp_all add: Compile_name [OF assms] note_names_def)

lemma unique_values_texts: "unique_values (map PStr ns) (map PStr seen) = Inr (map PStr (unique_loop ns (set seen)))"
proof (induction ns arbitrary: seen)
  case (Cons n ns)
  have "list_ex (py_eq (PStr n)) (map PStr seen) \<longleftrightarrow> n \<in> set seen" by (auto simp: list_ex_iff)
  then show ?case using Cons [of seen] Cons [of "seen @ [n]"] by simp
qed simp

lemma simple_query:
  assumes f: "map_of fl nf = Some f" "fd_kind f = QFT_TEXT" "fd_flags f AND QFF_SPLIT_TIMESTAMP = 0"
    and ne: "nf \<noteq> []" "ns \<noteq> []"
  obtains q where "Query_init re fl selected (MakeSimpleFilter nf (map PStr ns)) (Some nf) = Inr q"
    "q_requested_names q = Some (map PStr (UniqueSequence ns))"
    "q_filter_fn q = Some (WrapLogicOp any_res (map (\<lambda>n. name_check f (PStr n)) ns))"
proof -
  let ?h = "FilterHints nf" let ?h' = "note_names (fd_datakind f) nf ns ?h"
  have "field_of (OPS re) (PStr ''|'') = Some (OPTYPE_LOGIC any_res)" by (simp add: OPS_def)
  moreover have "NoteLogicOp ''|'' ?h = ?h" by (simp add: NoteLogicOp_def)
  ultimately have C: "Compile re fl 0 (PList (PStr ''|'' # map (\<lambda>n. PList [PStr ''=='', PStr nf, PStr n]) ns)) (Some ?h) =
    Inr (WrapLogicOp any_res (map (\<lambda>n. name_check f (PStr n)) ns), Some ?h')"
    by (subst Compile.simps) (simp add: compile_names [OF f] LEVELS_MAX_def)
  have "\<not> fh_allnames ?h'" "fh_names ?h' = Some (map PStr ns)"
    using note_names_props [of ?h nf "fd_datakind f" ns] ne(2) by (auto simp: FilterHints_def names_list_def)
  then have R: "Hints_RequestedNames ?h' = Inr (Some (map PStr (UniqueSequence ns)))"
    using unique_values_texts [of ns "[]"] by (simp add: Hints_RequestedNames_def UniqueSequence_def)
  have "MakeSimpleFilter nf (map PStr ns) =
    Some (PList (PStr ''|'' # map (\<lambda>n. PList [PStr ''=='', PStr nf, PStr n]) ns))"
    using ne(2) by (simp add: MakeSimpleFilter_def comp_def)
  then show ?thesis
    using that C R f(1) ne(1) by (simp add: Query_init_def compile_query_def)
qed

text \<open>C13: a query for given names, with the filter that \<^verbatim>\<open>qlang.MakeSimpleFilter\<close> builds, on a text field
  that is not a split timestamp, is made without an error; it requests the given names, each once in the order given,
  and its filter matches an item if and only if the name of the item is one of them, or, for the name of
  a host, starts up to letter case with the labels of one of them.\<close>

theorem simple_filter_names:
  assumes "map_of fl nf = Some f" "fd_kind f = QFT_TEXT" "fd_flags f AND QFF_SPLIT_TIMESTAMP = 0"
    and "nf \<noteq> []" "ns \<noteq> []"
  shows "\<exists>q fn. Query_init re fl selected (MakeSimpleFilter nf (map PStr ns)) (Some nf) = Inr q \<and>
    q_requested_names q = Some (map PStr (UniqueSequence ns)) \<and> q_filter_fn q = Some fn \<and>
    (\<forall>ctx item s. fd_fn f ctx item = Inr (FVal (PStr s)) \<longrightarrow>
       fn ctx item = Inr (\<exists>n \<in> set ns. name_matches (fd_flags f) n s))"
proof -
  obtain q where q: "Query_init re fl selected (MakeSimpleFilter nf (map PStr ns)) (Some nf) = Inr q"
    "q_requested_names q = Some (map PStr (UniqueSequence ns))"
    "q_filter_fn q = Some (WrapLogicOp any_res (map (\<lambda>n. name_check f (PStr n)) ns))"
    by (rule simple_query [OF assms])
  moreover have "WrapLogicOp any_res (map (\<lambda>n. name_check f (PStr n)) ns) ctx item =
      Inr (\<exists>n \<in> set ns. name_matches (fd_flags f) n s)"
    if "fd_fn f ctx item = Inr (FVal (PStr s))" for ctx item s
    using name_check_text [OF assms(3) that]
    by (simp add: WrapLogicOp_def comp_def any_res_exists)
  ultimately show ?thesis by blast
qed

text \<open>A filter that is a tuple passes the check of its form and then raises.\<close>

lemma tuple_filter_raises: "level < LEVELS_MAX \<Longrightarrow> Compile re fl level (PTuple (op # operands)) h = Inl AttributeError"
  by (subst Compile.simps) simp

definition name_field :: "(unit, string) qfield" where
  "name_field = \<lparr>fd_name = ''name'', fd_title = ''Node'', fd_kind = QFT_TEXT, fd_doc = ''Node name'', fd_datakind = None,
     fd_flags = QFF_HOSTNAME, fd_fn = \<lambda>_ item. Inr (FVal (PStr item))\<rparr>"

lemma name_field_simps:
  "map_of [(''name'', name_field)] ''name'' = Some name_field" "fd_kind name_field = QFT_TEXT"
  "fd_flags name_field AND QFF_SPLIT_TIMESTAMP = 0" "fd_flags name_field AND QFF_HOSTNAME \<noteq> 0"
  "fd_fn name_field () s = Inr (FVal (PStr s))"
  by (simp_all add: name_field_def QFF_HOSTNAME_def QFF_SPLIT_TIMESTAMP_def)

theorem simple_filter_names_witness:
  "\<exists>q fn. Query_init (\<lambda>_. None) [(''name'', name_field)] [''name''] (MakeSimpleFilter ''name'' (map PStr [''node1'', ''node1''])) (Some ''name'') = Inr q \<and>
    q_requested_names q = Some [PStr ''node1''] \<and> q_filter_fn q = Some fn \<and>
    fn () ''Node1.example.com'' = Inr True \<and> fn () ''node10'' = Inr False"
proof -
  obtain q fn where q: "Query_init (\<lambda>_. None) [(''name'', name_field)] [''name''] (MakeSimpleFilter ''name'' (map PStr [''node1'', ''node1''])) (Some ''name'') = Inr q"
    "q_requested_names q = Some (map PStr (UniqueSequence [''node1'', ''node1'']))" "q_filter_fn q = Some fn"
    "\<forall>ctx item s. fd_fn name_field ctx item = Inr (FVal (PStr s)) \<longrightarrow>
       fn ctx item = Inr (\<exists>n \<in> set [''node1'', ''node1'']. name_matches (fd_flags name_field) n s)"
    using simple_filter_names [OF name_field_simps(1-3), of "[''node1'', ''node1'']" "\<lambda>_. None" "[''name'']"] by auto
  have "name_re_match ''node1'' ''Node1.example.com''" "\<not> name_re_match ''node1'' ''node10''"
    by (simp_all add: name_re_match_def to_upper_def is_lower_def char_of_def bit_Suc_0_iff)
  then have "fn () ''Node1.example.com'' = Inr True" "fn () ''node10'' = Inr False"
    using q(4) name_field_simps(5) by (simp_all add: name_matches_def name_field_simps(4))
  then show ?thesis using q(1-3) by (simp add: UniqueSequence_def)
qed

theorem query_requested_names_witness:
  "\<exists>q. Query_init (\<lambda>_. None) [(''name'', name_field)] [''name''] (MakeSimpleFilter ''name'' (map PStr [''node1''])) (Some ''name'') = Inr q \<and>
   Query_Query (\<lambda>_. []) q () (filter (\<lambda>s. s = ''node1.example.com'') [''node10'', ''node1.example.com'', ''web'']) True =
   Query_Query (\<lambda>_. []) q () [''node10'', ''node1.example.com'', ''web''] True"
proof -
  obtain q where q: "Query_init (\<lambda>_. None) [(''name'', name_field)] [''name''] (MakeSimpleFilter ''name'' (map PStr [''node1''])) (Some ''name'') = Inr q"
    "q_requested_names q = Some (map PStr (UniqueSequence [''node1'']))"
    by (rule simple_query [OF name_field_simps(1-3), of "[''node1'']"]) auto
  have qf: "MakeSimpleFilter ''name'' (map PStr [''node1'']) =
      Some (PList [PStr ''|'', PList [PStr ''=='', PStr ''name'', PStr ''node1'']])"
    by (simp add: MakeSimpleFilter_def)
  have out: "name_check name_field (PStr ''node1'') () s = Inr False" if "s \<in> {''node10'', ''web''}" for s
    using that by (auto simp: name_check_text [OF name_field_simps(3,5)] name_matches_def name_field_simps(4) name_re_match_def
        to_upper_def is_lower_def char_of_def bit_Suc_0_iff)
  have "Query_Query (\<lambda>_. []) q () (filter (\<lambda>s. s = ''node1.example.com'') [''node10'', ''node1.example.com'', ''web'']) True =
   Query_Query (\<lambda>_. []) q () [''node10'', ''node1.example.com'', ''web''] True"
    by (rule query_requested_names [OF q(1) [unfolded qf] q(2) name_field_simps(1)])
      (use out in \<open>auto simp: plain_kind_def name_field_simps(2) UniqueSequence_def\<close>)
  then show ?thesis using q(1) by blast
qed

end
