(* ===== verification/Spec2Isabelle.thy ===== *)
theory Spec2Isabelle
  imports Job_Run Shared_Lock Worker_Pool Uid_Pool Address_Pool Reservations Mcpu Opcodes Query
begin

text \<open>
  A verification development for the Python part of Ganeti, the cluster manager.

  \<^bold>\<open>The program.\<close> A client submits a job, a list of opcodes. The job queue
  (\<^verbatim>\<open>lib/jqueue\<close>) stores it in a file, and a job process works through its opcodes: it
  validates them (\<^verbatim>\<open>lib/opcodes_base.py\<close> with the checks of \<^verbatim>\<open>lib/ht.py\<close>), waits for the jobs
  they depend on, and hands each to the processor (\<^verbatim>\<open>lib/mcpu.py\<close>). The processor acquires the
  locks that the logical unit of the opcode declares, runs the unit, and frees the locks; if
  it does not get them in time, the job processor tries again, with longer timeouts and at last
  with a higher priority. Inside a daemon, threads share locks (\<^verbatim>\<open>lib/locking.py\<close>) and take tasks
  from a worker pool (\<^verbatim>\<open>lib/workerpool.py\<close>). Logical units draw on resources that must be
  handed out once only: IP addresses (\<^verbatim>\<open>lib/network.py\<close>), user-ids (\<^verbatim>\<open>lib/uidpool.py\<close>) and the
  reservations of the configuration (\<^verbatim>\<open>lib/config/temporary_reservations.py\<close>). Clients list the objects of
  the cluster through queries with filters (\<^verbatim>\<open>lib/query.py\<close>).

  \<^bold>\<open>The theories.\<close>
  \<^item> \<open>Ganeti_Prelude\<close>: exceptions, results and stateful methods that may raise, strings and
    numbers as Python reads and writes them, and two contracts, the locales \<open>guarded_ops\<close>
    (operations that keep an invariant, failing ones skipped; interpreted by the address
    pools and the reservations) and \<open>inductive_invariant\<close> (interpreted by the
    transition systems of the job, the lock and the pool).
  \<^item> \<open>Heapq\<close>: the standard library's heap with its sift loops; the locale
    \<open>min_queue\<close> is what the lock and the pool rely on.
  \<^item> \<open>Job_Data\<close>, \<open>Job_Deps\<close>, \<open>Job_Store\<close>, \<open>Job_Processor\<close>, \<open>Job_Run\<close>: the classes
    \<^verbatim>\<open>_QueuedOpCode\<close>, \<^verbatim>\<open>_QueuedJob\<close>, \<^verbatim>\<open>_JobDependencyManager\<close>, \<^verbatim>\<open>JobQueue\<close>, \<^verbatim>\<open>_OpExecCallbacks\<close> and
    \<^verbatim>\<open>_JobProcessor\<close> of \<^verbatim>\<open>lib/jqueue/__init__.py\<close> and the loop of \<^verbatim>\<open>lib/jqueue/exec.py\<close>. Records
    \<open>queued_op\<close>, \<open>queued_job\<close> and \<open>jqueue\<close> are the objects' attributes; every method is a
    definition of the same name. Shown: a call of the processor fails none of its assertions and keeps
    the form of a job; every job without dependencies ends within a computed number of calls; the
    same holds in every state that cancelling, changing priorities and restarting
    lead to; stored jobs are read back; status, cancelling and dependencies behave
    as specified.
  \<^item> \<open>Retry\<close> and \<open>Mcpu\<close>: \<^verbatim>\<open>lib/utils/retry.py\<close>, the timeouts of lock attempts, and the \<^verbatim>\<open>Processor\<close>
    of \<^verbatim>\<open>lib/mcpu.py\<close> with the lock levels. Shown: the retry loops end; locks are
    requested in the global lock order, are all freed again however the execution ends,
    and a logical unit starts only after all of them have been confirmed.
  \<^item> \<open>Ht\<close> and \<open>Opcodes\<close>: the checks of \<^verbatim>\<open>lib/ht.py\<close> on Python values (\<open>pyval\<close>), and
    construction, validation and dictionary form of opcodes. Shown: the checks decide the
    types they describe; validation gives every parameter a value of its type; an opcode is
    loaded back unchanged.
  \<^item> \<open>Algo\<close> and \<open>Query\<close>: \<^verbatim>\<open>lib/utils/algo.py\<close>, the filter compiler and the queries of
    \<^verbatim>\<open>lib/query.py\<close>, and the filters that \<^verbatim>\<open>lib/qlang.py\<close> makes of arguments. Shown: natural sorting is stable
    sorting by keys; rows are those of the matching items in that order; the names that
    a compiled filter requests are enough to answer the query; a filter made of
    names matches the items with these names.
  \<^item> \<open>Shared_Lock\<close>: \<^verbatim>\<open>SharedLock\<close> of \<^verbatim>\<open>lib/locking.py\<close> under every interleaving of threads, as a
    step relation. Shown: mutual exclusion, no lost wake-up, order of grants, behaviour after
    deletion.
  \<^item> \<open>Worker_Pool\<close>: \<^verbatim>\<open>lib/workerpool.py\<close> as a step relation. Shown: the heap with abandoned
    entries implements an abstract set of tasks ordered by priority and age, and the pool
    never sleeps on queued tasks.
  \<^item> \<open>Uid_Pool\<close>: \<^verbatim>\<open>lib/uidpool.py\<close>. Shown: round trip of pool definitions, exactness of the
    sanity check, and that a requested user-id is unused and locked.
  \<^item> \<open>Ip_Address\<close> and \<open>Address_Pool\<close>: the part of the standard library's \<^verbatim>\<open>ipaddress\<close> that is
    used, and \<^verbatim>\<open>lib/network.py\<close>. Shown: the lowest free address is handed out,
    and the network object records the pool faithfully.
  \<^item> \<open>Reservations\<close>: \<^verbatim>\<open>lib/config/temporary_reservations.py\<close>. Shown: a resource has one holder at
    most; when generating a resource ends.

  \<^bold>\<open>Conventions.\<close> Code that may raise has the type \<open>'a res\<close>, a sum with the exception on the
  left. Shared mutable objects live in stores indexed by numbers. What is outside the
  sources (generated opcode classes, bit arrays, the daemons reached by RPC, clocks, random
  choices, the file system) is an argument of the definitions, with documented behaviour as
  named hypotheses where a property needs it; each such hypothesis is met by a concrete instance
  in the witness of the property.

  \<^bold>\<open>Loops and bounds.\<close> Loops over data are structural recursion or functions with a termination proof.
  Loops that may run for ever (\<^verbatim>\<open>Retry\<close>, \<^verbatim>\<open>Generate\<close>, waiting for locks) are partial functions to
  \<open>option\<close> whose value \<open>None\<close> means that they do not return; that they return is a
  theorem of its own, with the condition under which it holds. No definition uses fuel.
  Python's integers are \<open>int\<close>; floats are rationals, with the rounding of \<^verbatim>\<open>float(int)\<close> written out.

  \<^bold>\<open>Not modelled.\<close> The individual logical units, the configuration, the node daemon, hypervisors,
  storage, RPC, the remote API, the command line clients, the watcher and the tools: what they
  do is to call external programs and other nodes, and their outcome is in the answers. Of the
  modelled files: waiting for changes of a job file through inotify and submission through RPC
  (job queue), the pipe primitives and the lock monitor (locking), starting threads (worker
  pool), descriptions of checks and checks of generated enumerations (parameter types),
  the tables of fields and the grammar of textual filters (queries).
\<close>

end
